(* ===== verification/Atlas_Prelude.thy ===== *)
theory Atlas_Prelude
  imports
    Main
    "HOL-Library.AList"
    "HOL-Library.Char_ord"
    "HOL-Library.List_Lexorder"
    "HOL-Library.Product_Lexorder"
    "HOL-Library.Multiset"
begin

text \<open>
  Shared vocabulary of the development.

  \<^item> Instants (\<^verbatim>\<open>time.Time\<close>) are integers counting nanoseconds from Go's zero time, so
    the zero value \<^verbatim>\<open>time.Time{}\<close> is \<open>0\<close>, \<^verbatim>\<open>IsZero\<close> is \<open>t = 0\<close>, and
    \<^verbatim>\<open>Before\<close>, \<^verbatim>\<open>After\<close>, \<^verbatim>\<open>Equal\<close> and \<^verbatim>\<open>Compare\<close> are the order of the integers.
    \<^verbatim>\<open>t.UTC()\<close> changes the location of an instant and not the instant.
  \<^item> A Go map is an association list with distinct keys (\<open>gm_wf\<close>). The order of the
    list stands for the order in which one \<^verbatim>\<open>range\<close> loop visits the map, which Go leaves
    open: a theorem for every well-formed list is a theorem for every order.
  \<^item> A fallible operation returns a value of type \<open>'e + 'a\<close>, with the error on the left.
\<close>

type_synonym gotime = int
type_synonym duration = int
type_synonym ('k, 'v) gomap = "('k \<times> 'v) list"

named_theorems gomap_rules \<open>reading, writing and deleting keys of a Go map\<close>
named_theorems keyed_rules \<open>loops that rewrite the values of a Go map in place\<close>

subsection \<open>Go maps\<close>

abbreviation gm_wf :: "('k, 'v) gomap \<Rightarrow> bool" where
  "gm_wf m \<equiv> distinct (map fst m)"

definition gm_get :: "('k, 'v) gomap \<Rightarrow> 'k \<Rightarrow> 'v option" where
  "gm_get m k = map_of m k"

definition gm_put :: "'k \<Rightarrow> 'v \<Rightarrow> ('k, 'v) gomap \<Rightarrow> ('k, 'v) gomap" where
  "gm_put k v m = AList.update k v m"

definition gm_del :: "'k \<Rightarrow> ('k, 'v) gomap \<Rightarrow> ('k, 'v) gomap" where
  "gm_del k m = AList.delete k m"

text \<open>\<^verbatim>\<open>for k, v := range m { m[k] = f(k, v) }\<close>\<close>

definition gm_map :: "('k \<Rightarrow> 'v \<Rightarrow> 'w) \<Rightarrow> ('k, 'v) gomap \<Rightarrow> ('k, 'w) gomap" where
  "gm_map f m = map (\<lambda>(k, v). (k, f k v)) m"

lemma gm_get_Nil [simp, gomap_rules]: "gm_get [] k = None"
  by (simp add: gm_get_def)

lemma gm_get_put [simp, gomap_rules]:
  "gm_get (gm_put k v m) k' = (if k' = k then Some v else gm_get m k')"
  by (simp add: gm_get_def gm_put_def update_conv')

lemma gm_get_del [simp, gomap_rules]:
  "gm_get (gm_del k m) k' = (if k' = k then None else gm_get m k')"
  by (simp add: gm_get_def gm_del_def delete_conv')

lemma gm_wf_put [simp, gomap_rules]: "gm_wf m \<Longrightarrow> gm_wf (gm_put k v m)"
  by (simp add: gm_put_def distinct_update)

lemma gm_wf_del [simp, gomap_rules]: "gm_wf m \<Longrightarrow> gm_wf (gm_del k m)"
  by (simp add: gm_del_def distinct_delete)

lemma gm_get_map [simp, keyed_rules]:
  "gm_get (gm_map f m) k = map_option (f k) (gm_get m k)"
  by (induction m) (auto simp: gm_get_def gm_map_def)

lemma fst_gm_map [simp, keyed_rules]: "map fst (gm_map f m) = map fst m"
  by (induction m) (auto simp: gm_map_def)

lemma gm_get_in_set: "gm_get m k = Some v \<Longrightarrow> (k, v) \<in> set m"
  by (simp add: gm_get_def map_of_SomeD)

lemma gm_get_iff: "gm_wf m \<Longrightarrow> gm_get m k = Some v \<longleftrightarrow> (k, v) \<in> set m"
  by (simp add: gm_get_def)

lemma gm_get_None_iff: "gm_get m k = None \<longleftrightarrow> k \<notin> fst ` set m"
  by (simp add: gm_get_def map_of_eq_None_iff)

lemma gm_get_ran_values:
  assumes "gm_wf m"
  shows "v \<in> snd ` set m \<longleftrightarrow> (\<exists>k. gm_get m k = Some v)"
  using assms by (force simp: gm_get_iff)

lemma set_gm_map: "set (gm_map f m) = (\<lambda>(k, v). (k, f k v)) ` set m"
  by (simp add: gm_map_def)

subsection \<open>Sorting by a key that tells the elements apart\<close>

text \<open>
  The standard library's \<^verbatim>\<open>slices.SortFunc\<close> returns some sorted permutation. When the sort
  key is injective on the elements there is only one, so the stable sort of the library
  is that permutation whatever the order of the input.
\<close>

lemma sort_key_unique:
  fixes f :: "'a \<Rightarrow> 'b::linorder"
  assumes "mset xs = mset ys" and "inj_on f (set xs)"
  shows "sort_key f xs = sort_key f ys"
proof (rule properties_for_sort_key)
  show "mset (sort_key f ys) = mset xs" using assms(1) by simp
next
  fix x assume "x \<in> set (sort_key f ys)"
  moreover have eq: "set xs = set ys" using assms(1) by (metis set_mset_mset)
  ultimately have x: "x \<in> set xs" by simp
  have "filter (\<lambda>y. f x = f y) xs = replicate (length (filter (\<lambda>y. f x = f y) xs)) x"
    using assms(2) x by (intro replicate_length_same [symmetric]) (auto dest: inj_onD)
  moreover have "filter (\<lambda>y. f x = f y) (sort_key f ys)
      = replicate (length (filter (\<lambda>y. f x = f y) (sort_key f ys))) x"
    using assms(2) x eq by (intro replicate_length_same [symmetric]) (auto dest: inj_onD)
  moreover have "length (filter (\<lambda>y. f x = f y) (sort_key f ys))
      = length (filter (\<lambda>y. f x = f y) xs)"
    by (metis assms(1) mset_filter mset_sort size_mset)
  ultimately show "filter (\<lambda>y. f x = f y) (sort_key f ys) = filter (\<lambda>y. f x = f y) xs"
    by simp
next
  show "sorted (map f (sort_key f ys))" by simp
qed

lemma sorted_take_le:
  fixes f :: "'a \<Rightarrow> 'b::linorder"
  assumes "sorted (map f xs)" and "x \<in> set (take n xs)" and "y \<in> set (drop n xs)"
  shows "f x \<le> f y"
proof -
  have "sorted (map f (take n xs) @ map f (drop n xs))"
    using assms(1) by (simp flip: map_append)
  then show ?thesis using assms(2,3) by (auto simp: sorted_append)
qed

subsection \<open>Sums over an updated list\<close>

lemma sum_list_map_update:
  fixes f :: "'a \<Rightarrow> 'b::comm_monoid_add"
  assumes "k < length xs"
  shows "sum_list (map f (xs[k := x])) + f (xs ! k) = sum_list (map f xs) + f x"
  using assms
proof (induction xs arbitrary: k)
  case (Cons y ys)
  then show ?case by (cases k) (simp_all add: ac_simps)
qed simp

lemma sum_list_map_ge:
  fixes f :: "'a \<Rightarrow> nat"
  assumes "k < length xs"
  shows "f (xs ! k) \<le> sum_list (map f xs)"
  using assms by (metis elem_le_sum_list length_map nth_map)

subsection \<open>Decimal text and length-framed keys\<close>

text \<open>\<^verbatim>\<open>strconv.Itoa\<close> and \<^verbatim>\<open>strconv.AppendUint\<close> with base ten.\<close>

fun nat_digits :: "nat \<Rightarrow> string" where
  "nat_digits n =
     (if n < 10 then [char_of (48 + n)] else nat_digits (n div 10) @ [char_of (48 + n mod 10)])"

declare nat_digits.simps [simp del]

definition Itoa :: "int \<Rightarrow> string" where
  "Itoa i = (if i < 0 then ''-'' @ nat_digits (nat (- i)) else nat_digits (nat i))"

text \<open>The value a string of decimal digits denotes, which gives the number back.\<close>

definition digits_value :: "string \<Rightarrow> nat" where
  "digits_value s = foldl (\<lambda>a c. 10 * a + (of_char c - 48)) 0 s"

lemma nat_digits_value: "digits_value (nat_digits n) = n"
proof (induction n rule: nat_digits.induct)
  case (1 n)
  have d: "of_char (char_of (48 + k) :: char) = 48 + k" if "k < 10" for k :: nat
    using that by (simp add: of_char_of)
  show ?case
    using 1 d [of n] d [of "n mod 10"] by (subst nat_digits.simps) (auto simp: digits_value_def)
qed

lemma nat_digits_inj: "nat_digits m = nat_digits n \<Longrightarrow> m = n"
  by (metis nat_digits_value)

lemma nat_digits_range: "c \<in> set (nat_digits n) \<Longrightarrow> of_char c \<in> {48..57 :: nat}"
proof (induction n rule: nat_digits.induct)
  case (1 n)
  then show ?case
    by (subst (asm) nat_digits.simps) (auto simp: of_char_of split: if_splits)
qed

lemma nat_digits_no_colon: "CHR '':'' \<notin> set (nat_digits n)"
  using nat_digits_range [of "CHR '':''" n] by auto

lemma append_sep_inject:
  assumes "c \<notin> set xs" and "c \<notin> set ys"
  shows "xs @ c # us = ys @ c # vs \<longleftrightarrow> xs = ys \<and> us = vs"
proof
  assume eq: "xs @ c # us = ys @ c # vs"
  have "takeWhile (\<lambda>x. x \<noteq> c) (xs @ c # us) = xs" "takeWhile (\<lambda>x. x \<noteq> c) (ys @ c # vs) = ys"
    using assms by (auto simp: takeWhile_append)
  with eq show "xs = ys \<and> us = vs" by auto
qed auto

text \<open>A part framed by its length in decimal and a colon can be read back from the front.\<close>

lemma framed_inject:
  "nat_digits (length a) @ CHR '':'' # a @ us = nat_digits (length b) @ CHR '':'' # b @ vs \<longleftrightarrow> a = b \<and> us = vs"
  by (auto simp: append_sep_inject nat_digits_no_colon dest: nat_digits_inj)

end
