(* ===== verification/RetryQueue.thy ===== *)
theory RetryQueue
  imports Atlas_Prelude
begin

text \<open>
  The durable retry queue: the item and the storage contract of
  \<^verbatim>\<open>src/data/retryqueue\<close> and the map-backed storage of
  \<^verbatim>\<open>src/data/retryqueue/storages/memory\<close>. Every method of the store runs under one mutex,
  so a method is one atomic function of the store.

  \<open>rq_spec\<close> is the storage contract as a state machine of the item of one key. The
  locale \<open>retry_storage\<close> states that a storage implements it and derives the fencing
  guarantees a worker relies on; the memory store is interpreted in it.
\<close>

subsection \<open>Items\<close>

datatype rq_state = StatePending | StateExpired | StateResolved

record 'p item =
  it_Key :: string
  it_Generation :: int
  it_State :: rq_state
  it_Since :: gotime
  it_Attempts :: int
  it_NextAttemptAt :: gotime
  it_ExpiredAt :: gotime
  it_ResolvedAt :: gotime
  it_Flagged :: bool
  it_FlagReason :: string
  it_Payload :: 'p

definition DefaultListLimit :: int where
  "DefaultListLimit = 200"

type_synonym 'p rq_store = "(string, 'p item) gomap"

subsection \<open>The operations of the memory store\<close>

definition rq_New :: "'p rq_store" where
  "rq_New = []"

definition rq_Len :: "'p rq_store \<Rightarrow> nat" where
  "rq_Len s = length s"

definition rq_at :: "'p rq_store \<Rightarrow> string \<Rightarrow> int \<Rightarrow> 'p item option" where
  "rq_at s key gen =
     (case gm_get s key of
        None \<Rightarrow> None
      | Some it \<Rightarrow> if it_Generation it = gen then Some it else None)"

text \<open>\<open>UTC\<close> keeps the instant, so \<^verbatim>\<open>utc\<close> is the identity on instants, zero included.\<close>

definition utc :: "gotime \<Rightarrow> gotime" where
  "utc t = (if t = 0 then 0 else t)"

definition fresh :: "'p item \<Rightarrow> 'p item" where
  "fresh it =
     \<lparr> it_Key = it_Key it, it_Generation = it_Generation it, it_State = StatePending,
       it_Since = utc (it_Since it), it_Attempts = 0,
       it_NextAttemptAt = utc (it_NextAttemptAt it), it_ExpiredAt = 0, it_ResolvedAt = 0,
       it_Flagged = False, it_FlagReason = [], it_Payload = it_Payload it \<rparr>"

definition rq_Mark :: "'p item \<Rightarrow> 'p rq_store \<Rightarrow> 'p rq_store \<times> 'p item" where
  "rq_Mark it s =
     (case gm_get s (it_Key it) of
        Some cur \<Rightarrow> (s, cur)
      | None \<Rightarrow> (gm_put (it_Key it) (fresh it) s, fresh it))"

definition rq_Reopen :: "'p item \<Rightarrow> 'p rq_store \<Rightarrow> 'p rq_store \<times> 'p item" where
  "rq_Reopen it s =
     (case gm_get s (it_Key it) of
        Some cur \<Rightarrow>
          (if it_Generation cur > it_Generation it
              \<or> (it_Generation cur = it_Generation it \<and> it_State cur = StatePending)
           then (s, cur)
           else (gm_put (it_Key it) (fresh it) s, fresh it))
      | None \<Rightarrow> (gm_put (it_Key it) (fresh it) s, fresh it))"

definition rq_collect :: "('p item \<Rightarrow> bool) \<Rightarrow> 'p rq_store \<Rightarrow> 'p item list" where
  "rq_collect keep s = filter keep (map snd s)"

definition rq_truncate :: "'p item list \<Rightarrow> int \<Rightarrow> 'p item list" where
  "rq_truncate items limit =
     (let limit' = (if limit \<le> 0 then DefaultListLimit else limit)
      in if int (length items) > limit' then take (nat limit') items else items)"

definition rq_due :: "gotime \<Rightarrow> 'p item \<Rightarrow> bool" where
  "rq_due now it \<longleftrightarrow> it_State it = StatePending \<and> \<not> it_NextAttemptAt it > now"

definition rq_ListDue :: "gotime \<Rightarrow> int \<Rightarrow> 'p rq_store \<Rightarrow> 'p item list" where
  "rq_ListDue now limit s =
     rq_truncate
       (sort_key (\<lambda>it. (it_NextAttemptAt it, it_Key it)) (rq_collect (rq_due now) s)) limit"

definition rq_WakeDue :: "gotime \<Rightarrow> 'p rq_store \<Rightarrow> 'p rq_store" where
  "rq_WakeDue now s =
     gm_map (\<lambda>_ it. if it_State it = StatePending \<and> it_NextAttemptAt it > now
                    then it\<lparr>it_NextAttemptAt := now\<rparr> else it) s"

definition rq_Reschedule :: "string \<Rightarrow> int \<Rightarrow> gotime \<Rightarrow> 'p rq_store \<Rightarrow> 'p rq_store" where
  "rq_Reschedule key gen next s =
     (case rq_at s key gen of
        Some it \<Rightarrow>
          (if it_State it = StatePending
           then gm_put key (it\<lparr>it_Attempts := it_Attempts it + 1, it_NextAttemptAt := next\<rparr>) s
           else s)
      | None \<Rightarrow> s)"

definition rq_Expire ::
  "string \<Rightarrow> int \<Rightarrow> gotime \<Rightarrow> gotime \<Rightarrow> 'p rq_store \<Rightarrow> 'p rq_store \<times> bool" where
  "rq_Expire key gen since at s =
     (case rq_at s key gen of
        None \<Rightarrow> (s, False)
      | Some it \<Rightarrow>
          (if it_State it \<noteq> StatePending \<or> it_Since it \<noteq> since then (s, False)
           else (gm_put key (it\<lparr>it_State := StateExpired, it_ExpiredAt := at\<rparr>) s, True)))"

definition rq_Resolve :: "string \<Rightarrow> int \<Rightarrow> gotime \<Rightarrow> 'p rq_store \<Rightarrow> 'p rq_store" where
  "rq_Resolve key gen at s =
     (case rq_at s key gen of
        Some it \<Rightarrow>
          (if it_State it \<noteq> StateResolved
           then gm_put key (it\<lparr>it_State := StateResolved, it_ResolvedAt := at, it_ExpiredAt := 0,
                               it_Flagged := False, it_FlagReason := []\<rparr>) s
           else s)
      | None \<Rightarrow> s)"

definition rq_Flag ::
  "string \<Rightarrow> int \<Rightarrow> string \<Rightarrow> 'p rq_store \<Rightarrow> 'p rq_store \<times> bool" where
  "rq_Flag key gen reason s =
     (case rq_at s key gen of
        None \<Rightarrow> (s, False)
      | Some it \<Rightarrow>
          (if it_State it \<noteq> StatePending \<or> (it_Flagged it \<and> it_FlagReason it = reason)
           then (s, False)
           else (gm_put key (it\<lparr>it_Flagged := True, it_FlagReason := reason\<rparr>) s, True)))"

definition rq_ClearFlag :: "string \<Rightarrow> int \<Rightarrow> 'p rq_store \<Rightarrow> 'p rq_store" where
  "rq_ClearFlag key gen s =
     (case rq_at s key gen of
        Some it \<Rightarrow>
          (if it_Flagged it then gm_put key (it\<lparr>it_Flagged := False, it_FlagReason := []\<rparr>) s else s)
      | None \<Rightarrow> s)"

definition rq_DeleteObsolete :: "string \<Rightarrow> int \<Rightarrow> 'p rq_store \<Rightarrow> 'p rq_store \<times> bool" where
  "rq_DeleteObsolete key gen s =
     (case gm_get s key of
        None \<Rightarrow> (s, False)
      | Some it \<Rightarrow> if it_Generation it > gen then (s, True) else (gm_del key s, False))"

definition rq_Delete :: "string \<Rightarrow> 'p rq_store \<Rightarrow> 'p rq_store" where
  "rq_Delete key s = gm_del key s"

definition rq_ListByState :: "rq_state \<Rightarrow> int \<Rightarrow> 'p rq_store \<Rightarrow> 'p item list" where
  "rq_ListByState st limit s =
     rq_truncate
       (sort_key (\<lambda>it. (it_Since it, it_Key it)) (rq_collect (\<lambda>it. it_State it = st) s)) limit"

definition rq_requeues :: "string list \<Rightarrow> string \<Rightarrow> 'p item \<Rightarrow> bool" where
  "rq_requeues keys key it \<longleftrightarrow>
     \<not> (it_State it \<noteq> StateExpired \<or> (length keys > 0 \<and> key \<notin> set keys))"

definition rq_Requeue :: "gotime \<Rightarrow> string list \<Rightarrow> 'p rq_store \<Rightarrow> 'p rq_store \<times> nat" where
  "rq_Requeue now keys s =
     (gm_map (\<lambda>key it. if rq_requeues keys key it
                       then it\<lparr>it_State := StatePending, it_Since := now, it_NextAttemptAt := now,
                               it_Attempts := 0, it_ExpiredAt := 0\<rparr>
                       else it) s,
      length (filter (\<lambda>(key, it). rq_requeues keys key it) s))"

lemmas rq_op_defs =
  rq_Mark_def rq_Reopen_def rq_WakeDue_def rq_Reschedule_def rq_Expire_def rq_Resolve_def
  rq_Flag_def rq_ClearFlag_def rq_DeleteObsolete_def rq_Delete_def rq_Requeue_def

subsection \<open>Calls and runs\<close>

datatype 'p rq_call =
    Mark "'p item"
  | Reopen "'p item"
  | WakeDue gotime
  | Reschedule string int gotime
  | Expire string int gotime gotime
  | Resolve string int gotime
  | Flag string int string
  | ClearFlag string int
  | DeleteObsolete string int
  | Delete string
  | Requeue gotime "string list"

primrec rq_step :: "'p rq_call \<Rightarrow> 'p rq_store \<Rightarrow> 'p rq_store" where
  "rq_step (Mark it) s = fst (rq_Mark it s)"
| "rq_step (Reopen it) s = fst (rq_Reopen it s)"
| "rq_step (WakeDue now) s = rq_WakeDue now s"
| "rq_step (Reschedule key gen next) s = rq_Reschedule key gen next s"
| "rq_step (Expire key gen since at) s = fst (rq_Expire key gen since at s)"
| "rq_step (Resolve key gen at) s = rq_Resolve key gen at s"
| "rq_step (Flag key gen reason) s = fst (rq_Flag key gen reason s)"
| "rq_step (ClearFlag key gen) s = rq_ClearFlag key gen s"
| "rq_step (DeleteObsolete key gen) s = fst (rq_DeleteObsolete key gen s)"
| "rq_step (Delete key) s = rq_Delete key s"
| "rq_step (Requeue now keys) s = fst (rq_Requeue now keys s)"

subsection \<open>The storage contract, one key at a time\<close>

definition rq_fenced ::
  "int \<Rightarrow> ('p item \<Rightarrow> bool) \<Rightarrow> ('p item \<Rightarrow> 'p item) \<Rightarrow> 'p item option \<Rightarrow> 'p item option" where
  "rq_fenced gen guard f cur =
     map_option (\<lambda>it. if it_Generation it = gen \<and> guard it then f it else it) cur"

text \<open>
  \<open>rq_spec c key cur\<close> is what the contract says of the item of \<open>key\<close> after the call
  \<open>c\<close>, given the item \<open>cur\<close> before it.
\<close>

primrec rq_spec :: "'p rq_call \<Rightarrow> string \<Rightarrow> 'p item option \<Rightarrow> 'p item option" where
  "rq_spec (Mark it) key cur =
     (if key = it_Key it \<and> cur = None then Some (fresh it) else cur)"
| "rq_spec (Reopen it) key cur =
     (if key = it_Key it
         \<and> (\<forall>c. cur = Some c \<longrightarrow> it_Generation c < it_Generation it
                  \<or> (it_Generation c = it_Generation it \<and> it_State c \<noteq> StatePending))
      then Some (fresh it) else cur)"
| "rq_spec (WakeDue now) key cur =
     map_option (\<lambda>it. if it_State it = StatePending
                      then it\<lparr>it_NextAttemptAt := min (it_NextAttemptAt it) now\<rparr> else it) cur"
| "rq_spec (Reschedule k gen next) key cur =
     (if key = k then rq_fenced gen (\<lambda>it. it_State it = StatePending)
        (\<lambda>it. it\<lparr>it_Attempts := it_Attempts it + 1, it_NextAttemptAt := next\<rparr>) cur else cur)"
| "rq_spec (Expire k gen since at) key cur =
     (if key = k then rq_fenced gen (\<lambda>it. it_State it = StatePending \<and> it_Since it = since)
        (\<lambda>it. it\<lparr>it_State := StateExpired, it_ExpiredAt := at\<rparr>) cur else cur)"
| "rq_spec (Resolve k gen at) key cur =
     (if key = k then rq_fenced gen (\<lambda>it. it_State it \<noteq> StateResolved)
        (\<lambda>it. it\<lparr>it_State := StateResolved, it_ResolvedAt := at, it_ExpiredAt := 0,
                 it_Flagged := False, it_FlagReason := []\<rparr>) cur else cur)"
| "rq_spec (Flag k gen reason) key cur =
     (if key = k then rq_fenced gen (\<lambda>it. it_State it = StatePending)
        (\<lambda>it. it\<lparr>it_Flagged := True, it_FlagReason := reason\<rparr>) cur else cur)"
| "rq_spec (ClearFlag k gen) key cur =
     (if key = k then rq_fenced gen it_Flagged
        (\<lambda>it. it\<lparr>it_Flagged := False, it_FlagReason := []\<rparr>) cur else cur)"
| "rq_spec (DeleteObsolete k gen) key cur =
     (if key = k \<and> (\<forall>c. cur = Some c \<longrightarrow> it_Generation c \<le> gen) then None else cur)"
| "rq_spec (Delete k) key cur = (if key = k then None else cur)"
| "rq_spec (Requeue now keys) key cur =
     map_option (\<lambda>it. if it_State it = StateExpired \<and> (keys = [] \<or> key \<in> set keys)
                      then it\<lparr>it_State := StatePending, it_Since := now, it_NextAttemptAt := now,
                              it_Attempts := 0, it_ExpiredAt := 0\<rparr>
                      else it) cur"

lemma utc_id [simp]: "utc t = t"
  by (simp add: utc_def)

lemma fresh_simps [simp]:
  "it_Key (fresh it) = it_Key it" "it_Generation (fresh it) = it_Generation it"
  "it_State (fresh it) = StatePending" "it_Attempts (fresh it) = 0"
  "it_ExpiredAt (fresh it) = 0" "it_ResolvedAt (fresh it) = 0" "it_Flagged (fresh it) = False"
  "it_FlagReason (fresh it) = []" "it_Since (fresh it) = it_Since it"
  "it_NextAttemptAt (fresh it) = it_NextAttemptAt it" "it_Payload (fresh it) = it_Payload it"
  by (simp_all add: fresh_def)

lemma rq_step_view: "gm_get (rq_step c s) key = rq_spec c key (gm_get s key)"
proof (cases c)
  case (Requeue now keys)
  then show ?thesis by (cases "gm_get s key") (auto simp: rq_Requeue_def rq_requeues_def)
next
  case (WakeDue now)
  then show ?thesis by (cases "gm_get s key") (auto simp: rq_WakeDue_def)
qed (auto simp: rq_op_defs rq_at_def rq_fenced_def split: option.splits)

lemma rq_step_wf: "gm_wf s \<Longrightarrow> gm_wf (rq_step c s)"
  by (cases c) (auto simp: rq_op_defs rq_at_def split: option.splits)

subsection \<open>What a worker relies on\<close>

definition rq_item_wf :: "string \<Rightarrow> 'p item \<Rightarrow> bool" where
  "rq_item_wf key it \<longleftrightarrow>
     it_Key it = key
     \<and> (it_State it \<noteq> StateExpired \<longrightarrow> it_ExpiredAt it = 0)
     \<and> (it_State it \<noteq> StateResolved \<longrightarrow> it_ResolvedAt it = 0)
     \<and> (it_State it = StateResolved \<longrightarrow> \<not> it_Flagged it)
     \<and> (\<not> it_Flagged it \<longrightarrow> it_FlagReason it = [])
     \<and> 0 \<le> it_Attempts it"

text \<open>
  A call is stale for generation \<open>g\<close> of \<open>key\<close> when it carries an older generation or
  touches another key. \<open>rq_removes\<close> are the calls that take the item of \<open>key\<close> away when
  it is at generation \<open>g\<close> or older.
\<close>

primrec rq_stale :: "string \<Rightarrow> int \<Rightarrow> 'p rq_call \<Rightarrow> bool" where
  "rq_stale key g (Mark it) = True"
| "rq_stale key g (Reopen it) = (it_Key it \<noteq> key \<or> it_Generation it < g)"
| "rq_stale key g (WakeDue now) = False"
| "rq_stale key g (Reschedule k gen next) = (k \<noteq> key \<or> gen < g)"
| "rq_stale key g (Expire k gen since at) = (k \<noteq> key \<or> gen < g)"
| "rq_stale key g (Resolve k gen at) = (k \<noteq> key \<or> gen < g)"
| "rq_stale key g (Flag k gen reason) = (k \<noteq> key \<or> gen < g)"
| "rq_stale key g (ClearFlag k gen) = (k \<noteq> key \<or> gen < g)"
| "rq_stale key g (DeleteObsolete k gen) = (k \<noteq> key \<or> gen < g)"
| "rq_stale key g (Delete k) = (k \<noteq> key)"
| "rq_stale key g (Requeue now keys) = False"

primrec rq_removes :: "string \<Rightarrow> int \<Rightarrow> 'p rq_call \<Rightarrow> bool" where
  "rq_removes key g (Mark it) = False"
| "rq_removes key g (Reopen it) = False"
| "rq_removes key g (WakeDue now) = False"
| "rq_removes key g (Reschedule k gen next) = False"
| "rq_removes key g (Expire k gen since at) = False"
| "rq_removes key g (Resolve k gen at) = False"
| "rq_removes key g (Flag k gen reason) = False"
| "rq_removes key g (ClearFlag k gen) = False"
| "rq_removes key g (DeleteObsolete k gen) = (k = key \<and> g \<le> gen)"
| "rq_removes key g (Delete k) = (k = key)"
| "rq_removes key g (Requeue now keys) = False"

lemma rq_spec_stale:
  "rq_stale key g c \<Longrightarrow> g \<le> it_Generation it \<Longrightarrow> rq_spec c key (Some it) = Some it"
  by (cases c) (auto simp: rq_fenced_def)

lemma rq_spec_generation:
  assumes "\<not> rq_removes key g c" and "g \<le> it_Generation it"
  shows "\<exists>it'. rq_spec c key (Some it) = Some it' \<and> it_Generation it \<le> it_Generation it'"
  using assms by (cases c) (auto simp: rq_fenced_def)

lemma rq_spec_item_wf:
  assumes "\<forall>it. cur = Some it \<longrightarrow> rq_item_wf key it"
  shows "\<forall>it. rq_spec c key cur = Some it \<longrightarrow> rq_item_wf key it"
  using assms by (cases c; cases cur) (auto simp: rq_item_wf_def rq_fenced_def split: if_splits)

locale retry_storage =
  fixes step :: "'p rq_call \<Rightarrow> 's \<Rightarrow> 's"
    and view :: "'s \<Rightarrow> string \<Rightarrow> 'p item option"
    and invar :: "'s \<Rightarrow> bool"
  assumes view_step: "invar s \<Longrightarrow> view (step c s) key = rq_spec c key (view s key)"
    and invar_step: "invar s \<Longrightarrow> invar (step c s)"
begin

lemma run_invar: "invar s \<Longrightarrow> invar (fold step cs s)"
  by (induction cs arbitrary: s) (auto simp: invar_step)

lemma run_view: "invar s \<Longrightarrow> view (fold step cs s) key = fold (\<lambda>c. rq_spec c key) cs (view s key)"
  by (induction cs arbitrary: s) (auto simp: invar_step view_step)

lemma run_item_wf:
  assumes "invar s" and "\<forall>it. view s key = Some it \<longrightarrow> rq_item_wf key it"
  shows "\<forall>it. view (fold step cs s) key = Some it \<longrightarrow> rq_item_wf key it"
  using assms
proof (induction cs arbitrary: s)
  case (Cons c cs)
  have "\<forall>it. view (step c s) key = Some it \<longrightarrow> rq_item_wf key it"
    unfolding view_step [OF Cons.prems(1)] by (rule rq_spec_item_wf [OF Cons.prems(2)])
  from Cons.IH [OF invar_step [OF Cons.prems(1)] this] show ?case by simp
qed simp

lemma run_generation:
  assumes "invar s" and "view s key = Some it" and "g \<le> it_Generation it"
    and "\<forall>c \<in> set cs. \<not> rq_removes key g c"
  shows "\<exists>it'. view (fold step cs s) key = Some it' \<and> it_Generation it \<le> it_Generation it'"
  using assms
proof (induction cs arbitrary: s it)
  case (Cons c cs)
  obtain it1 where "view (step c s) key = Some it1" "it_Generation it \<le> it_Generation it1"
    using rq_spec_generation [of key g c it] Cons.prems by (auto simp: view_step)
  then show ?case
    using Cons.IH [of "step c s" it1] Cons.prems by (force simp: invar_step)
qed simp

lemma run_stale_erased:
  assumes "invar s" and "invar s'" and "view s key = Some it" and "view s' key = Some it"
    and "g \<le> it_Generation it" and "\<forall>c \<in> set cs. \<not> rq_removes key g c"
  shows "view (fold step cs s) key = view (fold step (filter (\<lambda>c. \<not> rq_stale key g c) cs) s') key"
  using assms
proof (induction cs arbitrary: s s' it)
  case (Cons c cs)
  show ?case
  proof (cases "rq_stale key g c")
    case True
    then have "view (step c s) key = Some it"
      using Cons.prems(1,3,5) by (simp add: view_step rq_spec_stale)
    then show ?thesis
      using True Cons.IH [of "step c s" s' it] Cons.prems by (simp add: invar_step)
  next
    case False
    obtain it1 where it1: "rq_spec c key (Some it) = Some it1" "it_Generation it \<le> it_Generation it1"
      using rq_spec_generation [of key g c it] Cons.prems by auto
    then show ?thesis
      using False Cons.IH [of "step c s" "step c s'" it1] Cons.prems
      by (simp add: invar_step view_step)
  qed
qed simp

end

interpretation rqm: retry_storage rq_step gm_get gm_wf
  by unfold_locales (auto simp: rq_step_view rq_step_wf)

subsection \<open>Results of the racing transitions\<close>

fun rq_wins :: "string \<Rightarrow> int \<Rightarrow> gotime \<Rightarrow> 'p rq_call list \<Rightarrow> 'p rq_store \<Rightarrow> nat" where
  "rq_wins key gen since [] s = 0"
| "rq_wins key gen since (c # cs) s =
     (case c of
        Expire k g si at \<Rightarrow>
          (if k = key \<and> g = gen \<and> si = since \<and> snd (rq_Expire k g si at s) then 1 else 0)
      | _ \<Rightarrow> 0) + rq_wins key gen since cs (rq_step c s)"

text \<open>The calls that may give the item of \<open>key\<close> a new life, and the ones that end it.\<close>

primrec rq_revives :: "string \<Rightarrow> 'p rq_call \<Rightarrow> bool" where
  "rq_revives key (Mark it) = False"
| "rq_revives key (Reopen it) = (it_Key it = key)"
| "rq_revives key (WakeDue now) = False"
| "rq_revives key (Reschedule k gen next) = False"
| "rq_revives key (Expire k gen since at) = False"
| "rq_revives key (Resolve k gen at) = False"
| "rq_revives key (Flag k gen reason) = False"
| "rq_revives key (ClearFlag k gen) = False"
| "rq_revives key (DeleteObsolete k gen) = (k = key)"
| "rq_revives key (Delete k) = (k = key)"
| "rq_revives key (Requeue now keys) = True"

definition rq_live :: "int \<Rightarrow> gotime \<Rightarrow> 'p item \<Rightarrow> bool" where
  "rq_live gen since it \<longleftrightarrow>
     it_State it = StatePending \<and> it_Generation it = gen \<and> it_Since it = since"

lemma snd_rq_Expire:
  "snd (rq_Expire key gen since at s) = (\<exists>it. gm_get s key = Some it \<and> rq_live gen since it)"
  by (auto simp: rq_Expire_def rq_at_def rq_live_def split: option.splits)

lemma rq_spec_not_live:
  assumes "\<not> rq_revives key c" and "\<not> rq_live gen since it"
  shows "\<exists>it'. rq_spec c key (Some it) = Some it' \<and> \<not> rq_live gen since it'"
  using assms by (cases c) (auto simp: rq_fenced_def rq_live_def)

lemma rq_wins_dead:
  assumes "gm_get s key = Some it" and "\<not> rq_live gen since it"
    and "\<forall>c \<in> set cs. \<not> rq_revives key c"
  shows "rq_wins key gen since cs s = 0"
  using assms
proof (induction cs arbitrary: s it)
  case (Cons c cs)
  obtain it' where it': "gm_get (rq_step c s) key = Some it'" "\<not> rq_live gen since it'"
    using rq_spec_not_live [of key c gen since it] Cons.prems by (auto simp: rq_step_view)
  show ?case
    using Cons.IH [OF it'] Cons.prems by (auto simp: snd_rq_Expire split: rq_call.split)
qed simp

lemma rq_spec_live:
  assumes "\<not> rq_revives key c" and "rq_live gen since it"
    and "\<nexists>at. c = Resolve key gen at" and "\<nexists>at. c = Expire key gen since at"
  shows "\<exists>it'. rq_spec c key (Some it) = Some it' \<and> rq_live gen since it'"
  using assms by (cases c) (auto simp: rq_fenced_def rq_live_def)

lemma rq_spec_Expire_live:
  "rq_live gen since it \<Longrightarrow>
     \<exists>it'. rq_spec (Expire key gen since at) key (Some it) = Some it' \<and> \<not> rq_live gen since it'"
  by (auto simp: rq_fenced_def rq_live_def)

lemma rq_wins_one:
  assumes "gm_get s key = Some it" and "rq_live gen since it"
    and "\<forall>c \<in> set cs. \<not> rq_revives key c \<and> (\<nexists>at. c = Resolve key gen at)"
    and "\<exists>at. Expire key gen since at \<in> set cs"
  shows "rq_wins key gen since cs s = 1"
  using assms
proof (induction cs arbitrary: s it)
  case (Cons c cs)
  show ?case
  proof (cases "\<exists>at. c = Expire key gen since at")
    case True
    then obtain at where c: "c = Expire key gen since at" by blast
    obtain it' where "gm_get (rq_step c s) key = Some it'" "\<not> rq_live gen since it'"
      using rq_spec_Expire_live [OF Cons.prems(2)] Cons.prems(1) unfolding c rq_step_view
      by fastforce
    then have "rq_wins key gen since cs (rq_step c s) = 0"
      using rq_wins_dead Cons.prems(3) by fastforce
    then show ?thesis using c Cons.prems(1,2) by (auto simp: snd_rq_Expire)
  next
    case False
    obtain it' where it': "gm_get (rq_step c s) key = Some it'" "rq_live gen since it'"
      using rq_spec_live [of key c gen since it] Cons.prems False by (auto simp: rq_step_view)
    have "rq_wins key gen since cs (rq_step c s) = 1"
      using Cons.IH [OF it'] Cons.prems False by auto
    then show ?thesis using False by (auto split: rq_call.split)
  qed
qed simp

subsection \<open>Listing\<close>

lemma rq_collect_get:
  assumes "gm_wf s" and "\<forall>(k, it) \<in> set s. it_Key it = k" and "x \<in> set (rq_collect keep s)"
  shows "gm_get s (it_Key x) = Some x"
proof -
  obtain k where "(k, x) \<in> set s" using assms(3) by (auto simp: rq_collect_def)
  then show ?thesis using assms(1,2) gm_get_iff by fastforce
qed

lemma inj_on_key_pair:
  assumes "gm_wf s" and "\<forall>(k, it) \<in> set s. it_Key it = k"
  shows "inj_on (\<lambda>it. (f it, it_Key it)) (set (rq_collect keep s))"
  by (rule inj_onI) (metis Pair_inject assms option.inject rq_collect_get)

lemma distinct_rq_collect:
  assumes "gm_wf s" and "\<forall>(k, it) \<in> set s. it_Key it = k"
  shows "distinct (rq_collect keep s)"
proof -
  have "map it_Key (map snd s) = map fst s" using assms(2) by (auto simp: map_eq_conv)
  then have "distinct (map snd s)" using assms(1) by (metis distinct_map)
  then show ?thesis by (simp add: rq_collect_def)
qed

definition rq_cap :: "int \<Rightarrow> nat" where
  "rq_cap limit = nat (if limit \<le> 0 then DefaultListLimit else limit)"

lemma rq_truncate_take: "rq_truncate xs limit = take (rq_cap limit) xs"
  by (auto simp: rq_truncate_def rq_cap_def Let_def)

lemma set_rq_collect:
  assumes "gm_wf s"
  shows "set (rq_collect keep s) = {it. (\<exists>k. gm_get s k = Some it) \<and> keep it}"
  using gm_get_ran_values [OF assms] by (auto simp: rq_collect_def)

lemma rq_list_prefix:
  fixes f :: "'p item \<Rightarrow> int" and keep :: "'p item \<Rightarrow> bool" and limit :: int
  assumes "gm_wf s" and "\<forall>(k, it) \<in> set s. it_Key it = k"
  defines "srt \<equiv> sort_key (\<lambda>it. (f it, it_Key it)) (rq_collect keep s)"
  defines "out \<equiv> rq_truncate srt limit"
  defines "all \<equiv> {it. (\<exists>k. gm_get s k = Some it) \<and> keep it}"
  shows "set out \<subseteq> all" and "distinct out" and "length out = min (card all) (rq_cap limit)"
    and "sorted (map (\<lambda>it. (f it, it_Key it)) out)"
    and "\<And>x y. x \<in> set out \<Longrightarrow> y \<in> all - set out \<Longrightarrow> (f x, it_Key x) \<le> (f y, it_Key y)"
proof -
  have all: "set srt = all" using set_rq_collect [OF assms(1)] by (simp add: srt_def all_def)
  have dist: "distinct srt" using distinct_rq_collect [OF assms(1,2)] by (simp add: srt_def)
  have out: "out = take (rq_cap limit) srt" by (simp add: out_def rq_truncate_take)
  have srt: "sorted (map (\<lambda>it. (f it, it_Key it)) srt)" by (simp add: srt_def)
  show "set out \<subseteq> all" using all by (auto simp: out dest: in_set_takeD)
  show "distinct out" using dist by (simp add: out)
  show "length out = min (card all) (rq_cap limit)"
    using all dist distinct_card [of srt] by (simp add: out)
  show "sorted (map (\<lambda>it. (f it, it_Key it)) out)"
    using srt by (simp add: out take_map [symmetric] sorted_wrt_take)
  fix x y assume x: "x \<in> set out" and y: "y \<in> all - set out"
  then have "y \<in> set (drop (rq_cap limit) srt)"
    using all by (metis DiffD1 DiffD2 UnE append_take_drop_id out set_append)
  then show "(f x, it_Key x) \<le> (f y, it_Key y)"
    using sorted_take_le [OF srt, of x "rq_cap limit" y] x by (simp add: out)
qed

subsection \<open>Properties\<close>

lemma rq_New_view [simp]: "gm_get rq_New key = None"
  by (simp add: rq_New_def)

lemma rq_New_wf: "gm_wf rq_New"
  by (simp add: rq_New_def)

lemma rq_run_keys: "\<forall>(k, it) \<in> set (fold rq_step cs rq_New). it_Key it = k"
proof -
  have "rq_item_wf k it" if "(k, it) \<in> set (fold rq_step cs rq_New)" for k it
    using that rqm.run_item_wf [of rq_New k cs] rqm.run_invar [OF rq_New_wf, of cs]
    by (simp add: gm_get_iff rq_New_wf)
  then show ?thesis by (auto simp: rq_item_wf_def)
qed


text \<open>
  C16: generation fencing. Once the item of a key is at generation \<open>g\<close> or newer, and nobody
  deletes it, a run of any calls leaves the item as if the calls of workers that hold an
  older generation had never been made, and the generation never goes back.
\<close>

theorem rq_stale_calls_have_no_effect:
  assumes "gm_wf s" and "gm_get s key = Some it" and "g \<le> it_Generation it"
    and "\<forall>c \<in> set cs. \<not> rq_removes key g c"
  shows "gm_get (fold rq_step cs s) key
           = gm_get (fold rq_step (filter (\<lambda>c. \<not> rq_stale key g c) cs) s) key
         \<and> (\<exists>it'. gm_get (fold rq_step cs s) key = Some it' \<and> it_Generation it \<le> it_Generation it')"
  using rqm.run_stale_erased [OF assms(1,1,2,2,3,4)] rqm.run_generation [OF assms] by blast

definition rq_demo_item :: "string \<Rightarrow> int \<Rightarrow> gotime \<Rightarrow> nat item" where
  "rq_demo_item k g t =
     \<lparr> it_Key = k, it_Generation = g, it_State = StatePending, it_Since = t, it_Attempts = 0,
       it_NextAttemptAt = t, it_ExpiredAt = 0, it_ResolvedAt = 0, it_Flagged = False,
       it_FlagReason = [], it_Payload = 0 \<rparr>"

theorem rq_stale_calls_have_no_effect_witness:
  "gm_get (fold rq_step [Resolve ''k'' 1 9, Reschedule ''k'' 2 50, Expire ''k'' 1 5 9]
             [(''k'', rq_demo_item ''k'' 2 5)]) ''k''
     = gm_get (fold rq_step
         (filter (\<lambda>c. \<not> rq_stale ''k'' 2 c)
            [Resolve ''k'' 1 9, Reschedule ''k'' 2 50, Expire ''k'' 1 5 9])
         [(''k'', rq_demo_item ''k'' 2 5)]) ''k''"
proof -
  have "gm_get [(''k'', rq_demo_item ''k'' 2 5)] ''k'' = Some (rq_demo_item ''k'' 2 5)"
    by (simp add: gm_get_def)
  then show ?thesis
    using rq_stale_calls_have_no_effect
      [of "[(''k'', rq_demo_item ''k'' 2 5)]" "''k''" "rq_demo_item ''k'' 2 5" 2
        "[Resolve ''k'' 1 9, Reschedule ''k'' 2 50, Expire ''k'' 1 5 9]"]
    by (simp add: rq_demo_item_def)
qed

text \<open>
  C20: in every store reached from the empty one by any calls the keys are distinct and each
  item is stored under its own key, has an expiry instant only while expired and a
  resolution instant only while resolved, is never both resolved and flagged, has a flag
  reason only while flagged, and counts a non-negative number of attempts.
\<close>

theorem rq_reachable_items_consistent:
  "gm_wf (fold rq_step cs rq_New)
   \<and> (\<forall>key it. gm_get (fold rq_step cs rq_New) key = Some it \<longrightarrow> rq_item_wf key it)"
  using rqm.run_item_wf [OF rq_New_wf, of _ cs] rqm.run_invar [OF rq_New_wf, of cs] by simp

theorem rq_reachable_items_consistent_witness:
  "rq_item_wf ''k'' (rq_demo_item ''k'' 1 5)"
proof -
  have "gm_get (fold rq_step [Mark (rq_demo_item ''k'' 1 5)] rq_New) ''k'' = Some (rq_demo_item ''k'' 1 5)"
    by (simp add: rq_Mark_def rq_demo_item_def fresh_def)
  then show ?thesis
    using rq_reachable_items_consistent [of "[Mark (rq_demo_item ''k'' 1 5)]"] by blast
qed

text \<open>
  C18: of any number of racing \<open>Expire\<close> calls for one key, generation and age exactly one
  reports that it expired the item, whatever else runs between them, as long as the item is
  pending at that generation and age, nobody resolves it first and nobody gives it a new
  life (\<open>Reopen\<close>, \<open>Requeue\<close>, \<open>Delete\<close>).
\<close>

theorem rq_expire_reported_once:
  assumes "gm_get s key = Some it"
    and "it_State it = StatePending \<and> it_Generation it = gen \<and> it_Since it = since"
    and "\<forall>c \<in> set cs. \<not> rq_revives key c \<and> (\<nexists>at. c = Resolve key gen at)"
    and "\<exists>at. Expire key gen since at \<in> set cs"
  shows "rq_wins key gen since cs s = 1"
  using rq_wins_one [OF assms(1) _ assms(3,4)] assms(2) by (simp add: rq_live_def)

theorem rq_expire_reported_once_witness:
  "rq_wins ''k'' 1 5 [Expire ''k'' 1 5 7, WakeDue 3, Expire ''k'' 1 5 8] [(''k'', rq_demo_item ''k'' 1 5)]
     = 1"
  by (rule rq_expire_reported_once [of _ _ "rq_demo_item ''k'' 1 5"])
     (auto simp: gm_get_def rq_demo_item_def)



text \<open>
  What \<open>ListDue\<close> and \<open>ListByState\<close> return does not depend on the order in which the map
  is visited.
\<close>

lemma rq_listing_ignores_map_order:
  assumes "s = fold rq_step cs rq_New" and "mset s = mset s'"
  shows "rq_ListDue now limit s = rq_ListDue now limit s'
         \<and> rq_ListByState st limit s = rq_ListByState st limit s'"
proof -
  have wf: "gm_wf s" "\<forall>(k, it) \<in> set s. it_Key it = k"
    using rqm.run_invar [OF rq_New_wf, of cs] rq_run_keys [of cs] by (simp_all add: assms(1))
  have "sort_key (\<lambda>it. (f it, it_Key it)) (rq_collect keep s)
      = sort_key (\<lambda>it. (f it, it_Key it)) (rq_collect keep s')" for f :: "'a item \<Rightarrow> int" and keep
    by (rule sort_key_unique [OF _ inj_on_key_pair [OF wf]]) (simp add: rq_collect_def assms(2))
  then show ?thesis by (simp add: rq_ListDue_def rq_ListByState_def)
qed

end
