(* ===== verification/GoErrors.thy ===== *)
theory GoErrors
  imports Atlas_Prelude
begin

text \<open>
  Error values and their helpers: \<^verbatim>\<open>src/core/errors/errs.go\<close> and
  \<^verbatim>\<open>src/core/errors/canonical.go\<close>.

  A Go error is a tree. A package-level error variable is a \<open>Sentinel\<close> with the name of the
  variable as its identity; \<open>Errorf\<close> is the result of \<^verbatim>\<open>fmt.Errorf\<close> with the rendered text
  and the errors behind its \<^verbatim>\<open>%w\<close> verbs; \<open>JoinError\<close> is the result of
  \<^verbatim>\<open>errors.Join\<close>. \<open>err_is\<close> is \<^verbatim>\<open>errors.Is\<close> against an error variable and
  \<open>as_field_error\<close> is \<^verbatim>\<open>errors.AsType[*FieldError]\<close>; both walk the tree depth first.
\<close>

subsection \<open>The error tree\<close>

datatype goerr =
    Sentinel string string "goerr list"
  | Errorf string "goerr list"
  | JoinError "goerr list"
  | FieldErr string string "goerr option"
  | MappedFieldErr string string "goerr option" goerr

definition ErrInvalidArgument :: goerr where
  "ErrInvalidArgument = Sentinel ''ErrInvalidArgument'' ''invalid argument'' []"

definition field_text :: "string \<Rightarrow> string \<Rightarrow> string" where
  "field_text field reason = ''invalid argument: '' @ field @ '': '' @ reason"

fun join_lines :: "string list \<Rightarrow> string" where
  "join_lines [] = ''''"
| "join_lines [x] = x"
| "join_lines (x # xs) = x @ [CHR 0x0A] @ join_lines xs"

fun err_text :: "goerr \<Rightarrow> string" where
  "err_text (Sentinel name txt ws) = txt"
| "err_text (Errorf txt ws) = txt"
| "err_text (JoinError es) = join_lines (map err_text es)"
| "err_text (FieldErr field reason e) = field_text field reason"
| "err_text (MappedFieldErr field reason cause e) = err_text e"

fun err_is :: "goerr \<Rightarrow> string \<Rightarrow> bool" where
  "err_is (Sentinel name txt ws) s \<longleftrightarrow> name = s \<or> (\<exists>e \<in> set ws. err_is e s)"
| "err_is (Errorf txt ws) s \<longleftrightarrow> (\<exists>e \<in> set ws. err_is e s)"
| "err_is (JoinError es) s \<longleftrightarrow> (\<exists>e \<in> set es. err_is e s)"
| "err_is (FieldErr field reason e) s \<longleftrightarrow>
     s = ''ErrInvalidArgument'' \<or> (case e of None \<Rightarrow> False | Some c \<Rightarrow> err_is c s)"
| "err_is (MappedFieldErr field reason cause e) s \<longleftrightarrow>
     s = ''ErrInvalidArgument'' \<or> (case cause of None \<Rightarrow> False | Some c \<Rightarrow> err_is c s) \<or> err_is e s"

type_synonym field_error = "string \<times> string \<times> goerr option"

primrec first_some :: "'a option list \<Rightarrow> 'a option" where
  "first_some [] = None"
| "first_some (x # xs) = (case x of Some a \<Rightarrow> Some a | None \<Rightarrow> first_some xs)"

fun as_field_error :: "goerr \<Rightarrow> field_error option" where
  "as_field_error (Sentinel name txt ws) = first_some (map as_field_error ws)"
| "as_field_error (Errorf txt ws) = first_some (map as_field_error ws)"
| "as_field_error (JoinError es) = first_some (map as_field_error es)"
| "as_field_error (FieldErr field reason e) = Some (field, reason, e)"
| "as_field_error (MappedFieldErr field reason cause e) = Some (field, reason, cause)"

subsection \<open>Classification\<close>

definition ErrCanceled :: goerr where
  "ErrCanceled = Sentinel ''context.Canceled'' ''context canceled'' []"

definition ErrDeadlineExceeded :: goerr where
  "ErrDeadlineExceeded = Sentinel ''context.DeadlineExceeded'' ''context deadline exceeded'' []"

definition IsContextDeadlineExceeded :: "goerr option \<Rightarrow> bool" where
  "IsContextDeadlineExceeded err =
     (case err of None \<Rightarrow> False | Some e \<Rightarrow> err_is e ''context.DeadlineExceeded'')"

definition IsContextCanceled :: "goerr option \<Rightarrow> bool" where
  "IsContextCanceled err = (case err of None \<Rightarrow> False | Some e \<Rightarrow> err_is e ''context.Canceled'')"

definition IsContextCanceledOrDeadlineExceeded :: "goerr option \<Rightarrow> bool" where
  "IsContextCanceledOrDeadlineExceeded err =
     (case err of
        None \<Rightarrow> False
      | Some e \<Rightarrow> IsContextCanceled (Some e) \<or> IsContextDeadlineExceeded (Some e))"

subsection \<open>Wrapping\<close>

text \<open>
  \<open>Wrapf\<close> takes the message already rendered by \<^verbatim>\<open>fmt\<close> from its format and arguments.
\<close>

definition wrap_with :: "string \<Rightarrow> goerr option \<Rightarrow> goerr option" where
  "wrap_with prefix err = map_option (\<lambda>e. Errorf (prefix @ err_text e) [e]) err"

definition Wrapf :: "goerr option \<Rightarrow> string \<Rightarrow> goerr option" where
  "Wrapf err msg = wrap_with (msg @ '': '') err"

text \<open>The rendering of a name by \<^verbatim>\<open>%q\<close>, for names that need no escapes.\<close>

definition quoted :: "string \<Rightarrow> string" where
  "quoted s = [CHR 0x22] @ s @ [CHR 0x22]"

definition WrapOperation :: "goerr option \<Rightarrow> string \<Rightarrow> goerr option" where
  "WrapOperation err operation = wrap_with (''failed to '' @ operation @ '': '') err"

definition WrapField :: "goerr option \<Rightarrow> string \<Rightarrow> goerr option" where
  "WrapField err fieldName = wrap_with (''field '' @ [CHR 0x27] @ fieldName @ [CHR 0x27] @ '': '') err"

definition WrapOperationWithContext :: "goerr option \<Rightarrow> string \<Rightarrow> string \<Rightarrow> goerr option" where
  "WrapOperationWithContext err operation ctx =
     wrap_with (''failed to '' @ operation @ '' on '' @ ctx @ '': '') err"

definition Wrap :: "goerr option \<Rightarrow> string \<Rightarrow> goerr option" where
  "Wrap err msg = wrap_with (msg @ '': '') err"

definition JoinWrap :: "goerr option \<Rightarrow> goerr option \<Rightarrow> goerr option" where
  "JoinWrap sentinel cause =
     (case cause of
        None \<Rightarrow> None
      | Some c \<Rightarrow>
          (case sentinel of
             None \<Rightarrow> Some c
           | Some s \<Rightarrow> Some (Errorf (err_text s @ '': '' @ err_text c) [s, c])))"

definition Required :: "string \<Rightarrow> string \<Rightarrow> goerr" where
  "Required dependency ctx = Errorf (dependency @ '' is required for '' @ ctx) []"

definition Provider :: "string \<Rightarrow> goerr option \<Rightarrow> goerr option" where
  "Provider providerType err = wrap_with (''failed to create '' @ providerType @ '' provider: '') err"

definition errors_Join :: "goerr option list \<Rightarrow> goerr option" where
  "errors_Join errs =
     (case List.map_filter id errs of [] \<Rightarrow> None | es \<Rightarrow> Some (JoinError es))"

subsection \<open>Field errors\<close>

definition NewFieldError :: "string \<Rightarrow> string \<Rightarrow> goerr" where
  "NewFieldError field reason = FieldErr field reason None"

definition MapFieldPath :: "goerr option \<Rightarrow> (string \<Rightarrow> string) option \<Rightarrow> goerr option" where
  "MapFieldPath err mapPath =
     (case (err, mapPath) of
        (Some e, Some f) \<Rightarrow>
          (case as_field_error e of
             None \<Rightarrow> err
           | Some (field, reason, cause) \<Rightarrow> Some (MappedFieldErr (f field) reason cause e))
      | _ \<Rightarrow> err)"

subsection \<open>Facts\<close>

lemma wrap_with_cases [simp]:
  "wrap_with p None = None"
  "wrap_with p (Some e) = Some (Errorf (p @ err_text e) [e])"
  by (simp_all add: wrap_with_def)

lemmas wrap_defs =
  Wrapf_def WrapOperation_def WrapField_def WrapOperationWithContext_def Wrap_def Provider_def

lemma errors_Join_is:
  "errors_Join errs = Some j \<Longrightarrow> err_is j s \<longleftrightarrow> (\<exists>e. Some e \<in> set errs \<and> err_is e s)"
proof -
  assume "errors_Join errs = Some j"
  then have "j = JoinError (List.map_filter id errs)"
    by (auto simp: errors_Join_def split: list.splits)
  moreover have "set (List.map_filter id errs) = {e. Some e \<in> set errs}"
    by (induction errs) (auto simp: List.map_filter_simps split: option.split)
  ultimately show ?thesis by simp
qed

lemma errors_Join_None: "errors_Join errs = None \<longleftrightarrow> (\<forall>e \<in> set errs. e = None)"
  by (induction errs) (auto simp: errors_Join_def List.map_filter_def split: list.splits)

lemma first_some_member: "first_some xs = Some a \<Longrightarrow> Some a \<in> set xs"
  by (induction xs) (auto split: option.splits)

lemma first_some_map: "first_some (map f xs) = Some a \<Longrightarrow> \<exists>x \<in> set xs. f x = Some a"
  using first_some_member by fastforce

lemma field_error_chain:
  "as_field_error e = Some (field, reason, cause) \<Longrightarrow> err_is e ''ErrInvalidArgument''
     \<and> (\<forall>c s. cause = Some c \<longrightarrow> err_is c s \<longrightarrow> err_is e s)"
proof (induction e rule: as_field_error.induct)
  case (1 name t ws)
  then obtain x where x: "x \<in> set ws" "as_field_error x = Some (field, reason, cause)"
    using first_some_map [of as_field_error ws] by auto
  show ?case using "1.IH" [OF x] x(1) by auto
next
  case (2 t ws)
  then obtain x where x: "x \<in> set ws" "as_field_error x = Some (field, reason, cause)"
    using first_some_map [of as_field_error ws] by auto
  show ?case using "2.IH" [OF x] x(1) by auto
next
  case (3 es)
  then obtain x where x: "x \<in> set es" "as_field_error x = Some (field, reason, cause)"
    using first_some_map [of as_field_error es] by auto
  show ?case using "3.IH" [OF x] x(1) by auto
qed auto

lemma mapped_is:
  assumes "as_field_error e = Some (field, reason, cause)"
  shows "err_is (MappedFieldErr field' reason cause e) s \<longleftrightarrow> err_is e s"
  using field_error_chain [OF assms] by (auto split: option.splits)



text \<open>
  \<^verbatim>\<open>MapFieldPath\<close> re-roots the field error an error carries: the result reports the
  mapped path with the same reason and cause, keeps the text, matches every error variable the
  original matches and no other, and mapping twice composes the two path functions. An error
  without a field error is returned as it is.
\<close>

lemma MapFieldPath_reroots:
  "(as_field_error e = None \<longrightarrow> MapFieldPath (Some e) (Some f) = Some e)
   \<and> (\<exists>r. MapFieldPath (Some e) (Some f) = Some r \<and> err_text r = err_text e
        \<and> as_field_error r = map_option (\<lambda>(field, rest). (f field, rest)) (as_field_error e)
        \<and> (\<forall>s. err_is r s \<longleftrightarrow> err_is e s)
        \<and> (\<exists>r2. MapFieldPath (Some r) (Some g) = Some r2
             \<and> as_field_error r2 = map_option (\<lambda>(field, rest). (g (f field), rest)) (as_field_error e)))"
proof (cases "as_field_error e")
  case None
  then show ?thesis by (simp add: MapFieldPath_def)
next
  case (Some fe)
  obtain field reason cause where fe: "as_field_error e = Some (field, reason, cause)"
    using Some by (cases fe) auto
  show ?thesis using fe mapped_is [OF fe] by (simp add: MapFieldPath_def del: err_is.simps)
qed

end
