(* ===== verification/GoContext.thy ===== *)
theory GoContext
  imports GoErrors
begin

text \<open>
  Contexts and their deadlines: \<^verbatim>\<open>src/core/context/timeout.go\<close>.

  A context is the chain of its derivations from the caller's context. What the process
  reads at run time, the clock and the state of the caller's context, is a function of the
  world \<open>'w\<close>; \<open>rt_tick\<close> is the time that passes at a call into the runtime. The cancel
  functions only release resources and are left out, except where a batch cancels its own
  context, which is the flag of \<open>WithCancel\<close>.
\<close>

datatype gocx =
    Caller
  | Background
  | WithDeadline gocx gotime
  | WithCancel gocx bool
  | WithoutCancel gocx

record 'w go_rt =
  rt_clock :: "'w \<Rightarrow> gotime"
  rt_tick :: "'w \<Rightarrow> 'w"
  rt_callerErr :: "'w \<Rightarrow> goerr option"
  rt_callerDeadline :: "gotime option"

definition time_Now :: "('w, 'z) go_rt_scheme \<Rightarrow> 'w \<Rightarrow> gotime \<times> 'w" where
  "time_Now rt w = (rt_clock rt w, rt_tick rt w)"

fun ctx_deadline :: "('w, 'z) go_rt_scheme \<Rightarrow> gocx \<Rightarrow> gotime option" where
  "ctx_deadline rt Caller = rt_callerDeadline rt"
| "ctx_deadline rt Background = None"
| "ctx_deadline rt (WithDeadline p d) =
     (case ctx_deadline rt p of None \<Rightarrow> Some d | Some d' \<Rightarrow> Some (min d d'))"
| "ctx_deadline rt (WithCancel p b) = ctx_deadline rt p"
| "ctx_deadline rt (WithoutCancel p) = None"

fun ctx_err :: "('w, 'z) go_rt_scheme \<Rightarrow> gocx \<Rightarrow> 'w \<Rightarrow> goerr option" where
  "ctx_err rt Caller w = rt_callerErr rt w"
| "ctx_err rt Background w = None"
| "ctx_err rt (WithDeadline p d) w =
     (case ctx_err rt p w of
        Some e \<Rightarrow> Some e
      | None \<Rightarrow> (if d \<le> rt_clock rt w then Some ErrDeadlineExceeded else None))"
| "ctx_err rt (WithCancel p b) w =
     (case ctx_err rt p w of Some e \<Rightarrow> Some e | None \<Rightarrow> (if b then Some ErrCanceled else None))"
| "ctx_err rt (WithoutCancel p) w = None"

text \<open>\<^verbatim>\<open>context.WithTimeout\<close>; a parent that ends earlier keeps its own deadline.\<close>

definition WithTimeout ::
  "('w, 'z) go_rt_scheme \<Rightarrow> gocx \<Rightarrow> duration \<Rightarrow> 'w \<Rightarrow> gocx \<times> 'w" where
  "WithTimeout rt c timeout w =
     (let (now, w1) = time_Now rt w; d = now + timeout
      in case ctx_deadline rt c of
           Some cur \<Rightarrow> (if cur < d then WithCancel c False else WithDeadline c d, w1)
         | None \<Rightarrow> (WithDeadline c d, w1))"

definition OrBackground :: "gocx option \<Rightarrow> gocx" where
  "OrBackground c = (case c of None \<Rightarrow> Background | Some c \<Rightarrow> c)"

definition ApplyTimeout ::
  "('w, 'z) go_rt_scheme \<Rightarrow> gocx \<Rightarrow> duration \<Rightarrow> 'w \<Rightarrow> gocx \<times> 'w" where
  "ApplyTimeout rt c timeout w =
     (if timeout = 0 then (c, w)
      else if ctx_deadline rt c \<noteq> None then (c, w)
      else WithTimeout rt c timeout w)"

definition WithDefault ::
  "('w, 'z) go_rt_scheme \<Rightarrow> gocx option \<Rightarrow> duration \<Rightarrow> 'w \<Rightarrow> gocx \<times> 'w" where
  "WithDefault rt c0 defaultTimeout w =
     (let c = (case c0 of None \<Rightarrow> Background | Some c \<Rightarrow> c)
      in if defaultTimeout = 0 then (c, w)
         else if ctx_deadline rt c \<noteq> None then (c, w)
         else WithTimeout rt c defaultTimeout w)"

definition WithMaxTimeout ::
  "('w, 'z) go_rt_scheme \<Rightarrow> gocx option \<Rightarrow> duration \<Rightarrow> 'w \<Rightarrow> gocx \<times> 'w" where
  "WithMaxTimeout rt c0 maxTimeout w =
     (let c = (case c0 of None \<Rightarrow> Background | Some c \<Rightarrow> c)
      in if maxTimeout = 0 then (c, w)
         else case ctx_deadline rt c of
           Some deadline \<Rightarrow>
             (let (now, w1) = time_Now rt w
              in if deadline - now \<le> maxTimeout then (c, w1) else WithTimeout rt c maxTimeout w1)
         | None \<Rightarrow> WithTimeout rt c maxTimeout w)"

subsection \<open>Facts\<close>

lemma ctx_err_min:
  "ctx_err rt (WithDeadline p d) w =
     (if ctx_err rt p w \<noteq> None then ctx_err rt p w
      else if d \<le> rt_clock rt w then Some ErrDeadlineExceeded else None)"
  by (simp split: option.split)

lemma WithTimeout_deadline:
  assumes "WithTimeout rt c t w = (c1, w1)"
  shows "w1 = rt_tick rt w"
    and "ctx_deadline rt c1 =
           Some (case ctx_deadline rt c of
                   None \<Rightarrow> rt_clock rt w + t | Some d \<Rightarrow> min d (rt_clock rt w + t))"
    and "ctx_err rt c w' \<noteq> None \<Longrightarrow> ctx_err rt c1 w' = ctx_err rt c w'"
  using assms by (auto simp: WithTimeout_def time_Now_def Let_def min_def split: option.splits if_splits)


definition demo_go_rt :: "int go_rt" where
  "demo_go_rt = \<lparr> rt_clock = id, rt_tick = (\<lambda>w. w + 1), rt_callerErr = (\<lambda>_. None),
                  rt_callerDeadline = Some 100 \<rparr>"


text \<open>
  \<^verbatim>\<open>WithDefault\<close> and \<^verbatim>\<open>ApplyTimeout\<close> never move a deadline the caller has set: they return the
  caller's context itself. Without one, a non-zero timeout gives the clock plus the timeout.
\<close>

lemma default_timeout_respects_caller:
  "ctx_deadline rt c \<noteq> None \<Longrightarrow> WithDefault rt (Some c) t w = (c, w) \<and> ApplyTimeout rt c t w = (c, w)"
  "ctx_deadline rt c = None \<Longrightarrow> t \<noteq> 0 \<Longrightarrow>
     ctx_deadline rt (fst (WithDefault rt (Some c) t w)) = Some (rt_clock rt w + t)
     \<and> WithDefault rt (Some c) t w = ApplyTimeout rt c t w"
  by (auto simp: WithDefault_def ApplyTimeout_def WithTimeout_def time_Now_def)

end
