(* ===== verification/Retry.thy ===== *)
theory Retry
  imports Atlas_Prelude
begin

text \<open>
  Bounded retries: \<^verbatim>\<open>src/core/retry/retry.go\<close>.

  The loop runs against a world \<open>'w\<close>: the callback, the clock, the context and the sleep
  are functions of it. \<open>go_ctx\<close> holds what the loop asks the runtime. One iteration is
  \<open>retry_attempt\<close>; \<open>doWithOptions\<close> is the loop as written (it need not end when
  \<open>maxAttempts\<close> is negative, so it returns an option) and \<open>retry_loop\<close> is the loop with
  the number of attempts still permitted as its argument, which is the loop of the code when
  \<open>maxAttempts\<close> is not negative.
\<close>

subsection \<open>The policy and the runtime\<close>

record ('e, 'w) retry_options =
  ro_maxAttempts :: int
  ro_maxElapsedTime :: duration
  ro_shouldRetry :: "('e \<Rightarrow> bool) option"
  ro_nextDelay :: "(int \<Rightarrow> 'e \<Rightarrow> 'w \<Rightarrow> duration \<times> 'w) option"
  ro_onRetry :: "(int \<Rightarrow> 'e \<Rightarrow> duration \<Rightarrow> 'w \<Rightarrow> 'w) option"
  ro_sleep :: "(duration \<Rightarrow> 'w \<Rightarrow> 'e option \<times> 'w) option"
  ro_stopBeforeDeadline :: bool

record ('e, 'w) go_ctx =
  gc_err :: "'w \<Rightarrow> 'e option"
  gc_now :: "'w \<Rightarrow> gotime \<times> 'w"
  gc_deadline :: "'w \<Rightarrow> gotime option"
  gc_wait :: "duration \<Rightarrow> 'w \<Rightarrow> 'e option \<times> 'w"

subsection \<open>One iteration of the loop\<close>

text \<open>
  The checks between a failed call and the next one: \<open>Inl\<close> is the result the loop returns,
  \<open>Inr\<close> the world of the next iteration.
\<close>

definition retry_elapsed ::
  "('e, 'w) retry_options \<Rightarrow> ('e, 'w) go_ctx \<Rightarrow> gotime \<Rightarrow> duration \<Rightarrow> 'w \<Rightarrow> bool \<times> 'w" where
  "retry_elapsed cfg rt start delay w =
     (if ro_maxElapsedTime cfg > 0
      then (let (now, w') = gc_now rt w; elapsed = now - start
            in (elapsed \<ge> ro_maxElapsedTime cfg \<or> elapsed + delay > ro_maxElapsedTime cfg, w'))
      else (False, w))"

definition retry_past_deadline ::
  "('e, 'w) retry_options \<Rightarrow> ('e, 'w) go_ctx \<Rightarrow> duration \<Rightarrow> 'w \<Rightarrow> bool \<times> 'w" where
  "retry_past_deadline cfg rt delay w =
     (if ro_stopBeforeDeadline cfg
      then (case gc_deadline rt w of
              None \<Rightarrow> (False, w)
            | Some d \<Rightarrow> (let (now, w') = gc_now rt w in (d - now \<le> delay, w')))
      else (False, w))"

definition retry_pause ::
  "('e, 'w) retry_options \<Rightarrow> ('e, 'w) go_ctx \<Rightarrow> duration \<Rightarrow> 'w \<Rightarrow> 'e option \<times> 'w" where
  "retry_pause cfg rt delay w =
     (case ro_sleep cfg of Some sl \<Rightarrow> sl delay w | None \<Rightarrow> gc_wait rt delay w)"

definition retry_failed ::
  "('e, 'w) retry_options \<Rightarrow> ('e, 'w) go_ctx \<Rightarrow> gotime \<Rightarrow> int \<Rightarrow> 'e \<Rightarrow> 'w
     \<Rightarrow> 'e option \<times> 'w + 'w" where
  "retry_failed cfg rt start attempt err w =
     (if (case ro_shouldRetry cfg of Some p \<Rightarrow> \<not> p err | None \<Rightarrow> False) then Inl (Some err, w)
      else if ro_maxAttempts cfg \<ge> 0 \<and> attempt \<ge> ro_maxAttempts cfg then Inl (Some err, w)
      else case ro_nextDelay cfg of
        None \<Rightarrow> Inl (Some err, w)
      | Some nd \<Rightarrow>
          (let (delay, w1) = nd attempt err w
           in if delay \<le> 0 then Inl (Some err, w1)
              else let (over, w2) = retry_elapsed cfg rt start delay w1
              in if over then Inl (Some err, w2)
              else let (late, w3) = retry_past_deadline cfg rt delay w2
              in if late then Inl (Some err, w3)
              else let w4 = (case ro_onRetry cfg of None \<Rightarrow> w3 | Some f \<Rightarrow> f attempt err delay w3)
              in case retry_pause cfg rt delay w4 of
                   (Some serr, w5) \<Rightarrow> Inl (Some serr, w5)
                 | (None, w5) \<Rightarrow> Inr w5))"

definition retry_attempt ::
  "('e, 'w) retry_options \<Rightarrow> ('e, 'w) go_ctx \<Rightarrow> ('w \<Rightarrow> 'e option \<times> 'w) \<Rightarrow> gotime \<Rightarrow> int \<Rightarrow> 'w
     \<Rightarrow> ('e option \<times> 'w) + ('e \<times> 'w)" where
  "retry_attempt cfg rt fn start attempt w =
     (case gc_err rt w of
        Some e \<Rightarrow> Inl (Some e, w)
      | None \<Rightarrow>
          (case fn w of
             (None, w1) \<Rightarrow> Inl (None, w1)
           | (Some err, w1) \<Rightarrow>
               (case retry_failed cfg rt start attempt err w1 of
                  Inl r \<Rightarrow> Inl r
                | Inr w2 \<Rightarrow> Inr (err, w2))))"

subsection \<open>The loop\<close>

fun retry_loop ::
  "nat \<Rightarrow> ('e, 'w) retry_options \<Rightarrow> ('e, 'w) go_ctx \<Rightarrow> ('w \<Rightarrow> 'e option \<times> 'w) \<Rightarrow> gotime \<Rightarrow> int
     \<Rightarrow> 'e option \<Rightarrow> 'w \<Rightarrow> 'e option \<times> 'w" where
  "retry_loop 0 cfg rt fn start attempt lastErr w = (lastErr, w)"
| "retry_loop (Suc n) cfg rt fn start attempt lastErr w =
     (case retry_attempt cfg rt fn start attempt w of
        Inl r \<Rightarrow> r
      | Inr (err, w') \<Rightarrow> retry_loop n cfg rt fn start (attempt + 1) (Some err) w')"

partial_function (option) retry_for ::
  "('e, 'w) retry_options \<Rightarrow> ('e, 'w) go_ctx \<Rightarrow> ('w \<Rightarrow> 'e option \<times> 'w) \<Rightarrow> gotime \<Rightarrow> int
     \<Rightarrow> 'e option \<Rightarrow> 'w \<Rightarrow> ('e option \<times> 'w) option" where
  "retry_for cfg rt fn start attempt lastErr w =
     (if ro_maxAttempts cfg < 0 \<or> attempt \<le> ro_maxAttempts cfg
      then (case retry_attempt cfg rt fn start attempt w of
              Inl r \<Rightarrow> Some r
            | Inr ew \<Rightarrow> retry_for cfg rt fn start (attempt + 1) (Some (fst ew)) (snd ew))
      else Some (lastErr, w))"

definition doWithOptions ::
  "('e, 'w) retry_options \<Rightarrow> ('e, 'w) go_ctx \<Rightarrow> ('w \<Rightarrow> 'e option \<times> 'w) \<Rightarrow> 'w
     \<Rightarrow> ('e option \<times> 'w) option" where
  "doWithOptions cfg rt fn w =
     (let (start, w0) = gc_now rt w in retry_for cfg rt fn start 0 None w0)"

text \<open>The capped loop, as total code calls it.\<close>

definition retry_capped ::
  "('e, 'w) retry_options \<Rightarrow> ('e, 'w) go_ctx \<Rightarrow> ('w \<Rightarrow> 'e option \<times> 'w) \<Rightarrow> 'w \<Rightarrow> 'e option \<times> 'w" where
  "retry_capped cfg rt fn w =
     (let (start, w0) = gc_now rt w
      in retry_loop (nat (ro_maxAttempts cfg + 1)) cfg rt fn start 0 None w0)"

lemma retry_for_capped:
  assumes "0 \<le> ro_maxAttempts cfg"
  shows "retry_for cfg rt fn start attempt lastErr w
         = Some (retry_loop (nat (ro_maxAttempts cfg + 1 - attempt)) cfg rt fn start attempt lastErr w)"
proof (induction "nat (ro_maxAttempts cfg + 1 - attempt)" arbitrary: attempt lastErr w)
  case 0
  then show ?case using assms by (subst retry_for.simps) simp
next
  case (Suc n)
  then have le: "attempt \<le> ro_maxAttempts cfg" by linarith
  have n: "n = nat (ro_maxAttempts cfg + 1 - (attempt + 1))" using Suc.hyps(2) by linarith
  have "nat (ro_maxAttempts cfg + 1 - attempt) = Suc n" using Suc.hyps(2) by simp
  moreover note Suc.hyps(1) [OF n]
  ultimately show ?case
    using le n by (subst retry_for.simps) (auto split: sum.split prod.split)
qed

subsection \<open>Backoff\<close>

text \<open>
  \<open>scaled a\<close> is the product \<^verbatim>\<open>float64(BaseDelay) * math.Pow(factor, a)\<close> converted to a
  duration, \<open>None\<close> when it is infinite or at least \<^verbatim>\<open>float64(math.MaxInt64)\<close>.
  \<open>jitter\<close> is \<open>None\<close> when the configured jitter is not positive, else the random share
  added to a delay. The addition is the 64-bit addition of \<^verbatim>\<open>time.Duration\<close>.
\<close>

definition wrap64 :: "int \<Rightarrow> int" where
  "wrap64 x = (x + 2 ^ 63) mod 2 ^ 64 - 2 ^ 63"

definition MaxInt64 :: int where
  "MaxInt64 = 2 ^ 63 - 1"

record exponential_config =
  ec_BaseDelay :: duration
  ec_MaxDelay :: duration

definition Exponential ::
  "exponential_config \<Rightarrow> (int \<Rightarrow> int option) \<Rightarrow> (int \<Rightarrow> int) option \<Rightarrow> int \<Rightarrow> duration" where
  "Exponential cfg scaled jitter attempt =
     (if ec_BaseDelay cfg \<le> 0 then 0
      else case scaled (if attempt < 0 then 0 else attempt) of
        None \<Rightarrow> (if ec_MaxDelay cfg > 0 then ec_MaxDelay cfg else MaxInt64)
      | Some d \<Rightarrow>
          (if d \<le> 0 then 0
           else let d1 = (if ec_MaxDelay cfg > 0 \<and> d > ec_MaxDelay cfg then ec_MaxDelay cfg else d)
           in case jitter of
                None \<Rightarrow> d1
              | Some j \<Rightarrow>
                  (let d2 = wrap64 (d1 + j d1)
                   in if ec_MaxDelay cfg > 0 \<and> d2 > ec_MaxDelay cfg then ec_MaxDelay cfg else d2)))"

subsection \<open>What the loop does with its world\<close>

text \<open>
  \<open>retry_neutral cfg rt f\<close>: apart from the callback nothing the loop runs changes
  \<open>f\<close> of the world. The number of calls made so far is such an \<open>f\<close>.
\<close>

definition retry_neutral ::
  "('e, 'w) retry_options \<Rightarrow> ('e, 'w) go_ctx \<Rightarrow> ('w \<Rightarrow> 'a) \<Rightarrow> bool" where
  "retry_neutral cfg rt f \<longleftrightarrow>
     (\<forall>w. f (snd (gc_now rt w)) = f w)
     \<and> (\<forall>d w. f (snd (gc_wait rt d w)) = f w)
     \<and> (\<forall>nd a e w. ro_nextDelay cfg = Some nd \<longrightarrow> f (snd (nd a e w)) = f w)
     \<and> (\<forall>g a e d w. ro_onRetry cfg = Some g \<longrightarrow> f (g a e d w) = f w)
     \<and> (\<forall>sl d w. ro_sleep cfg = Some sl \<longrightarrow> f (snd (sl d w)) = f w)"

lemma retry_elapsed_neutral:
  "retry_neutral cfg rt f \<Longrightarrow> f (snd (retry_elapsed cfg rt start delay w)) = f w"
  by (auto simp: retry_elapsed_def retry_neutral_def Let_def split: prod.split)
     (metis snd_conv)

lemma retry_past_deadline_neutral:
  "retry_neutral cfg rt f \<Longrightarrow> f (snd (retry_past_deadline cfg rt delay w)) = f w"
  by (auto simp: retry_past_deadline_def retry_neutral_def Let_def split: prod.split option.split)
     (metis snd_conv)

lemma retry_pause_neutral:
  "retry_neutral cfg rt f \<Longrightarrow> f (snd (retry_pause cfg rt delay w)) = f w"
  by (auto simp: retry_pause_def retry_neutral_def split: option.split)

definition retry_world :: "('e option \<times> 'w) + 'w \<Rightarrow> 'w" where
  "retry_world x = (case x of Inl r \<Rightarrow> snd r | Inr w \<Rightarrow> w)"

lemma retry_failed_neutral:
  assumes "retry_neutral cfg rt f"
  shows "f (retry_world (retry_failed cfg rt start attempt err w)) = f w"
proof -
  have nd: "ro_nextDelay cfg = Some nd \<Longrightarrow> f (snd (nd a e w)) = f w" for nd a e w
    using assms by (simp add: retry_neutral_def)
  have onr: "ro_onRetry cfg = Some g \<Longrightarrow> f (g a e d w) = f w" for g a e d w
    using assms by (simp add: retry_neutral_def)
  show ?thesis
    unfolding retry_failed_def Let_def case_prod_beta
    by (simp add: retry_world_def retry_elapsed_neutral [OF assms] nd onr
        retry_past_deadline_neutral [OF assms] retry_pause_neutral [OF assms] split: option.split)
qed

lemma retry_failed_Inl:
  assumes "retry_neutral cfg rt f" and "retry_failed cfg rt start attempt err w = Inl r"
  shows "f (snd r) = f w"
  using retry_failed_neutral [OF assms(1), of start attempt err w] assms(2)
  by (simp add: retry_world_def)

lemma retry_failed_Inr:
  assumes "retry_neutral cfg rt f" and "retry_failed cfg rt start attempt err w = Inr w'"
  shows "f w' = f w"
  using retry_failed_neutral [OF assms(1), of start attempt err w] assms(2)
  by (simp add: retry_world_def)

lemma retry_loop_calls:
  fixes f :: "'w \<Rightarrow> nat"
  assumes "retry_neutral cfg rt f" and "\<And>w. f (snd (fn w)) = Suc (f w)"
  shows "f (snd (retry_loop n cfg rt fn start attempt lastErr w)) \<le> f w + n"
proof (induction n arbitrary: attempt lastErr w)
  case (Suc n)
  have fn: "fn w = (e, w') \<Longrightarrow> f w' = Suc (f w)" for e w'
    using assms(2) [of w] by simp
  show ?case
  proof (cases "retry_attempt cfg rt fn start attempt w")
    case (Inl r)
    have "f (snd r) \<le> Suc (f w)"
      using Inl fn by (auto simp: retry_attempt_def assms(2) split: option.splits prod.splits sum.splits
          dest!: retry_failed_Inl [OF assms(1)])
    then show ?thesis using Inl by simp
  next
    case (Inr ew)
    have "f (snd ew) = Suc (f w)"
      using Inr fn by (auto simp: retry_attempt_def split: option.splits prod.splits sum.splits
          dest!: retry_failed_Inr [OF assms(1)])
    then show ?thesis
      using Inr Suc.IH [of "attempt + 1" "Some (fst ew)" "snd ew"] by (simp add: case_prod_beta)
  qed
qed simp

text \<open>Where the error or the success the loop returns comes from.\<close>

text \<open>\<open>retry_keeps cfg rt fn I\<close>: everything the loop runs keeps \<open>I\<close>.\<close>

definition retry_keeps ::
  "('e, 'w) retry_options \<Rightarrow> ('e, 'w) go_ctx \<Rightarrow> ('w \<Rightarrow> 'e option \<times> 'w) \<Rightarrow> ('w \<Rightarrow> bool) \<Rightarrow> bool" where
  "retry_keeps cfg rt fn I \<longleftrightarrow>
     (\<forall>w. I w \<longrightarrow> I (snd (gc_now rt w)) \<and> I (snd (fn w)) \<and> (\<forall>d. I (snd (gc_wait rt d w)))
        \<and> (\<forall>nd a e. ro_nextDelay cfg = Some nd \<longrightarrow> I (snd (nd a e w)))
        \<and> (\<forall>f a e d. ro_onRetry cfg = Some f \<longrightarrow> I (f a e d w))
        \<and> (\<forall>sl d. ro_sleep cfg = Some sl \<longrightarrow> I (snd (sl d w))))"

lemma retry_failed_keeps:
  assumes "retry_keeps cfg rt fn I" and "I w"
  shows "I (retry_world (retry_failed cfg rt start attempt err w))"
proof -
  have elapsed: "I (snd (retry_elapsed cfg rt start delay w))" if "I w" for delay w
    using assms(1) that by (auto simp: retry_keeps_def retry_elapsed_def Let_def split: prod.split)
  have late: "I (snd (retry_past_deadline cfg rt delay w))" if "I w" for delay w
    using assms(1) that
    by (auto simp: retry_keeps_def retry_past_deadline_def Let_def split: prod.split option.split)
  have pause: "I (snd (retry_pause cfg rt delay w))" if "I w" for delay w
    using assms(1) that by (auto simp: retry_keeps_def retry_pause_def split: option.split)
  have delay: "I (snd (nd a e w))" if "I w" "ro_nextDelay cfg = Some nd" for nd a e w
    using assms(1) that by (simp add: retry_keeps_def)
  have hook: "I (case ro_onRetry cfg of None \<Rightarrow> w | Some f \<Rightarrow> f a e d w)" if "I w" for a e d w
    using assms(1) that by (auto simp: retry_keeps_def split: option.split)
  show ?thesis
  proof (cases "ro_nextDelay cfg")
    case None
    then show ?thesis using assms(2) by (simp add: retry_failed_def retry_world_def)
  next
    case (Some nd)
    define dl w1 where "dl = fst (nd attempt err w)" and "w1 = snd (nd attempt err w)"
    define w2 where "w2 = snd (retry_elapsed cfg rt start dl w1)"
    define w3 where "w3 = snd (retry_past_deadline cfg rt dl w2)"
    define w4 where "w4 = (case ro_onRetry cfg of None \<Rightarrow> w3 | Some f \<Rightarrow> f attempt err dl w3)"
    have I: "I w1" "I w2" "I w3" "I (snd (retry_pause cfg rt dl w4))"
      using assms(2) Some by (auto simp: w1_def w2_def w3_def w4_def intro!: elapsed late pause hook delay)
    show ?thesis
      unfolding retry_failed_def Let_def case_prod_beta Some option.case
        dl_def [symmetric] w1_def [symmetric] w2_def [symmetric] w3_def [symmetric] w4_def [symmetric]
      using I assms(2) by (simp add: retry_world_def split: option.split)
  qed
qed

lemma retry_loop_keeps:
  assumes "retry_keeps cfg rt fn I" and "I w"
  shows "I (snd (retry_loop n cfg rt fn start attempt lastErr w))"
  using assms(2)
proof (induction n arbitrary: attempt lastErr w)
  case (Suc n)
  obtain r w1 where fn: "fn w = (r, w1)" by fastforce
  have w1: "I w1" using assms(1) Suc.prems fn unfolding retry_keeps_def by (metis snd_conv)
  show ?case
  proof (cases r)
    case None
    then show ?thesis using fn w1 Suc.prems by (simp add: retry_attempt_def split: option.split)
  next
    case (Some e)
    have "I (retry_world (retry_failed cfg rt start attempt e w1))" by (rule retry_failed_keeps [OF assms(1) w1])
    then show ?thesis
      using Some fn Suc
      by (auto simp: retry_attempt_def retry_world_def split: option.split sum.splits)
  qed
qed simp

lemma retry_capped_keeps:
  assumes "retry_keeps cfg rt fn I" and "I w"
  shows "I (snd (retry_capped cfg rt fn w))"
proof -
  have "I (snd (gc_now rt w))" using assms unfolding retry_keeps_def by blast
  then show ?thesis
    unfolding retry_capped_def Let_def case_prod_beta by (rule retry_loop_keeps [OF assms(1)])
qed

lemma retry_failed_not_ok: "retry_failed cfg rt start attempt err w \<noteq> Inl (None, w')"
  by (auto simp: retry_failed_def Let_def split: prod.splits option.splits if_splits)

lemma retry_loop_success:
  assumes "retry_loop n cfg rt fn start attempt lastErr w = (None, w')" and "0 < n \<or> lastErr \<noteq> None"
  shows "\<exists>w1. fn w1 = (None, w')"
  using assms
proof (induction n arbitrary: attempt lastErr w)
  case (Suc n)
  show ?case
  proof (cases "retry_attempt cfg rt fn start attempt w")
    case (Inl r)
    then show ?thesis
      using Suc.prems(1) retry_failed_not_ok
      by (fastforce simp: retry_attempt_def split: option.splits prod.splits sum.splits)
  next
    case (Inr ew)
    then show ?thesis using Suc.prems(1) Suc.IH [of "attempt + 1" "Some (fst ew)" "snd ew"]
      by (simp add: case_prod_beta)
  qed
qed simp

lemma retry_capped_success:
  assumes "retry_capped cfg rt fn w = (None, w')" and "0 \<le> ro_maxAttempts cfg"
  shows "\<exists>w1. fn w1 = (None, w')"
  using assms retry_loop_success [of "nat (ro_maxAttempts cfg + 1)" cfg rt fn]
  by (auto simp: retry_capped_def Let_def split: prod.splits)

definition retry_origin ::
  "('e, 'w) retry_options \<Rightarrow> ('e, 'w) go_ctx \<Rightarrow> ('w \<Rightarrow> 'e option \<times> 'w) \<Rightarrow> 'e option \<times> 'w \<Rightarrow> bool" where
  "retry_origin cfg rt fn rw \<longleftrightarrow>
     (case rw of
        (None, w') \<Rightarrow> (\<exists>w. fn w = (None, w'))
      | (Some e, w') \<Rightarrow>
          (\<exists>w. gc_err rt w = Some e) \<or> (\<exists>w w1. fn w = (Some e, w1))
          \<or> (\<exists>d w w1. retry_pause cfg rt d w = (Some e, w1)))"

lemma retry_failed_origin:
  assumes "retry_failed cfg rt start attempt err w = Inl (r, w')"
  shows "r = Some err \<or> (\<exists>e d w w1. r = Some e \<and> retry_pause cfg rt d w = (Some e, w1))"
  using assms unfolding retry_failed_def Let_def
  by (auto split: option.splits if_splits prod.splits)

lemma retry_attempt_origin:
  assumes "retry_attempt cfg rt fn start attempt w = Inl r"
  shows "retry_origin cfg rt fn r"
proof (cases "gc_err rt w")
  case (Some e)
  then show ?thesis using assms by (auto simp: retry_attempt_def retry_origin_def)
next
  case None
  obtain e w1 where fn: "fn w = (e, w1)" by fastforce
  show ?thesis
  proof (cases e)
    case None
    then show ?thesis using assms fn \<open>gc_err rt w = None\<close>
      by (auto simp: retry_attempt_def retry_origin_def)
  next
    case (Some err)
    then have "retry_failed cfg rt start attempt err w1 = Inl r"
      using assms fn \<open>gc_err rt w = None\<close> by (auto simp: retry_attempt_def split: sum.splits)
    then show ?thesis
      using retry_failed_origin [of cfg rt start attempt err w1 "fst r" "snd r"] fn Some
      by (cases r) (fastforce simp: retry_origin_def)
  qed
qed

lemma retry_attempt_Inr_error:
  "retry_attempt cfg rt fn start attempt w = Inr ew \<Longrightarrow> \<exists>w w1. fn w = (Some (fst ew), w1)"
  by (fastforce simp: retry_attempt_def split: option.splits prod.splits sum.splits)

definition retry_last_ok ::
  "('e, 'w) retry_options \<Rightarrow> ('w \<Rightarrow> 'e option \<times> 'w) \<Rightarrow> int \<Rightarrow> 'e option \<Rightarrow> bool" where
  "retry_last_ok cfg fn attempt lastErr \<longleftrightarrow>
     (case lastErr of
        None \<Rightarrow> ro_maxAttempts cfg < 0 \<or> attempt \<le> ro_maxAttempts cfg
      | Some e \<Rightarrow> \<exists>w w1. fn w = (Some e, w1))"

lemma retry_for_origin:
  assumes "retry_for cfg rt fn start attempt lastErr w = Some r"
  shows "retry_last_ok cfg fn attempt lastErr \<longrightarrow> retry_origin cfg rt fn r"
proof (rule retry_for.raw_induct [where P = "\<lambda>cfg rt fn start attempt lastErr w r.
    retry_last_ok cfg fn attempt lastErr \<longrightarrow> retry_origin cfg rt fn r", OF _ assms])
  fix f cfg rt fn start attempt lastErr w r
  assume IH: "\<And>cfg rt fn start attempt lastErr w r. f cfg rt fn start attempt lastErr w = Some r
      \<Longrightarrow> retry_last_ok cfg fn attempt lastErr \<longrightarrow> retry_origin cfg rt fn r"
    and eq: "(if ro_maxAttempts cfg < 0 \<or> attempt \<le> ro_maxAttempts cfg
      then (case retry_attempt cfg rt fn start attempt w of
              Inl r \<Rightarrow> Some r
            | Inr ew \<Rightarrow> f cfg rt fn start (attempt + 1) (Some (fst ew)) (snd ew))
      else Some (lastErr, w)) = Some r"
  show "retry_last_ok cfg fn attempt lastErr \<longrightarrow> retry_origin cfg rt fn r"
  proof (cases "ro_maxAttempts cfg < 0 \<or> attempt \<le> ro_maxAttempts cfg")
    case True
    then show ?thesis
    proof (cases "retry_attempt cfg rt fn start attempt w")
      case (Inl a)
      then show ?thesis using True eq retry_attempt_origin by fastforce
    next
      case (Inr ew)
      then show ?thesis
        using True eq IH [of cfg rt fn start "attempt + 1" "Some (fst ew)" "snd ew" r]
          retry_attempt_Inr_error [OF Inr]
        by (simp add: retry_last_ok_def)
    qed
  next
    case False
    then show ?thesis
      using eq by (cases lastErr) (fastforce simp: retry_last_ok_def retry_origin_def)+
  qed
qed

subsection \<open>Properties\<close>

text \<open>A world for the witnesses: the number of calls made and the number of failures left.\<close>

definition demo_rt :: "(nat, nat \<times> nat) go_ctx" where
  "demo_rt = \<lparr> gc_err = (\<lambda>_. None), gc_now = (\<lambda>w. (0, w)), gc_deadline = (\<lambda>_. None),
               gc_wait = (\<lambda>_ w. (None, w)) \<rparr>"

definition demo_opts :: "int \<Rightarrow> (nat, nat \<times> nat) retry_options" where
  "demo_opts n = \<lparr> ro_maxAttempts = n, ro_maxElapsedTime = 0, ro_shouldRetry = Some (\<lambda>e. e \<noteq> 7),
                   ro_nextDelay = Some (\<lambda>_ _ w. (1, w)), ro_onRetry = None, ro_sleep = None,
                   ro_stopBeforeDeadline = False \<rparr>"

definition demo_fn :: "nat \<times> nat \<Rightarrow> nat option \<times> (nat \<times> nat)" where
  "demo_fn w = (case w of (c, left) \<Rightarrow>
     if left = 0 then (None, (Suc c, 0)) else (Some left, (Suc c, left - 1)))"

lemma demo_neutral: "retry_neutral (demo_opts n) demo_rt fst"
  by (simp add: retry_neutral_def demo_rt_def demo_opts_def)

text \<open>
  C25: with a cap on the attempts the loop returns, and it has called the callback at most
  \<open>maxAttempts + 1\<close> times, whatever the callback, the clock, the context and the delays do.
\<close>

theorem retry_terminates_within_cap:
  fixes calls :: "'w \<Rightarrow> nat"
  assumes "0 \<le> ro_maxAttempts cfg"
    and "retry_neutral cfg rt calls" and "\<And>w. calls (snd (fn w)) = Suc (calls w)"
  shows "\<exists>r w'. doWithOptions cfg rt fn w = Some (r, w')
           \<and> calls w' \<le> calls w + nat (ro_maxAttempts cfg) + 1"
proof -
  obtain start w0 where now: "gc_now rt w = (start, w0)" by fastforce
  define res where "res = retry_loop (nat (ro_maxAttempts cfg + 1)) cfg rt fn start 0 None w0"
  have run: "doWithOptions cfg rt fn w = Some res"
    using retry_for_capped [OF assms(1), of rt fn start 0 None w0] now
    by (simp add: doWithOptions_def res_def)
  have "calls w0 = calls w"
    using assms(2) now unfolding retry_neutral_def by (metis snd_conv)
  then have "calls (snd res) \<le> calls w + nat (ro_maxAttempts cfg + 1)"
    using retry_loop_calls [OF assms(2,3), of "nat (ro_maxAttempts cfg + 1)" start 0 None w0]
    unfolding res_def by simp
  moreover have "nat (ro_maxAttempts cfg + 1) = nat (ro_maxAttempts cfg) + 1"
    using assms(1) by simp
  ultimately show ?thesis using run by (metis add.assoc prod.collapse)
qed

theorem retry_terminates_within_cap_witness:
  "\<exists>r w'. doWithOptions (demo_opts 2) demo_rt demo_fn (0, 5) = Some (r, w') \<and> fst w' \<le> 3"
proof -
  have cap: "ro_maxAttempts (demo_opts 2) = 2" by (simp add: demo_opts_def)
  have "fst (snd (demo_fn w)) = Suc (fst w)" for w by (cases w) (simp add: demo_fn_def)
  then show ?thesis
    using retry_terminates_within_cap [of "demo_opts 2" demo_rt fst demo_fn "(0, 5)"] demo_neutral
    by (simp add: cap numeral_3_eq_3)
qed

text \<open>
  C26: the loop invents no outcome. It returns success only as the result of a call that
  succeeded, leaving the world that call left, and an error only if the context, a call or
  the pause between calls produced that error.
\<close>

theorem retry_result_has_an_origin:
  assumes "doWithOptions cfg rt fn w = Some (r, w')"
  shows "case r of
           None \<Rightarrow> \<exists>w1. fn w1 = (None, w')
         | Some e \<Rightarrow> (\<exists>w1. gc_err rt w1 = Some e) \<or> (\<exists>w1 w2. fn w1 = (Some e, w2))
             \<or> (\<exists>d w1 w2. retry_pause cfg rt d w1 = (Some e, w2))"
proof -
  obtain start w0 where "retry_for cfg rt fn start 0 None w0 = Some (r, w')"
    using assms by (auto simp: doWithOptions_def split: prod.splits)
  from retry_for_origin [OF this] have "retry_origin cfg rt fn (r, w')"
    by (auto simp: retry_last_ok_def)
  then show ?thesis by (auto simp: retry_origin_def split: option.splits)
qed

lemma demo_run: "doWithOptions (demo_opts 2) demo_rt demo_fn (0, 1) = Some (None, (2, 0))"
  by (simp add: doWithOptions_def demo_rt_def demo_opts_def demo_fn_def retry_for.simps
      retry_attempt_def retry_failed_def retry_elapsed_def retry_past_deadline_def retry_pause_def)

theorem retry_result_has_an_origin_witness: "\<exists>w1. demo_fn w1 = (None, (2, 0))"
  using retry_result_has_an_origin [OF demo_run] by simp



lemma wrap64_id: "0 \<le> x \<Longrightarrow> x < 2 ^ 63 \<Longrightarrow> wrap64 x = x"
  by (simp add: wrap64_def)

lemma clamp_attempt: "(if a < 0 then 0 else a) = max 0 (a :: int)"
  by simp



text \<open>
  Without a cap the sum of the delay and its random share is not checked again: it can wrap
  around to a negative delay, which the retry loop takes as the end of the retries.
\<close>

lemma Exponential_uncapped_can_wrap:
  "\<exists>d j. 0 < d \<and> d < 2 ^ 63 \<and> 0 \<le> j d \<and> j d \<le> d
     \<and> Exponential \<lparr>ec_BaseDelay = 10 ^ 9, ec_MaxDelay = 0\<rparr> (\<lambda>_. Some d) (Some j) 33 < 0"
  by (rule exI [of _ "10 ^ 9 * 2 ^ 33"], rule exI [of _ "\<lambda>d. d div 5"])
     (simp add: Exponential_def wrap64_def)

end
