(* ===== verification/Concurrency.thy ===== *)
theory Concurrency
  imports Atlas_Prelude
begin

text \<open>
  Bounded parallel batches: \<^verbatim>\<open>src/core/runtime/concurrency/batch.go\<close>.

  Items are addressed by their index below \<open>n\<close>. The callback \<open>fn c i w\<close> works on item
  \<open>i\<close> in the world \<open>w\<close>; \<open>c\<close> says whether the batch has cancelled its own context.
  A worker of the pool is a small program of three steps (check the context, claim an index,
  handle it); \<open>pool_step k\<close> performs the next step of worker \<open>k\<close>, and a schedule is the
  list of the workers in the order in which they step. The body of one callback is one step.
\<close>

subsection \<open>Options\<close>

record ('e, 'w) batch_options =
  bo_concurrency :: int
  bo_limitFunc :: "(unit \<Rightarrow> int) option"
  bo_stopOnError :: bool
  bo_onSuccess :: "(nat \<Rightarrow> 'w \<Rightarrow> 'w) option"
  bo_onError :: "(nat \<Rightarrow> 'e \<Rightarrow> 'w \<Rightarrow> 'w) option"

text \<open>\<open>dflt\<close> is the value of \<^verbatim>\<open>DefaultLimitFunc()\<close>, twice the number of processors.\<close>

definition getConcurrency :: "int \<Rightarrow> ('e, 'w) batch_options \<Rightarrow> int" where
  "getConcurrency dflt cfg =
     (let fixed = (if bo_concurrency cfg > 0 then bo_concurrency cfg else dflt)
      in case bo_limitFunc cfg of
           Some f \<Rightarrow> (if f () > 0 then f () else fixed)
         | None \<Rightarrow> fixed)"

definition batch_after :: "('e, 'w) batch_options \<Rightarrow> nat \<Rightarrow> 'e option \<Rightarrow> 'w \<Rightarrow> 'w" where
  "batch_after cfg i r w =
     (case r of
        Some err \<Rightarrow> (case bo_onError cfg of Some f \<Rightarrow> f i err w | None \<Rightarrow> w)
      | None \<Rightarrow> (case bo_onSuccess cfg of Some f \<Rightarrow> f i w | None \<Rightarrow> w))"

subsection \<open>Sequential processing\<close>

fun processSequential ::
  "('e, 'w) batch_options \<Rightarrow> ('w \<Rightarrow> 'e option) \<Rightarrow> (nat \<Rightarrow> 'w \<Rightarrow> 'e option \<times> 'w)
     \<Rightarrow> nat list \<Rightarrow> 'e option \<Rightarrow> 'w \<Rightarrow> 'e option \<times> 'w" where
  "processSequential cfg ctxErr fn [] firstErr w = (firstErr, w)"
| "processSequential cfg ctxErr fn (i # is) firstErr w =
     (case ctxErr w of
        Some e \<Rightarrow> ((case firstErr of Some f \<Rightarrow> Some f | None \<Rightarrow> Some e), w)
      | None \<Rightarrow>
          (case fn i w of
             (Some err, w1) \<Rightarrow>
               (let w2 = batch_after cfg i (Some err) w1
                in if bo_stopOnError cfg then (Some err, w2)
                   else processSequential cfg ctxErr fn is
                          (case firstErr of None \<Rightarrow> Some err | Some f \<Rightarrow> Some f) w2)
           | (None, w1) \<Rightarrow>
               processSequential cfg ctxErr fn is firstErr (batch_after cfg i None w1)))"

subsection \<open>The worker pool\<close>

datatype worker = WCheck | WClaim | WBusy nat | WDone

text \<open>
  \<open>pl_log\<close> records the result of every finished callback in the order in which they
  finished; the code does not keep it.
\<close>

record ('e, 'w) pool =
  pl_next :: nat
  pl_workers :: "worker list"
  pl_firstErr :: "'e option"
  pl_cancelled :: bool
  pl_world :: 'w
  pl_log :: "(nat \<times> 'e option) list"

definition pool_init :: "nat \<Rightarrow> 'w \<Rightarrow> ('e, 'w) pool" where
  "pool_init workers w =
     \<lparr> pl_next = 0, pl_workers = replicate workers WCheck, pl_firstErr = None,
       pl_cancelled = False, pl_world = w, pl_log = [] \<rparr>"

definition pool_handle ::
  "('e, 'w) batch_options \<Rightarrow> (bool \<Rightarrow> nat \<Rightarrow> 'w \<Rightarrow> 'e option \<times> 'w) \<Rightarrow> nat
     \<Rightarrow> ('e, 'w) pool \<Rightarrow> ('e, 'w) pool" where
  "pool_handle cfg fn idx st =
     (let (r, w1) = fn (pl_cancelled st) idx (pl_world st);
          first = (r \<noteq> None \<and> pl_firstErr st = None)
      in st\<lparr> pl_firstErr := (if first then r else pl_firstErr st),
             pl_cancelled := (pl_cancelled st \<or> (first \<and> bo_stopOnError cfg)),
             pl_world := batch_after cfg idx r w1,
             pl_log := pl_log st @ [(idx, r)] \<rparr>)"

definition pool_step ::
  "('e, 'w) batch_options \<Rightarrow> ('w \<Rightarrow> 'e option) \<Rightarrow> (bool \<Rightarrow> nat \<Rightarrow> 'w \<Rightarrow> 'e option \<times> 'w) \<Rightarrow> nat
     \<Rightarrow> nat \<Rightarrow> ('e, 'w) pool \<Rightarrow> ('e, 'w) pool" where
  "pool_step cfg ctxErr fn n k st =
     (if k < length (pl_workers st)
      then (case pl_workers st ! k of
              WCheck \<Rightarrow>
                st\<lparr>pl_workers := (pl_workers st)
                     [k := (if pl_cancelled st \<or> ctxErr (pl_world st) \<noteq> None then WDone else WClaim)]\<rparr>
            | WClaim \<Rightarrow>
                st\<lparr>pl_next := Suc (pl_next st),
                   pl_workers := (pl_workers st)
                     [k := (if pl_next st \<ge> n then WDone else WBusy (pl_next st))]\<rparr>
            | WBusy idx \<Rightarrow>
                (pool_handle cfg fn idx st)\<lparr>pl_workers := (pl_workers st)[k := WCheck]\<rparr>
            | WDone \<Rightarrow> st)
      else st)"

text \<open>
  \<open>wg.Wait()\<close> returns when every worker is done. Once the schedule is used up the workers
  finish one after the other; each step makes \<open>pool_rank\<close> smaller, so that many steps are
  enough.
\<close>

primrec worker_rank :: "worker \<Rightarrow> nat" where
  "worker_rank WCheck = 2"
| "worker_rank WClaim = 1"
| "worker_rank (WBusy i) = 3"
| "worker_rank WDone = 0"

definition pool_rank :: "nat \<Rightarrow> ('e, 'w) pool \<Rightarrow> nat" where
  "pool_rank n st = sum_list (map worker_rank (pl_workers st)) + 3 * (n - pl_next st)"

definition pool_done :: "('e, 'w) pool \<Rightarrow> bool" where
  "pool_done st \<longleftrightarrow> list_all (\<lambda>x. x = WDone) (pl_workers st)"

definition pool_pick :: "('e, 'w) pool \<Rightarrow> nat" where
  "pool_pick st = length (takeWhile (\<lambda>x. x = WDone) (pl_workers st))"

fun pool_drain ::
  "nat \<Rightarrow> ('e, 'w) batch_options \<Rightarrow> ('w \<Rightarrow> 'e option) \<Rightarrow> (bool \<Rightarrow> nat \<Rightarrow> 'w \<Rightarrow> 'e option \<times> 'w) \<Rightarrow> nat
     \<Rightarrow> ('e, 'w) pool \<Rightarrow> ('e, 'w) pool" where
  "pool_drain 0 cfg ctxErr fn n st = st"
| "pool_drain (Suc fuel) cfg ctxErr fn n st =
     (if pool_done st then st
      else pool_drain fuel cfg ctxErr fn n (pool_step cfg ctxErr fn n (pool_pick st) st))"

definition pool_run ::
  "('e, 'w) batch_options \<Rightarrow> ('w \<Rightarrow> 'e option) \<Rightarrow> (bool \<Rightarrow> nat \<Rightarrow> 'w \<Rightarrow> 'e option \<times> 'w) \<Rightarrow> nat
     \<Rightarrow> nat \<Rightarrow> nat list \<Rightarrow> 'w \<Rightarrow> ('e, 'w) pool" where
  "pool_run cfg ctxErr fn n workers sched w =
     (let st = fold (pool_step cfg ctxErr fn n) sched (pool_init workers w)
      in pool_drain (pool_rank n st) cfg ctxErr fn n st)"

definition pool_result :: "('w \<Rightarrow> 'e option) \<Rightarrow> nat \<Rightarrow> ('e, 'w) pool \<Rightarrow> 'e option" where
  "pool_result ctxErr n st =
     (if pl_firstErr st = None \<and> pl_next st < n then ctxErr (pl_world st) else pl_firstErr st)"

definition processWithOptions ::
  "int \<Rightarrow> ('e, 'w) batch_options \<Rightarrow> ('w \<Rightarrow> 'e option) \<Rightarrow> (bool \<Rightarrow> nat \<Rightarrow> 'w \<Rightarrow> 'e option \<times> 'w) \<Rightarrow> nat
     \<Rightarrow> nat list \<Rightarrow> 'w \<Rightarrow> 'e option \<times> 'w" where
  "processWithOptions dflt cfg ctxErr fn n sched w =
     (let concurrency = getConcurrency dflt cfg
      in if concurrency = 1 \<or> n = 1
         then processSequential cfg ctxErr (fn False) [0..<n] None w
         else let st = pool_run cfg ctxErr fn n (nat (min concurrency (int n))) sched w
              in (pool_result ctxErr n st, pl_world st))"

definition Process ::
  "int \<Rightarrow> ('e, 'w) batch_options \<Rightarrow> ('w \<Rightarrow> 'e option) \<Rightarrow> (bool \<Rightarrow> nat \<Rightarrow> 'w \<Rightarrow> 'e option \<times> 'w) \<Rightarrow> nat
     \<Rightarrow> nat list \<Rightarrow> 'w \<Rightarrow> 'e option \<times> 'w" where
  "Process dflt cfg ctxErr fn n sched w =
     (if n = 0 then (None, w) else processWithOptions dflt cfg ctxErr fn n sched w)"

subsection \<open>Collecting results\<close>

text \<open>
  The closure of \<^verbatim>\<open>ProcessCollect\<close> writes the two arrays \<open>results\<close> and \<open>completed\<close>
  at the index of its item. The world of the batch is the caller's world with both arrays.
  \<open>wrap\<close> is \<^verbatim>\<open>coreerrs.Wrap(err, "batch processing failed")\<close> and \<open>zero\<close> the zero value of
  the result type.
\<close>

type_synonym ('r, 'w) collect_world = "'w \<times> 'r list \<times> bool list"

definition collect_item ::
  "(bool \<Rightarrow> nat \<Rightarrow> 'w \<Rightarrow> ('e + 'r) \<times> 'w) \<Rightarrow> bool \<Rightarrow> nat \<Rightarrow> ('r, 'w) collect_world
     \<Rightarrow> 'e option \<times> ('r, 'w) collect_world" where
  "collect_item fn c i cw =
     (case cw of (w, results, completed) \<Rightarrow>
        (case fn c i w of
           (Inl e, w1) \<Rightarrow> (Some e, (w1, results, completed))
         | (Inr r, w1) \<Rightarrow> (None, (w1, results[i := r], completed[i := True]))))"

definition lift_after ::
  "('e, 'w) batch_options \<Rightarrow> ('e, ('r, 'w) collect_world) batch_options" where
  "lift_after cfg =
     \<lparr> bo_concurrency = bo_concurrency cfg, bo_limitFunc = bo_limitFunc cfg,
       bo_stopOnError = bo_stopOnError cfg,
       bo_onSuccess = map_option (\<lambda>f i (w, rc). (f i w, rc)) (bo_onSuccess cfg),
       bo_onError = map_option (\<lambda>f i e (w, rc). (f i e w, rc)) (bo_onError cfg) \<rparr>"

definition ProcessCollect ::
  "('e \<Rightarrow> 'e) \<Rightarrow> int \<Rightarrow> ('e, 'w) batch_options \<Rightarrow> ('w \<Rightarrow> 'e option)
     \<Rightarrow> (bool \<Rightarrow> nat \<Rightarrow> 'w \<Rightarrow> ('e + 'r) \<times> 'w) \<Rightarrow> 'r
     \<Rightarrow> nat \<Rightarrow> nat list \<Rightarrow> 'w \<Rightarrow> 'r list \<times> 'e option \<times> 'w" where
  "ProcessCollect wrap dflt cfg ctxErr fn zero n sched w =
     (if n = 0 then ([], None, w)
      else let (err, (w1, results, completed)) =
                 processWithOptions dflt (lift_after cfg) (ctxErr \<circ> fst) (collect_item fn) n sched
                   (w, replicate n zero, replicate n False)
      in case err of
           None \<Rightarrow> (results, None, w1)
         | Some e \<Rightarrow>
             (let reported = Some (if bo_stopOnError cfg then wrap e else e)
              in if length (filter id completed) = n then (results, reported, w1)
                 else (map fst (filter snd (zip results completed)), reported, w1)))"

subsection \<open>Reachable states of the pool\<close>

inductive pool_reach ::
  "('e, 'w) batch_options \<Rightarrow> ('w \<Rightarrow> 'e option) \<Rightarrow> (bool \<Rightarrow> nat \<Rightarrow> 'w \<Rightarrow> 'e option \<times> 'w) \<Rightarrow> nat
     \<Rightarrow> nat \<Rightarrow> 'w \<Rightarrow> ('e, 'w) pool \<Rightarrow> bool"
  for cfg ctxErr fn n workers w where
  start: "pool_reach cfg ctxErr fn n workers w (pool_init workers w)"
| step: "pool_reach cfg ctxErr fn n workers w st
         \<Longrightarrow> pool_reach cfg ctxErr fn n workers w (pool_step cfg ctxErr fn n k st)"

lemma pool_reach_fold:
  "pool_reach cfg ctxErr fn n workers w st
   \<Longrightarrow> pool_reach cfg ctxErr fn n workers w (fold (pool_step cfg ctxErr fn n) sched st)"
  by (induction sched arbitrary: st) (auto intro: pool_reach.step)

lemma pool_reach_drain:
  "pool_reach cfg ctxErr fn n workers w st
   \<Longrightarrow> pool_reach cfg ctxErr fn n workers w (pool_drain fuel cfg ctxErr fn n st)"
  by (induction fuel arbitrary: st) (auto intro: pool_reach.step)

lemma pool_reach_run: "pool_reach cfg ctxErr fn n workers w (pool_run cfg ctxErr fn n workers sched w)"
  by (simp add: pool_run_def Let_def pool_reach_drain pool_reach_fold pool_reach.start)

subsection \<open>Every worker finishes\<close>

lemma pool_handle_simps [simp]:
  "pl_next (pool_handle cfg fn idx st) = pl_next st"
  "pl_workers (pool_handle cfg fn idx st) = pl_workers st"
  by (simp_all add: pool_handle_def Let_def split: prod.split)

lemma pool_step_workers [simp]:
  "length (pl_workers (pool_step cfg ctxErr fn n k st)) = length (pl_workers st)"
  by (simp add: pool_step_def split: worker.split)

lemma pool_step_rank:
  assumes "k < length (pl_workers st)" and "pl_workers st ! k \<noteq> WDone"
  shows "pool_rank n (pool_step cfg ctxErr fn n k st) < pool_rank n st"
proof -
  note upd = sum_list_map_update [OF assms(1), where f = worker_rank]
  note ge = sum_list_map_ge [OF assms(1), of worker_rank]
  show ?thesis
  proof (cases "pl_workers st ! k")
    case WCheck
    then show ?thesis
      using upd [of WDone] upd [of WClaim] ge assms(1)
      by (simp add: pool_step_def pool_rank_def)
  next
    case WClaim
    then show ?thesis
      using upd [of WDone] upd [of "WBusy (pl_next st)"] ge assms(1)
      by (cases "n \<le> pl_next st") (auto simp: pool_step_def pool_rank_def)
  next
    case (WBusy i)
    then show ?thesis
      using upd [of WCheck] ge assms(1) by (simp add: pool_step_def pool_rank_def)
  qed (use assms in simp)
qed

lemma pool_pick_busy:
  assumes "\<not> pool_done st"
  shows "pool_pick st < length (pl_workers st) \<and> pl_workers st ! pool_pick st \<noteq> WDone"
proof -
  have ex: "\<exists>x \<in> set (pl_workers st). x \<noteq> WDone" using assms by (simp add: pool_done_def list_all_iff)
  then have lt: "pool_pick st < length (pl_workers st)"
    unfolding pool_pick_def by (metis (mono_tags, lifting) length_takeWhile_le nat_less_le takeWhile_eq_all_conv takeWhile_eq_take take_all_iff)
  then show ?thesis using nth_length_takeWhile [of "\<lambda>x. x = WDone" "pl_workers st"]
    by (simp add: pool_pick_def)
qed

lemma pool_drain_done: "pool_rank n st \<le> fuel \<Longrightarrow> pool_done (pool_drain fuel cfg ctxErr fn n st)"
proof (induction fuel arbitrary: st)
  case 0
  then have "sum_list (map worker_rank (pl_workers st)) = 0" by (simp add: pool_rank_def)
  then have "\<forall>x \<in> set (pl_workers st). worker_rank x = 0" by (simp add: sum_list_eq_0_iff)
  then have "\<forall>x \<in> set (pl_workers st). x = WDone" using worker_rank.simps
    by (metis worker.exhaust zero_neq_numeral zero_neq_one)
  then show ?case by (simp add: pool_done_def list_all_iff)
next
  case (Suc fuel)
  show ?case
  proof (cases "pool_done st")
    case False
    then have "pool_rank n (pool_step cfg ctxErr fn n (pool_pick st) st) < pool_rank n st"
      using pool_pick_busy pool_step_rank by blast
    then show ?thesis using False Suc by simp
  qed simp
qed

lemma pool_run_done: "pool_done (pool_run cfg ctxErr fn n workers sched w)"
  by (simp add: pool_run_def Let_def pool_drain_done)

lemma pool_run_workers:
  "length (pl_workers (pool_run cfg ctxErr fn n workers sched w)) = workers"
proof -
  have "length (pl_workers st) = workers" if "pool_reach cfg ctxErr fn n workers w st" for st
    using that by (induction) (simp_all add: pool_init_def)
  from this [OF pool_reach_run] show ?thesis .
qed

subsection \<open>What a finished batch has done\<close>

primrec worker_items :: "worker \<Rightarrow> nat multiset" where
  "worker_items WCheck = {#}"
| "worker_items WClaim = {#}"
| "worker_items (WBusy i) = {#i#}"
| "worker_items WDone = {#}"

definition pool_busy :: "('e, 'w) pool \<Rightarrow> nat multiset" where
  "pool_busy st = sum_list (map worker_items (pl_workers st))"

definition log_errors :: "(nat \<times> 'e option) list \<Rightarrow> 'e list" where
  "log_errors log = List.map_filter snd log"

text \<open>
  The context of the caller stays cancelled once it is: what the callbacks do to the world
  never clears its error.
\<close>

definition ctx_sticky ::
  "nat \<Rightarrow> ('e, 'w) batch_options \<Rightarrow> ('w \<Rightarrow> 'e option) \<Rightarrow> (bool \<Rightarrow> nat \<Rightarrow> 'w \<Rightarrow> 'e option \<times> 'w) \<Rightarrow> bool" where
  "ctx_sticky n cfg ctxErr fn \<longleftrightarrow>
     (\<forall>c i r w w1. i < n \<longrightarrow> ctxErr w \<noteq> None \<longrightarrow> fn c i w = (r, w1) \<longrightarrow> ctxErr (batch_after cfg i r w1) \<noteq> None)"

definition pool_inv :: "('e, 'w) batch_options \<Rightarrow> ('w \<Rightarrow> 'e option) \<Rightarrow> nat \<Rightarrow> ('e, 'w) pool \<Rightarrow> bool" where
  "pool_inv cfg ctxErr n st \<longleftrightarrow>
     pool_busy st + mset (map fst (pl_log st)) = mset [0..<min (pl_next st) n]
     \<and> pl_firstErr st = (case log_errors (pl_log st) of [] \<Rightarrow> None | e # _ \<Rightarrow> Some e)
     \<and> (pl_cancelled st \<longleftrightarrow> bo_stopOnError cfg \<and> pl_firstErr st \<noteq> None)
     \<and> (WDone \<in> set (pl_workers st) \<longrightarrow>
          n \<le> pl_next st \<or> pl_cancelled st \<or> ctxErr (pl_world st) \<noteq> None)"

lemma log_errors_append [simp]:
  "log_errors (log @ [(i, r)]) = log_errors log @ (case r of None \<Rightarrow> [] | Some e \<Rightarrow> [e])"
  by (simp add: log_errors_def List.map_filter_def split: option.split)

lemma sum_list_replicate_zero: "sum_list (replicate k (0 :: 'a::monoid_add)) = 0"
  by (induction k) simp_all

lemma pool_inv_init: "pool_inv cfg ctxErr n (pool_init workers w)"
  using sum_list_replicate_zero [of workers, where 'a = "nat multiset"]
  by (auto simp: pool_inv_def pool_init_def pool_busy_def log_errors_def List.map_filter_def)

lemma in_set_update: "x \<in> set (xs[k := y]) \<Longrightarrow> x = y \<or> x \<in> set xs"
  using set_update_subset_insert [of xs k y] by blast

lemma pool_inv_check:
  assumes "pool_inv cfg ctxErr n st" and "k < length (pl_workers st)" and "pl_workers st ! k = WCheck"
  shows "pool_inv cfg ctxErr n (pool_step cfg ctxErr fn n k st)"
  using assms sum_list_map_update [OF assms(2), where f = worker_items and x = WDone]
    sum_list_map_update [OF assms(2), where f = worker_items and x = WClaim]
  by (auto simp: pool_inv_def pool_step_def pool_busy_def dest!: in_set_update)

lemma mset_set_upto_Suc: "mset_set {0..<Suc m} = add_mset m (mset_set {0..<m})"
  by (simp add: atLeast0_lessThan_Suc)

lemma pool_inv_claim:
  assumes "pool_inv cfg ctxErr n st" and "k < length (pl_workers st)" and "pl_workers st ! k = WClaim"
  shows "pool_inv cfg ctxErr n (pool_step cfg ctxErr fn n k st)"
  using assms sum_list_map_update [OF assms(2), where f = worker_items and x = WDone]
    sum_list_map_update [OF assms(2), where f = worker_items and x = "WBusy (pl_next st)"]
  by (auto simp: pool_inv_def pool_step_def pool_busy_def min_def mset_set_upto_Suc
      dest!: in_set_update)

lemma pool_inv_busy:
  assumes "pool_inv cfg ctxErr n st" and "k < length (pl_workers st)" and "pl_workers st ! k = WBusy i"
    and "ctx_sticky n cfg ctxErr fn"
  shows "pool_inv cfg ctxErr n (pool_step cfg ctxErr fn n k st)"
proof -
  obtain r w1 where fn: "fn (pl_cancelled st) i (pl_world st) = (r, w1)" by fastforce
  have "i \<in># pool_busy st + mset (map fst (pl_log st))"
    using nth_mem [OF assms(2)] assms(3) by (force simp: pool_busy_def)
  then have "i \<in># mset [0..<min (pl_next st) n]" using assms(1) unfolding pool_inv_def by metis
  then have "i < n" by simp
  then have sticky: "ctxErr (pl_world st) \<noteq> None \<Longrightarrow> ctxErr (batch_after cfg i r w1) \<noteq> None"
    using assms(4) fn by (auto simp: ctx_sticky_def)
  have items: "sum_list (map worker_items (pl_workers st))
      = add_mset i (sum_list (map worker_items ((pl_workers st)[k := WCheck])))"
    using sum_list_map_update [OF assms(2), where f = worker_items and x = WCheck] assms(3) by simp
  show ?thesis
    using assms(1-3) fn sticky items
    by (auto simp: pool_inv_def pool_step_def pool_handle_def pool_busy_def Let_def
        split: list.splits option.splits dest!: in_set_update)
qed

lemma pool_inv_reach:
  assumes "ctx_sticky n cfg ctxErr fn"
  shows "pool_reach cfg ctxErr fn n workers w st \<Longrightarrow> pool_inv cfg ctxErr n st"
proof (induction rule: pool_reach.induct)
  case start
  show ?case by (rule pool_inv_init)
next
  case (step st k)
  show ?case
  proof (cases "k < length (pl_workers st)")
    case True
    show ?thesis
    proof (cases "pl_workers st ! k")
      case WCheck
      then show ?thesis using pool_inv_check [OF step.IH True] by blast
    next
      case WClaim
      then show ?thesis using pool_inv_claim [OF step.IH True] by blast
    next
      case (WBusy i)
      then show ?thesis using pool_inv_busy [OF step.IH True _ assms] by blast
    next
      case WDone
      then show ?thesis using step.IH by (simp add: pool_step_def)
    qed
  next
    case False
    then show ?thesis using step.IH by (simp add: pool_step_def)
  qed
qed

lemma pool_run_inv:
  assumes "ctx_sticky n cfg ctxErr fn"
  shows "pool_inv cfg ctxErr n (pool_run cfg ctxErr fn n workers sched w)"
  by (rule pool_inv_reach [OF assms pool_reach_run])

lemma pool_done_busy: "pool_done st \<Longrightarrow> pool_busy st = {#}"
proof -
  have "sum_list (map worker_items ws) = {#}" if "list_all (\<lambda>x. x = WDone) ws" for ws
    using that by (induction ws) simp_all
  then show "pool_done st \<Longrightarrow> pool_busy st = {#}" by (simp add: pool_done_def pool_busy_def)
qed

lemma pool_done_member:
  "pool_done st \<Longrightarrow> 0 < length (pl_workers st) \<Longrightarrow> WDone \<in> set (pl_workers st)"
  by (cases "pl_workers st") (auto simp: pool_done_def)

lemma log_errors_empty: "log_errors log = [] \<longleftrightarrow> (\<forall>x \<in> set log. snd x = None)"
  by (induction log) (auto simp: log_errors_def List.map_filter_def split: option.splits)

lemma pool_log_finished:
  assumes "ctx_sticky n cfg ctxErr fn"
    and st: "st = pool_run cfg ctxErr fn n workers sched w"
  shows "mset (map fst (pl_log st)) = mset [0..<min (pl_next st) n]"
  using pool_run_inv [OF assms(1)] pool_done_busy [OF pool_run_done]
  unfolding st pool_inv_def by (metis add_0)

lemma pool_success:
  assumes "ctx_sticky n cfg ctxErr fn" and "0 < workers"
    and st: "st = pool_run cfg ctxErr fn n workers sched w"
  shows "pool_result ctxErr n st = None
    \<longleftrightarrow> mset (map fst (pl_log st)) = mset [0..<n] \<and> (\<forall>x \<in> set (pl_log st). snd x = None)"
proof -
  have inv: "pool_inv cfg ctxErr n st" unfolding st by (rule pool_run_inv [OF assms(1)])
  have wd: "WDone \<in> set (pl_workers st)"
    using pool_done_member [OF pool_run_done] assms(2) by (simp add: st pool_run_workers)
  have log: "mset (map fst (pl_log st)) = mset [0..<min (pl_next st) n]"
    unfolding st by (rule pool_log_finished [OF assms(1) refl])
  have firstNone: "pl_firstErr st = None \<longleftrightarrow> (\<forall>x \<in> set (pl_log st). snd x = None)"
    using inv by (auto simp: pool_inv_def log_errors_empty [symmetric] split: list.splits)
  have upto: "mset [0..<min (pl_next st) n] = mset [0..<n] \<longleftrightarrow> n \<le> pl_next st"
    by (metis min.absorb2 min.cobounded1 size_mset length_upt diff_zero)
  show ?thesis
    using inv wd log firstNone upto by (auto simp: pool_result_def pool_inv_def)
qed

lemma processSequential_success:
  assumes est: "\<And>i w w1. i \<in> set is \<Longrightarrow> fn i w = (None, w1) \<Longrightarrow> D i (batch_after cfg i None w1)"
    and pres: "\<And>i j r w w1. j \<in> set is \<Longrightarrow> D i w \<Longrightarrow> fn j w = (r, w1) \<Longrightarrow> D i (batch_after cfg j r w1)"
    and "processSequential cfg ctxErr fn is firstErr w = (None, w')"
  shows "firstErr = None \<and> (\<forall>i \<in> set is. D i w') \<and> (\<forall>i. D i w \<longrightarrow> D i w')"
  using assms
proof (induction "is" arbitrary: firstErr w)
  case (Cons i "is")
  obtain r w1 where fn: "fn i w = (r, w1)" by fastforce
  have ctx: "ctxErr w = None" using Cons.prems(3) by (auto split: option.splits)
  show ?case
  proof (cases r)
    case None
    let ?w2 = "batch_after cfg i None w1"
    have run: "processSequential cfg ctxErr fn is firstErr ?w2 = (None, w')"
      using Cons.prems(3) ctx fn None by simp
    have "D i ?w2" using Cons.prems(1) fn None by simp
    moreover have "\<forall>j. D j w \<longrightarrow> D j ?w2" using Cons.prems(2) [of i] fn None by simp
    ultimately show ?thesis using Cons.IH [OF _ _ run] Cons.prems(1,2) by auto
  next
    case (Some e)
    let ?first = "case firstErr of None \<Rightarrow> Some e | Some f \<Rightarrow> Some f"
    have "\<not> bo_stopOnError cfg" using Cons.prems(3) ctx fn Some by (auto simp: Let_def)
    then have "processSequential cfg ctxErr fn is ?first (batch_after cfg i (Some e) w1) = (None, w')"
      using Cons.prems(3) ctx fn Some by (simp add: Let_def)
    then have "?first = None" using Cons.IH Cons.prems(1,2) by auto
    then show ?thesis by (simp split: option.splits)
  qed
qed simp

lemma pool_reach_results:
  assumes est: "\<And>c i w w1. i < n \<Longrightarrow> fn c i w = (None, w1) \<Longrightarrow> D i (batch_after cfg i None w1)"
    and pres: "\<And>c i j r w w1. j < n \<Longrightarrow> D i w \<Longrightarrow> fn c j w = (r, w1) \<Longrightarrow> D i (batch_after cfg j r w1)"
    and "pool_reach cfg ctxErr fn n workers w st"
  shows "(\<forall>k i. k < length (pl_workers st) \<longrightarrow> pl_workers st ! k = WBusy i \<longrightarrow> i < n)
         \<and> (\<forall>i. (i, None) \<in> set (pl_log st) \<longrightarrow> D i (pl_world st))"
  using assms(3)
proof (induction rule: pool_reach.induct)
  case start
  show ?case by (simp add: pool_init_def)
next
  case (step st k)
  show ?case
  proof (cases "k < length (pl_workers st) \<and> (\<exists>i. pl_workers st ! k = WBusy i)")
    case True
    then obtain i where i: "pl_workers st ! k = WBusy i" "i < n" using step.IH by blast
    obtain r w1 where fn: "fn (pl_cancelled st) i (pl_world st) = (r, w1)" by fastforce
    have "\<forall>j. (j, None) \<in> set (pl_log st) \<longrightarrow> D j (batch_after cfg i r w1)"
      using step.IH pres [OF i(2)] fn by blast
    moreover have "r = None \<Longrightarrow> D i (batch_after cfg i r w1)" using est [OF i(2)] fn by simp
    ultimately show ?thesis
      using True i fn step.IH by (auto simp: pool_step_def pool_handle_def nth_list_update Let_def)
  next
    case False
    then show ?thesis
      using step.IH by (auto simp: pool_step_def nth_list_update split: worker.splits if_splits)
  qed
qed

lemma getConcurrency_pos: "0 < dflt \<Longrightarrow> 0 < getConcurrency dflt cfg"
  by (auto simp: getConcurrency_def Let_def split: option.split)

lemma processWithOptions_success:
  assumes est: "\<And>c i w w1. i < n \<Longrightarrow> fn c i w = (None, w1) \<Longrightarrow> D i (batch_after cfg i None w1)"
    and pres: "\<And>c i j r w w1. j < n \<Longrightarrow> D i w \<Longrightarrow> fn c j w = (r, w1) \<Longrightarrow> D i (batch_after cfg j r w1)"
    and "ctx_sticky n cfg ctxErr fn" and "0 < dflt" and "0 < n"
    and run: "processWithOptions dflt cfg ctxErr fn n sched w = (None, w')"
  shows "\<forall>i < n. D i w'"
proof (cases "getConcurrency dflt cfg = 1 \<or> n = 1")
  case True
  then have "processSequential cfg ctxErr (fn False) [0..<n] None w = (None, w')"
    using run by (simp add: processWithOptions_def Let_def)
  from processSequential_success [of "[0..<n]" "fn False" D cfg, OF _ _ this] est pres
  show ?thesis by fastforce
next
  case False
  define workers where "workers = nat (min (getConcurrency dflt cfg) (int n))"
  define st where "st = pool_run cfg ctxErr fn n workers sched w"
  have w: "0 < workers" using getConcurrency_pos [OF assms(4)] assms(5) by (simp add: workers_def)
  have res: "pool_result ctxErr n st = None" "pl_world st = w'"
    using run False by (simp_all add: processWithOptions_def Let_def st_def workers_def)
  have ok: "mset (map fst (pl_log st)) = mset [0..<n]" "\<forall>x \<in> set (pl_log st). snd x = None"
    using pool_success [OF assms(3) w, of st sched] res(1) st_def by blast+
  have reach: "pool_reach cfg ctxErr fn n workers w st" unfolding st_def by (rule pool_reach_run)
  have D: "\<forall>i. (i, None) \<in> set (pl_log st) \<longrightarrow> D i w'"
    using pool_reach_results [OF _ _ reach, where D = D] est pres res(2) by blast
  show ?thesis
  proof (intro allI impI)
    fix i assume "i < n"
    then have "i \<in> fst ` set (pl_log st)" using ok(1) by (metis atLeastLessThan_iff le0 list.set_map set_mset_mset set_upt)
    then show "D i w'" using ok(2) D by force
  qed
qed

subsection \<open>Facts about the world that every callback keeps\<close>

lemma processSequential_keeps:
  assumes keeps: "\<And>i w r w1. I w \<Longrightarrow> i \<in> set is \<Longrightarrow> fn i w = (r, w1) \<Longrightarrow> I (batch_after cfg i r w1)"
    and "I w"
  shows "I (snd (processSequential cfg ctxErr fn is firstErr w))"
  using assms
proof (induction "is" arbitrary: firstErr w)
  case (Cons i "is")
  obtain r w1 where fn: "fn i w = (r, w1)" by fastforce
  have I: "I (batch_after cfg i r w1)" using Cons.prems fn by simp
  have "\<And>first. I (snd (processSequential cfg ctxErr fn is first (batch_after cfg i r w1)))"
    using Cons.IH [OF _ I] Cons.prems(1) by simp
  then show ?case using I fn Cons.prems(2) by (cases r) (simp_all add: Let_def split: option.split)
qed simp

lemma pool_reach_keeps:
  assumes keeps: "\<And>c i w r w1. I w \<Longrightarrow> i < n \<Longrightarrow> fn c i w = (r, w1) \<Longrightarrow> I (batch_after cfg i r w1)"
    and "I w" and "pool_reach cfg ctxErr fn n workers w st"
  shows "(\<forall>i. WBusy i \<in> set (pl_workers st) \<longrightarrow> i < n) \<and> I (pl_world st)"
  using assms(3)
proof (induction rule: pool_reach.induct)
  case start
  show ?case using assms(2) by (simp add: pool_init_def)
next
  case (step st k)
  show ?case
  proof (cases "k < length (pl_workers st)")
    case True
    obtain r w1 i where fn: "fn (pl_cancelled st) i (pl_world st) = (r, w1)"
      and i: "pl_workers st ! k = WBusy i \<or> (\<forall>j. pl_workers st ! k \<noteq> WBusy j)"
      by (metis surj_pair)
    have "pl_workers st ! k = WBusy i \<Longrightarrow> I (batch_after cfg i r w1)"
      using step.IH keeps [OF _ _ fn] True by (metis nth_mem)
    then show ?thesis
      using step.IH fn i True
      by (auto simp: pool_step_def pool_handle_def Let_def dest!: in_set_update
          split: worker.splits if_splits)
  qed (use step.IH in \<open>simp add: pool_step_def\<close>)
qed

lemma processWithOptions_keeps:
  assumes keeps: "\<And>c i w r w1. I w \<Longrightarrow> i < n \<Longrightarrow> fn c i w = (r, w1) \<Longrightarrow> I (batch_after cfg i r w1)"
    and "I w"
  shows "I (snd (processWithOptions dflt cfg ctxErr fn n sched w))"
proof -
  have "I (snd (processSequential cfg ctxErr (fn False) [0..<n] None w))"
    by (rule processSequential_keeps [where I = I]) (auto intro: keeps assms(2))
  moreover have "I (pl_world (pool_run cfg ctxErr fn n workers sched w))" for workers
    by (rule pool_reach_keeps [where I = I and fn = fn and n = n and cfg = cfg, THEN conjunct2])
      (rule keeps, assumption+, rule assms(2), rule pool_reach_run)
  ultimately show ?thesis by (simp add: processWithOptions_def Let_def)
qed

subsection \<open>The arrays of a collecting batch\<close>

definition collect_inv :: "nat \<Rightarrow> (nat \<Rightarrow> 'r) \<Rightarrow> ('r, 'w) collect_world \<Rightarrow> bool" where
  "collect_inv n g cw \<longleftrightarrow>
     (case cw of (w, results, completed) \<Rightarrow>
        length results = n \<and> length completed = n
        \<and> (\<forall>i < n. completed ! i \<longrightarrow> results ! i = g i))"

lemma lift_after_world [simp]:
  "batch_after (lift_after cfg) i r (w, rc) = (batch_after cfg i r w, rc)"
  by (simp add: batch_after_def lift_after_def split: option.split)

lemma nth_update_cases: "j < length xs \<Longrightarrow> xs[i := v] ! j = (if j = i then v else xs ! j)"
  by (metis nth_list_update_eq nth_list_update_neq)

lemma collect_inv_keeps:
  assumes "\<And>c i w r w1. fn c i w = (Inr r, w1) \<Longrightarrow> r = g i"
    and "collect_inv n g cw" and "collect_item fn c i cw = (r, cw1)"
  shows "collect_inv n g (batch_after (lift_after cfg) i r cw1)"
proof -
  obtain w results completed where cw: "cw = (w, results, completed)" by (metis surj_pair)
  obtain q w1 where fn: "fn c i w = (q, w1)" by fastforce
  have "q = Inr v \<Longrightarrow> v = g i" for v using assms(1) fn by blast
  then show ?thesis
    using assms(2,3) cw fn
    by (cases q) (auto simp: collect_inv_def collect_item_def nth_update_cases split: if_splits)
qed

lemma zip_completed:
  assumes "length results = n" and "length completed = n"
    and "\<forall>i < n. completed ! i \<longrightarrow> results ! i = g i"
  shows "map fst (filter snd (zip results completed)) = map g (filter (\<lambda>i. completed ! i) [0..<n])"
proof -
  have z: "zip results completed = map (\<lambda>i. (results ! i, completed ! i)) [0..<n]"
    using assms(1,2) by (intro nth_equalityI) simp_all
  show ?thesis using assms(3) by (simp add: z filter_map comp_def)
qed

lemma all_completed:
  assumes "length (filter id completed) = n" and "length completed = n" and "i < n"
  shows "completed ! i"
proof (rule ccontr)
  assume "\<not> completed ! i"
  then have "length (filter id completed) < length completed"
    using assms(2,3) nth_mem [of i completed] by (intro length_filter_less [of "completed ! i"]) simp_all
  then show False using assms(1,2) by simp
qed

lemma collect_done_keeps:
  assumes "collect_item fn c j cw = (r, cw1)" and "i < length (snd (snd cw))" and "snd (snd cw) ! i"
  shows "i < length (snd (snd (batch_after (lift_after cfg) j r cw1)))
         \<and> snd (snd (batch_after (lift_after cfg) j r cw1)) ! i"
  using assms by (cases "i = j") (auto simp: collect_item_def split: prod.splits sum.splits)

subsection \<open>Correctness of a batch\<close>

text \<open>
  C29: for every schedule of the workers the pool finishes, and it reports success exactly when
  every item was handled once and no callback failed. A batch that stopped early because the
  context was cancelled never reports success.
\<close>

theorem pool_reports_success_iff_all_handled:
  assumes "ctx_sticky n cfg ctxErr fn" and "0 < workers"
  shows "pool_done (pool_run cfg ctxErr fn n workers sched w)
    \<and> (pool_result ctxErr n (pool_run cfg ctxErr fn n workers sched w) = None
       \<longleftrightarrow> mset (map fst (pl_log (pool_run cfg ctxErr fn n workers sched w))) = mset [0..<n]
           \<and> (\<forall>x \<in> set (pl_log (pool_run cfg ctxErr fn n workers sched w)). snd x = None))"
  by (intro conjI pool_run_done pool_success [OF assms refl])

definition demo_options :: "bool \<Rightarrow> (nat, nat) batch_options" where
  "demo_options stop =
     \<lparr> bo_concurrency = 2, bo_limitFunc = None, bo_stopOnError = stop,
       bo_onSuccess = None, bo_onError = None \<rparr>"

definition demo_item :: "bool \<Rightarrow> nat \<Rightarrow> nat \<Rightarrow> nat option \<times> nat" where
  "demo_item c i w = (if i = 1 then Some 7 else None, Suc w)"

theorem pool_reports_success_iff_all_handled_witness:
  "pool_result (\<lambda>_. None) 2
     (pool_run (demo_options True) (\<lambda>_. None) demo_item 2 2 [1, 0, 1, 0, 1] 0) \<noteq> None"
proof -
  have "ctx_sticky 2 (demo_options True) (\<lambda>_. None) demo_item" by (simp add: ctx_sticky_def)
  moreover have "(1, Some 7) \<in> set (pl_log (pool_run (demo_options True) (\<lambda>_. None) demo_item 2 2 [1, 0, 1, 0, 1] 0))"
    by code_simp
  ultimately show ?thesis
    using pool_reports_success_iff_all_handled
      [of 2 "demo_options True" "\<lambda>_. None" demo_item 2 "[1, 0, 1, 0, 1]" 0] by fastforce
qed

text \<open>
  C30: under every schedule the items handled are exactly the first \<open>m\<close> of the input, each
  once; and if \<open>m\<close> falls short of the whole input, either the context was cancelled or
  \<^verbatim>\<open>stopOnError\<close> is set and a callback failed.
\<close>

theorem pool_handles_a_prefix_once:
  assumes "ctx_sticky n cfg ctxErr fn" and "0 < workers"
  shows "\<exists>m \<le> n. mset (map fst (pl_log (pool_run cfg ctxErr fn n workers sched w))) = mset [0..<m]
    \<and> (m = n \<or> ctxErr (pl_world (pool_run cfg ctxErr fn n workers sched w)) \<noteq> None
       \<or> bo_stopOnError cfg \<and> pl_firstErr (pool_run cfg ctxErr fn n workers sched w) \<noteq> None)"
proof -
  define st where "st = pool_run cfg ctxErr fn n workers sched w"
  have wd: "WDone \<in> set (pl_workers st)"
    using pool_done_member [OF pool_run_done] assms(2) by (simp add: st_def pool_run_workers)
  have "n \<le> pl_next st \<or> pl_cancelled st \<or> ctxErr (pl_world st) \<noteq> None"
    "pl_cancelled st \<longleftrightarrow> bo_stopOnError cfg \<and> pl_firstErr st \<noteq> None"
    using pool_run_inv [OF assms(1), of workers sched w] wd unfolding pool_inv_def st_def by blast+
  moreover have "mset (map fst (pl_log st)) = mset [0..<min (pl_next st) n]"
    by (rule pool_log_finished [OF assms(1) st_def])
  ultimately show ?thesis unfolding st_def [symmetric]
    by (intro exI [of _ "min (pl_next st) n"]) auto
qed

theorem pool_handles_a_prefix_once_witness:
  "mset (map fst (pl_log (pool_run (demo_options False) (\<lambda>_. None) demo_item 3 2 [1, 0, 1, 0, 1] 0)))
     = mset [0..<3]"
proof -
  have "ctx_sticky 3 (demo_options False) (\<lambda>_. None) demo_item" by (simp add: ctx_sticky_def)
  from pool_handles_a_prefix_once [OF this, of 2 "[1, 0, 1, 0, 1]" 0]
  show ?thesis by (auto simp: demo_options_def)
qed

lemma collect_run:
  assumes pure: "\<And>c i w r w1. fn c i w = (Inr r, w1) \<Longrightarrow> r = g i" and "0 < n"
    and run: "processWithOptions dflt (lift_after cfg) ctx (collect_item fn) n sched
                (w, replicate n zero, replicate n False) = (err, (w1, results, completed))"
  shows "collect_inv n g (w1, results, completed)"
proof -
  have "collect_inv n g (snd (processWithOptions dflt (lift_after cfg) ctx (collect_item fn) n sched
                (w, replicate n zero, replicate n False)))"
    by (rule processWithOptions_keeps [where I = "collect_inv n g"])
      (rule collect_inv_keeps [where fn = fn and g = g], erule pure, assumption+,
       simp add: collect_inv_def)
  then show ?thesis by (simp add: run)
qed

lemma collect_run_success:
  assumes "ctx_sticky n (lift_after cfg) ctx (collect_item fn)" and "0 < dflt" and "0 < n"
    and run: "processWithOptions dflt (lift_after cfg) ctx (collect_item fn) n sched
                (w, replicate n zero, replicate n False) = (None, cw1)"
  shows "\<forall>i < n. i < length (snd (snd cw1)) \<longrightarrow> snd (snd cw1) ! i"
proof -
  let ?D = "\<lambda>i cw. i < length (snd (snd cw)) \<longrightarrow> snd (snd cw) ! i"
  have est: "?D i (batch_after (lift_after cfg) i None cw1)"
    if "collect_item fn c i cw = (None, cw1)" for c i cw cw1
    using that by (auto simp: collect_item_def split: prod.splits sum.splits)
  have len: "length (snd (snd (batch_after (lift_after cfg) j r cw1))) = length (snd (snd cw))"
    if "collect_item fn c j cw = (r, cw1)" for c j r cw cw1
    using that by (auto simp: collect_item_def split: prod.splits sum.splits)
  have pres: "?D i (batch_after (lift_after cfg) j r cw1)"
    if "?D i cw" "collect_item fn c j cw = (r, cw1)" for c i j r cw cw1
    using that len [OF that(2)] collect_done_keeps [OF that(2), of i cfg] by simp
  show ?thesis
    by (rule processWithOptions_success [where D = ?D, OF _ _ assms]) (rule est, assumption, rule pres, assumption+)
qed

definition result_err :: "('e + 'r) \<times> 'w \<Rightarrow> 'e option \<times> 'w" where
  "result_err p = (case fst p of Inl e \<Rightarrow> Some e | Inr _ \<Rightarrow> None, snd p)"

lemma collect_sticky:
  assumes "ctx_sticky n cfg ctxErr (\<lambda>c i w. result_err (fn c i w))"
  shows "ctx_sticky n (lift_after cfg) (ctxErr \<circ> fst) (collect_item fn)"
  unfolding ctx_sticky_def
proof (intro allI impI)
  fix c i r and w w1 :: "('c, 'b) collect_world"
  assume i: "i < n" and err: "(ctxErr \<circ> fst) w \<noteq> None" and run: "collect_item fn c i w = (r, w1)"
  obtain w0 rc where w: "w = (w0, rc)" by (cases w)
  have "fst w1 = snd (fn c i w0)" "r = fst (result_err (fn c i w0))"
    using run w by (auto simp: collect_item_def result_err_def split: prod.splits sum.splits)
  moreover have "result_err (fn c i w0) = (fst (result_err (fn c i w0)), snd (fn c i w0))"
    by (simp add: result_err_def)
  ultimately have "ctxErr (batch_after cfg i r (fst w1)) \<noteq> None"
    using assms [unfolded ctx_sticky_def, rule_format, OF i, of w0 c "fst (result_err (fn c i w0))" "fst w1"]
      err w by simp
  then show "(ctxErr \<circ> fst) (batch_after (lift_after cfg) i r w1) \<noteq> None" by (cases w1) simp
qed

lemma ProcessCollect_results:
  assumes pure: "\<And>c i w r w1. fn c i w = (Inr r, w1) \<Longrightarrow> r = g i"
    and "ProcessCollect wrap dflt cfg ctxErr fn zero n sched w = (rs, err, w1)"
    and "err \<noteq> None"
  shows "\<exists>P. rs = map g (filter P [0..<n])"
proof -
  have False: "\<not> (n = 0 \<or> err = None)" using assms(2,3) by (cases "n = 0") (auto simp: ProcessCollect_def)
  obtain e w2 results completed where
    run: "processWithOptions dflt (lift_after cfg) (ctxErr \<circ> fst) (collect_item fn) n sched
            (w, replicate n zero, replicate n False) = (e, (w2, results, completed))"
    by (metis surj_pair)
  have inv: "length results = n" "length completed = n" "\<forall>i < n. completed ! i \<longrightarrow> results ! i = g i"
    using collect_run [OF pure _ run] False by (simp_all add: collect_inv_def)
  have full: "results = map g [0..<n]" if "length (filter id completed) = n"
    using all_completed [OF that inv(2)] inv by (intro nth_equalityI) simp_all
  have "rs = map g (filter (\<lambda>i. completed ! i) [0..<n]) \<or> rs = map g (filter (\<lambda>i. True) [0..<n])"
    using assms(2) run False full zip_completed [OF inv]
    by (auto simp: ProcessCollect_def Let_def split: option.splits if_splits)
  then show ?thesis by blast
qed

lemma ProcessCollect_ok:
  assumes "\<And>c i w r w1. fn c i w = (Inr r, w1) \<Longrightarrow> r = g i"
    and "ctx_sticky n cfg ctxErr (\<lambda>c i w. result_err (fn c i w))" and "0 < dflt"
    and "ProcessCollect wrap dflt cfg ctxErr fn zero n sched w = (rs, None, w1)"
  shows "rs = map g [0..<n]"
proof (cases "n = 0")
  case False
  obtain e w2 results completed where
    run: "processWithOptions dflt (lift_after cfg) (ctxErr \<circ> fst) (collect_item fn) n sched
            (w, replicate n zero, replicate n False) = (e, (w2, results, completed))"
    by (metis surj_pair)
  have e: "e = None" "rs = results"
    using assms(4) run False by (auto simp: ProcessCollect_def Let_def split: option.splits if_splits)
  have inv: "length results = n" "length completed = n" "\<forall>i < n. completed ! i \<longrightarrow> results ! i = g i"
    using collect_run [OF assms(1) _ run] False by (simp_all add: collect_inv_def)
  have "\<forall>i < n. completed ! i"
    using collect_run_success [OF collect_sticky [OF assms(2)] assms(3) _ run [unfolded e(1)]] False inv
    by simp
  then show ?thesis using inv e by (intro nth_equalityI) simp_all
qed (use assms(4) in \<open>simp add: ProcessCollect_def\<close>)

lemma pool_reach_no_error:
  assumes "\<And>c i w. fst (fn c i w) = None" and "pool_reach cfg ctxErr fn n workers w st"
  shows "pl_firstErr st = None"
  using assms(2)
proof (induction rule: pool_reach.induct)
  case (step st k)
  then show ?case
    using assms(1) by (auto simp: pool_step_def pool_handle_def Let_def case_prod_beta split: worker.split)
qed (simp add: pool_init_def)

lemma processSequential_no_error:
  assumes "\<And>i w. fst (fn i w) = None" and "\<And>w. ctxErr w = None"
  shows "fst (processSequential cfg ctxErr fn is None w) = None"
proof (induction "is" arbitrary: w)
  case (Cons i "is")
  obtain w1 where "fn i w = (None, w1)" using assms(1) [of i w] by (cases "fn i w") simp
  then show ?case using Cons.IH assms(2) by simp
qed simp

lemma processWithOptions_no_error:
  assumes "\<And>c i w. fst (fn c i w) = None" and "\<And>w. ctxErr w = None"
  shows "fst (processWithOptions dflt cfg ctxErr fn n sched w) = None"
  using processSequential_no_error [of "fn False" ctxErr cfg "[0..<n]" w] assms
    pool_reach_no_error [OF assms(1) pool_reach_run]
  by (simp add: processWithOptions_def Let_def pool_result_def)

text \<open>A batch whose function never fails, under a context that is never done, returns every result.\<close>

lemma ProcessCollect_total:
  assumes "\<And>c i w. \<exists>w1. fn c i w = (Inr (g i), w1)" and "\<And>w. ctxErr w = None" and "0 < dflt"
  shows "\<exists>w1. ProcessCollect wrap dflt cfg ctxErr fn zero n sched w = (map g [0..<n], None, w1)"
proof -
  obtain rs err w1 where run: "ProcessCollect wrap dflt cfg ctxErr fn zero n sched w = (rs, err, w1)"
    by (metis surj_pair)
  have pure: "r = g i" if "fn c i w = (Inr r, w1)" for c i w r w1
    using assms(1) [of c i w] that by auto
  have none: "fst (collect_item fn c i cw) = None" for c i cw
    using assms(1) [of c i "fst cw"] by (auto simp: collect_item_def split: prod.splits sum.splits)
  obtain e w2 results completed where
    batch: "processWithOptions dflt (lift_after cfg) (ctxErr \<circ> fst) (collect_item fn) n sched
            (w, replicate n zero, replicate n False) = (e, (w2, results, completed))"
    by (metis surj_pair)
  have "e = None"
    using processWithOptions_no_error [of "collect_item fn" "ctxErr \<circ> fst", OF none] assms(2)
    by (metis batch comp_apply fst_conv)
  then have "err = None"
    using run batch by (simp add: ProcessCollect_def split: if_splits)
  moreover have "rs = map g [0..<n]"
    by (rule ProcessCollect_ok [where fn = fn and g = g, OF pure _ assms(3) run [unfolded \<open>err = None\<close>]])
      (simp_all add: ctx_sticky_def assms(2))
  ultimately show ?thesis using run by blast
qed

text \<open>
  C31: \<^verbatim>\<open>ProcessCollect\<close> keeps the input order whatever the schedule: without an error it returns
  the result of every item at the item's own position; with an error it returns the results of
  some of the items, still in input order.
\<close>

theorem ProcessCollect_keeps_input_order:
  assumes "\<And>c i w r w1. fn c i w = (Inr r, w1) \<Longrightarrow> r = g i"
    and "ctx_sticky n cfg ctxErr (\<lambda>c i w. result_err (fn c i w))" and "0 < dflt"
    and "ProcessCollect wrap dflt cfg ctxErr fn zero n sched w = (rs, err, w1)"
  shows "(err = None \<longrightarrow> rs = map g [0..<n]) \<and> (\<exists>P. rs = map g (filter P [0..<n]))"
proof -
  have ok: "rs = map g [0..<n]" if "err = None"
    using ProcessCollect_ok [of fn g, OF assms(1,2,3)] assms(4) that by simp
  have "\<exists>P. rs = map g (filter P [0..<n])"
  proof (cases err)
    case None
    then show ?thesis using ok by (intro exI [of _ "\<lambda>_. True"]) simp
  next
    case (Some e)
    then show ?thesis by (intro ProcessCollect_results [OF assms(1,4)]) simp_all
  qed
  then show ?thesis using ok by blast
qed

definition demo_square :: "bool \<Rightarrow> nat \<Rightarrow> nat \<Rightarrow> (nat + nat) \<times> nat" where
  "demo_square c i w = (Inr (i * i), Suc w)"

theorem ProcessCollect_keeps_input_order_witness:
  "fst (ProcessCollect id 8 (demo_options True) (\<lambda>_. None) demo_square 0 3 [1, 0, 1, 1, 0] 0) = [0, 1, 4]"
proof -
  have ctx: "ctx_sticky 3 (demo_options True) (\<lambda>_. None) (\<lambda>c i w. result_err (demo_square c i w))"
    by (simp add: ctx_sticky_def)
  obtain rs err w1 where
    run: "ProcessCollect id 8 (demo_options True) (\<lambda>_. None) demo_square 0 3 [1, 0, 1, 1, 0] 0 = (rs, err, w1)"
    by (metis surj_pair)
  have "fst (snd (ProcessCollect id 8 (demo_options True) (\<lambda>_. None) demo_square 0 3 [1, 0, 1, 1, 0] 0)) = None"
    by code_simp
  then have "rs = map (\<lambda>i. i * i) [0..<3]"
    using ProcessCollect_keeps_input_order [OF _ ctx _ run, of "\<lambda>i. i * i"] run
    by (simp add: demo_square_def)
  then show ?thesis using run by (simp add: upt_rec)
qed

end
