(* ===== verification/Slices.thy ===== *)
theory Slices
  imports GoErrors Concurrency
begin

text \<open>
  The slice helpers of \<^verbatim>\<open>src/core/collections/slices/slices.go\<close> and \<^verbatim>\<open>iter.go\<close>.

  A slice is a list, and the nil slice is the empty list. A callback is a function without
  effects. Boxing into \<^verbatim>\<open>any\<close> and the type assertion back are the parameters \<open>box\<close> and
  \<open>unbox\<close>. An \<^verbatim>\<open>iter.Seq\<close> is the list of the elements it yields to a consumer that does not
  stop; a consumer that stops sees a prefix. Goroutines are explicit: \<open>MapParallel\<close> takes the
  order in which the goroutines make their writes, \<open>FilterParallel\<close> the schedule of the worker
  pool of \<open>Concurrency\<close>.
\<close>

subsection \<open>Deduplication and deletion\<close>

text \<open>
  The loop of \<^verbatim>\<open>DeduplicateBy\<close>: \<open>i\<close> is the index of the head of the rest, \<open>found\<close> and
  \<open>result\<close> the copy-on-write state, \<open>last\<close> the key of the last element the slow path looked at.
\<close>

fun dedup_loop ::
  "('a \<Rightarrow> 'k) \<Rightarrow> 'a list \<Rightarrow> nat \<Rightarrow> 'a list \<Rightarrow> 'k list \<Rightarrow> bool \<Rightarrow> 'a list \<Rightarrow> 'k option \<Rightarrow> bool \<times> 'a list" where
  "dedup_loop keyFn collection i [] seen found result lastKey = (found, result)"
| "dedup_loop keyFn collection i (x # xs) seen found result lastKey =
     (let key = keyFn x
      in if lastKey = Some key
         then dedup_loop keyFn collection (Suc i) xs seen True (if found then result else take i collection) lastKey
         else if key \<in> set seen
         then dedup_loop keyFn collection (Suc i) xs seen True (if found then result else take i collection) (Some key)
         else dedup_loop keyFn collection (Suc i) xs (key # seen) found
                (if found then result @ [x] else result) (Some key))"

definition DeduplicateBy :: "('a \<Rightarrow> 'k) \<Rightarrow> 'a list \<Rightarrow> 'a list" where
  "DeduplicateBy keyFn collection =
     (if length collection = 0 then []
      else if length collection = 1 then collection
      else let (found, result) = dedup_loop keyFn collection 0 collection [] False [] None
           in if \<not> found then collection else result)"

definition Deduplicate :: "'a list \<Rightarrow> 'a list" where
  "Deduplicate collection = DeduplicateBy (\<lambda>v. v) collection"

primrec slices_Index :: "'a list \<Rightarrow> 'a \<Rightarrow> int" where
  "slices_Index [] el = - 1"
| "slices_Index (x # xs) el =
     (if x = el then 0 else let i = slices_Index xs el in if i < 0 then - 1 else i + 1)"

definition slice_Delete :: "'a list \<Rightarrow> 'a \<Rightarrow> 'a list" where
  "slice_Delete collection el =
     (let idx = slices_Index collection el
      in if idx > - 1 then take (nat idx) collection @ drop (nat idx + 1) collection else collection)"

subsection \<open>Conversions\<close>

definition ToList :: "('a \<Rightarrow> 'any) \<Rightarrow> 'a list \<Rightarrow> 'any list option" where
  "ToList box collection = (if length collection = 0 then None else Some (map box collection))"

primrec from_elements :: "('any \<Rightarrow> 'a option) \<Rightarrow> 'any list \<Rightarrow> 'a list" where
  "from_elements unbox [] = []"
| "from_elements unbox (e # es) =
     (case unbox e of Some v \<Rightarrow> v # from_elements unbox es | None \<Rightarrow> from_elements unbox es)"

definition FromList :: "('any \<Rightarrow> 'a option) \<Rightarrow> 'any list option \<Rightarrow> 'a list" where
  "FromList unbox l =
     (case l of None \<Rightarrow> [] | Some es \<Rightarrow> if length es = 0 then [] else from_elements unbox es)"

definition ToAny :: "('a \<Rightarrow> 'any) \<Rightarrow> 'a list \<Rightarrow> 'any list" where
  "ToAny box collection = (if length collection = 0 then [] else map box collection)"

definition slice_To :: "('a \<Rightarrow> 'b) \<Rightarrow> 'a list \<Rightarrow> 'b list" where
  "slice_To fn collection = (if length collection = 0 then [] else map fn collection)"

definition ToStrings :: "('any \<Rightarrow> string option) \<Rightarrow> 'any list \<Rightarrow> string list" where
  "ToStrings unbox collection = (if length collection = 0 then [] else from_elements unbox collection)"

fun to_filtered :: "('a \<Rightarrow> bool) \<Rightarrow> ('a \<Rightarrow> 'b) \<Rightarrow> 'a list \<Rightarrow> 'b list \<Rightarrow> 'b list" where
  "to_filtered predicate fn [] out = out"
| "to_filtered predicate fn (x # xs) out =
     to_filtered predicate fn xs (if predicate x then out @ [fn x] else out)"

definition ToWithFilter :: "('a \<Rightarrow> bool) \<Rightarrow> ('a \<Rightarrow> 'b) \<Rightarrow> 'a list \<Rightarrow> 'b list" where
  "ToWithFilter predicate fn collection =
     (if length collection = 0 then [] else to_filtered predicate fn collection [])"

subsection \<open>Searching, folding and grouping\<close>

primrec FilterFirst :: "'a \<Rightarrow> ('a \<Rightarrow> bool) \<Rightarrow> 'a list \<Rightarrow> 'a \<times> bool" where
  "FilterFirst zero predicate [] = (zero, False)"
| "FilterFirst zero predicate (x # xs) = (if predicate x then (x, True) else FilterFirst zero predicate xs)"

definition FilterLast :: "'a \<Rightarrow> ('a \<Rightarrow> bool) \<Rightarrow> 'a list \<Rightarrow> 'a \<times> bool" where
  "FilterLast zero predicate collection = FilterFirst zero predicate (rev collection)"

primrec reduce_loop :: "('r \<Rightarrow> nat \<Rightarrow> 'a \<Rightarrow> 'r) \<Rightarrow> nat \<Rightarrow> 'a list \<Rightarrow> 'r \<Rightarrow> 'r" where
  "reduce_loop fn i [] accum = accum"
| "reduce_loop fn i (x # xs) accum = reduce_loop fn (Suc i) xs (fn accum i x)"

definition Reduce :: "'a list \<Rightarrow> 'r \<Rightarrow> ('r \<Rightarrow> nat \<Rightarrow> 'a \<Rightarrow> 'r) \<Rightarrow> 'r" where
  "Reduce collection initial fn = reduce_loop fn 0 collection initial"

definition group_put :: "('a \<Rightarrow> 'k) \<Rightarrow> 'a \<Rightarrow> ('k, 'a list) gomap \<Rightarrow> ('k, 'a list) gomap" where
  "group_put keyFn item groups =
     (let key = keyFn item
      in gm_put key ((case gm_get groups key of Some xs \<Rightarrow> xs | None \<Rightarrow> []) @ [item]) groups)"

definition GroupBy :: "('a \<Rightarrow> 'k) \<Rightarrow> 'a list \<Rightarrow> ('k, 'a list) gomap" where
  "GroupBy keyFn collection =
     (if length collection = 0 then [] else fold (group_put keyFn) collection [])"

primrec slice_All :: "('a \<Rightarrow> bool) \<Rightarrow> 'a list \<Rightarrow> bool" where
  "slice_All predicate [] = True"
| "slice_All predicate (x # xs) = (if \<not> predicate x then False else slice_All predicate xs)"

text \<open>The loop over adjacent pairs the four order tests share; \<open>bad\<close> is the test that fails.\<close>

fun adjacent_ok :: "('a \<Rightarrow> 'a \<Rightarrow> bool) \<Rightarrow> 'a list \<Rightarrow> bool" where
  "adjacent_ok bad (x # y # ys) = (if bad x y then False else adjacent_ok bad (y # ys))"
| "adjacent_ok bad xs = True"

definition IsStrictlyIncreasing :: "'a::linorder list \<Rightarrow> bool" where
  "IsStrictlyIncreasing collection = adjacent_ok (\<lambda>a b. a \<ge> b) collection"

definition IsStrictlyDecreasing :: "'a::linorder list \<Rightarrow> bool" where
  "IsStrictlyDecreasing collection = adjacent_ok (\<lambda>a b. a \<le> b) collection"

definition IsNonDecreasing :: "'a::linorder list \<Rightarrow> bool" where
  "IsNonDecreasing collection = adjacent_ok (\<lambda>a b. a > b) collection"

definition IsNonIncreasing :: "'a::linorder list \<Rightarrow> bool" where
  "IsNonIncreasing collection = adjacent_ok (\<lambda>a b. a < b) collection"

subsection \<open>Conditional appends\<close>

definition AppendIf :: "'a list \<Rightarrow> bool \<Rightarrow> 'a list \<Rightarrow> 'a list" where
  "AppendIf slice cond new = (if \<not> cond then slice else slice @ new)"

definition AppendIfFunc :: "'a list \<Rightarrow> bool \<Rightarrow> (unit \<Rightarrow> 'a list) \<Rightarrow> 'a list" where
  "AppendIfFunc slice cond fn = (if \<not> cond then slice else slice @ fn ())"

definition AppendNonEmpty :: "(string \<Rightarrow> 'any) \<Rightarrow> 'any list \<Rightarrow> string \<Rightarrow> string \<Rightarrow> 'any list" where
  "AppendNonEmpty box slice key v = (if v = '''' then slice else slice @ [box key, box v])"

text \<open>A value that may be nil is an option; \<^verbatim>\<open>nilcheck.IsNil\<close> tests for \<open>None\<close>.\<close>

definition AppendNonNil :: "'a option list \<Rightarrow> 'a option \<Rightarrow> 'a option list" where
  "AppendNonNil slice v = (if v = None then slice else slice @ [v])"

definition AppendNonNilErr ::
  "'a option list \<Rightarrow> (unit \<Rightarrow> 'a option \<times> goerr option) \<Rightarrow> 'a option list \<times> goerr option" where
  "AppendNonNilErr slice fn =
     (let (v, err) = fn () in case err of Some e \<Rightarrow> (slice, Some e) | None \<Rightarrow> (AppendNonNil slice v, None))"

subsection \<open>Iterators (iter.go)\<close>

definition seq_List :: "('any \<Rightarrow> 'a option) \<Rightarrow> 'any list option \<Rightarrow> 'a list" where
  "seq_List unbox l = (case l of None \<Rightarrow> [] | Some es \<Rightarrow> from_elements unbox es)"

primrec seq_Filter :: "('a \<Rightarrow> bool) \<Rightarrow> 'a list \<Rightarrow> 'a list" where
  "seq_Filter predicate [] = []"
| "seq_Filter predicate (v # vs) = (if predicate v then v # seq_Filter predicate vs else seq_Filter predicate vs)"

primrec seq_Map :: "('a \<Rightarrow> 'b) \<Rightarrow> 'a list \<Rightarrow> 'b list" where
  "seq_Map fn [] = []"
| "seq_Map fn (v # vs) = fn v # seq_Map fn vs"

definition FilterSeq :: "'a list \<Rightarrow> ('a \<Rightarrow> bool) \<Rightarrow> 'a list" where
  "FilterSeq seq predicate = seq_Filter predicate seq"

definition MapSeq :: "'a list \<Rightarrow> ('a \<Rightarrow> 'b) \<Rightarrow> 'b list" where
  "MapSeq seq fn = seq_Map fn seq"

fun take_loop :: "int \<Rightarrow> int \<Rightarrow> 'a list \<Rightarrow> 'a list" where
  "take_loop n cnt [] = []"
| "take_loop n cnt (v # vs) = (if cnt \<ge> n then [] else v # take_loop n (cnt + 1) vs)"

definition seq_Take :: "'a list \<Rightarrow> int \<Rightarrow> 'a list" where
  "seq_Take seq n = take_loop n 0 seq"

subsection \<open>Parallel filtering and mapping\<close>

function chunk_loop :: "nat \<Rightarrow> nat \<Rightarrow> 'a list \<Rightarrow> 'a list list" where
  "chunk_loop chunkLen start collection =
     (if start < length collection \<and> 0 < chunkLen
      then take (min (start + chunkLen) (length collection) - start) (drop start collection)
             # chunk_loop chunkLen (start + chunkLen) collection
      else [])"
  by auto

termination chunk_loop
  by (relation "measure (\<lambda>(chunkLen, start, collection). length collection - start)") auto

declare chunk_loop.simps [simp del]

definition default_batch :: "('e, 'w) batch_options" where
  "default_batch =
     \<lparr> bo_concurrency = 0, bo_limitFunc = None, bo_stopOnError = False, bo_onSuccess = None, bo_onError = None \<rparr>"

definition batch_wrap :: "goerr \<Rightarrow> goerr" where
  "batch_wrap e = (case Wrap (Some e) ''batch processing failed'' of Some e' \<Rightarrow> e' | None \<Rightarrow> e)"

text \<open>
  \<open>cores\<close> is \<^verbatim>\<open>runtime.NumCPU()\<close>, \<open>dflt\<close> the default limit and \<open>sched\<close> the schedule of the
  pool; the workers share no state, so the world of the batch is \<open>()\<close>. \<open>None\<close> is the panic.
\<close>

definition FilterParallel :: "nat \<Rightarrow> int \<Rightarrow> nat list \<Rightarrow> ('a \<Rightarrow> bool) \<Rightarrow> 'a list \<Rightarrow> 'a list option" where
  "FilterParallel cores dflt sched predicate collection =
     (if length collection = 0 then Some []
      else if length collection < 32 * cores * 2 then Some (seq_Filter predicate collection)
      else let chunkLen = (length collection + cores - 1) div cores;
               chunks = chunk_loop chunkLen 0 collection;
               (parts, err, _) =
                 ProcessCollect batch_wrap dflt default_batch (\<lambda>_. None)
                   (\<lambda>_ i w. (Inr (seq_Filter predicate (chunks ! i)), w)) [] (length chunks) sched ()
           in case err of None \<Rightarrow> Some (concat parts) | Some _ \<Rightarrow> None)"

text \<open>
  The goroutines of \<^verbatim>\<open>MapParallel\<close>: each has the index it writes next and the end of its chunk.
  \<open>None\<close> marks a slot of the result not written yet.
\<close>

record 'b map_run =
  mr_out :: "'b option list"
  mr_procs :: "(nat \<times> nat) list"

definition map_step :: "('a \<Rightarrow> 'b) \<Rightarrow> 'a list \<Rightarrow> nat \<Rightarrow> 'b map_run \<Rightarrow> 'b map_run" where
  "map_step fn collection k st =
     (if k < length (mr_procs st)
      then let (j, last) = mr_procs st ! k
           in if j < last
              then st\<lparr>mr_out := (mr_out st)[j := Some (fn (collection ! j))], mr_procs := (mr_procs st)[k := (j + 1, last)]\<rparr>
              else st
      else st)"

definition map_chunks :: "nat \<Rightarrow> nat \<Rightarrow> (nat \<times> nat) list" where
  "map_chunks cores len =
     (let chunkSize = len div cores
      in map (\<lambda>i. (i * chunkSize, if i = cores - 1 then len else i * chunkSize + chunkSize)) [0..<cores])"

definition map_rest :: "'b map_run \<Rightarrow> nat list" where
  "map_rest st = concat (map (\<lambda>(k, (j, last)). replicate (last - j) k) (enumerate 0 (mr_procs st)))"

text \<open>\<^verbatim>\<open>wg.Wait()\<close>: once the schedule is used up, the goroutines finish one after the other.\<close>

definition map_parallel_run :: "nat \<Rightarrow> nat list \<Rightarrow> ('a \<Rightarrow> 'b) \<Rightarrow> 'a list \<Rightarrow> 'b map_run" where
  "map_parallel_run cores sched fn collection =
     (let st = fold (map_step fn collection) sched
                 \<lparr> mr_out = replicate (length collection) None, mr_procs = map_chunks cores (length collection) \<rparr>
      in fold (map_step fn collection) (map_rest st) st)"

definition MapParallel :: "nat \<Rightarrow> nat list \<Rightarrow> ('a \<Rightarrow> 'b) \<Rightarrow> 'a list \<Rightarrow> 'b option list" where
  "MapParallel cores sched fn collection =
     (if length collection = 0 then []
      else if length collection < 32 * cores * 2 then map (Some \<circ> fn) collection
      else mr_out (map_parallel_run cores sched fn collection))"


subsection \<open>Facts\<close>

text \<open>The reference: the elements whose key no earlier element has, in their order.\<close>

definition dedup_ref :: "('a \<Rightarrow> 'k) \<Rightarrow> 'a list \<Rightarrow> 'a list" where
  "dedup_ref keyFn xs =
     map ((!) xs) (filter (\<lambda>i. keyFn (xs ! i) \<notin> keyFn ` set (take i xs)) [0..<length xs])"

lemma dedup_ref_snoc:
  "dedup_ref keyFn (xs @ [x]) = dedup_ref keyFn xs @ (if keyFn x \<in> keyFn ` set xs then [] else [x])"
proof -
  have "filter (\<lambda>i. keyFn ((xs @ [x]) ! i) \<notin> keyFn ` set (take i (xs @ [x]))) [0..<length xs]
      = filter (\<lambda>i. keyFn (xs ! i) \<notin> keyFn ` set (take i xs)) [0..<length xs]"
    by (rule filter_cong) (auto simp: nth_append)
  then show ?thesis by (auto simp: dedup_ref_def nth_append)
qed

lemma dedup_loop_ref:
  fixes keyFn collection
  defines "good \<equiv> \<lambda>out. if fst out then snd out = dedup_ref keyFn collection else dedup_ref keyFn collection = collection"
  assumes "collection = pre @ xs" and "set seen = keyFn ` set pre" and "\<And>k. lastKey = Some k \<Longrightarrow> k \<in> set seen"
    and "if found then result = dedup_ref keyFn pre else dedup_ref keyFn pre = pre \<and> result = []"
  shows "good (dedup_loop keyFn collection (length pre) xs seen found result lastKey)"
  using assms(2-)
proof (induction xs arbitrary: pre seen found result lastKey)
  case (Cons x xs)
  have IH: "good (dedup_loop keyFn collection (Suc (length pre)) xs seen' found' result' last')"
    if "set seen' = keyFn ` set (pre @ [x])" "\<And>k. last' = Some k \<Longrightarrow> k \<in> set seen'"
      "if found' then result' = dedup_ref keyFn (pre @ [x]) else dedup_ref keyFn (pre @ [x]) = pre @ [x] \<and> result' = []"
    for seen' found' result' last'
    using Cons.IH [of "pre @ [x]" seen' last' found' result'] that Cons.prems(1) by simp
  show ?case
  proof (cases "keyFn x \<in> set seen")
    case True
    then have "dedup_ref keyFn (pre @ [x]) = dedup_ref keyFn pre" "set seen = keyFn ` set (pre @ [x])"
      using Cons.prems(2) by (auto simp: dedup_ref_snoc)
    then have "good (dedup_loop keyFn collection (Suc (length pre)) xs seen True (if found then result else pre) last')"
      if "\<And>k. last' = Some k \<Longrightarrow> k \<in> set seen" for last'
      using IH [of seen last' True] that Cons.prems(4) by (simp split: if_splits)
    from this [of lastKey] this [of "Some (keyFn x)"] show ?thesis
      using True Cons.prems(1,3) by (cases found) (simp_all add: Let_def)
  next
    case False
    then have "dedup_ref keyFn (pre @ [x]) = dedup_ref keyFn pre @ [x]" "lastKey \<noteq> Some (keyFn x)"
      using Cons.prems(2,3) by (auto simp: dedup_ref_snoc)
    then show ?thesis
      using False IH [of "keyFn x # seen" "Some (keyFn x)" found] Cons.prems(2,4) by (simp add: Let_def)
  qed
qed (simp add: good_def split: if_splits)

lemma DeduplicateBy_ref: "DeduplicateBy keyFn xs = dedup_ref keyFn xs"
proof -
  obtain f r where fr: "dedup_loop keyFn xs 0 xs [] False [] None = (f, r)" by fastforce
  have "if f then r = dedup_ref keyFn xs else dedup_ref keyFn xs = xs"
    using dedup_loop_ref [of xs "[]" xs "[]" keyFn None False "[]"] fr by (simp add: dedup_ref_def [of _ "[]"] split: if_splits)
  moreover have "length xs = 1 \<Longrightarrow> dedup_ref keyFn xs = xs"
    by (cases xs) (auto simp: dedup_ref_def)
  ultimately show ?thesis using fr by (auto simp: DeduplicateBy_def dedup_ref_def [of _ "[]"] split: if_splits)
qed

lemma dedup_ref_keys: "distinct (map keyFn (dedup_ref keyFn xs))" "keyFn ` set (dedup_ref keyFn xs) = keyFn ` set xs"
  by (induction xs rule: rev_induct) (auto simp: dedup_ref_snoc dedup_ref_def [of _ "[]"])

lemma chunk_loop_concat: "0 < chunkLen \<Longrightarrow> concat (chunk_loop chunkLen start xs) = drop start xs"
proof (induction chunkLen start xs rule: chunk_loop.induct)
  case (1 chunkLen start xs)
  show ?case
  proof (cases "start < length xs")
    case True
    have "take (min (start + chunkLen) (length xs) - start) (drop start xs) = take chunkLen (drop start xs)"
      by (cases "start + chunkLen \<le> length xs") (simp_all add: min_def)
    moreover have "concat (chunk_loop chunkLen (start + chunkLen) xs) = drop (start + chunkLen) xs"
      using "1.IH" "1.prems" True by simp
    moreover have "take chunkLen (drop start xs) @ drop (start + chunkLen) xs = drop start xs"
      by (metis append_take_drop_id drop_drop add.commute)
    ultimately show ?thesis using True "1.prems" by (simp add: chunk_loop.simps [of chunkLen start])
  qed (simp add: chunk_loop.simps)
qed

lemma seq_Filter_filter [simp]: "seq_Filter predicate xs = filter predicate xs"
  by (induction xs) simp_all

lemma FilterParallel_filter:
  assumes "0 < cores" and "0 < dflt"
  shows "FilterParallel cores dflt sched predicate xs = Some (filter predicate xs)"
proof (cases "length xs = 0 \<or> length xs < 32 * cores * 2")
  case False
  let ?c = "(length xs + cores - 1) div cores"
  let ?chunks = "chunk_loop ?c 0 xs"
  have "0 < length xs" using False by simp
  then have "0 < ?c" using assms(1) unfolding div_greater_zero_iff by linarith
  then have all: "concat ?chunks = xs" by (simp add: chunk_loop_concat)
  have "\<exists>w1. ProcessCollect batch_wrap dflt default_batch (\<lambda>_. None)
      (\<lambda>_ i w. (Inr (filter predicate (?chunks ! i)), w)) [] (length ?chunks) sched ()
      = (map (\<lambda>i. filter predicate (?chunks ! i)) [0..<length ?chunks], None, w1)"
    by (rule ProcessCollect_total) (simp_all add: assms(2))
  then obtain w1 where run: "ProcessCollect batch_wrap dflt default_batch (\<lambda>_. None)
      (\<lambda>_ i w. (Inr (filter predicate (?chunks ! i)), w)) [] (length ?chunks) sched ()
      = (map (\<lambda>i. filter predicate (?chunks ! i)) [0..<length ?chunks], None, w1)" by blast
  have "map (\<lambda>i. filter predicate (?chunks ! i)) [0..<length ?chunks] = map (filter predicate) ?chunks"
    by (rule nth_equalityI) simp_all
  then have "concat (map (\<lambda>i. filter predicate (?chunks ! i)) [0..<length ?chunks]) = filter predicate xs"
    using all by (simp flip: filter_concat)
  then show ?thesis using False run by (simp add: FilterParallel_def Let_def)
qed (auto simp: FilterParallel_def)


text \<open>
  Progress of the goroutines of \<open>MapParallel\<close>: goroutine \<open>k\<close> has written the slots from the start
  of its chunk up to its position, and every scheduled turn moves it by one until the end.
\<close>

definition map_inv :: "('a \<Rightarrow> 'b) \<Rightarrow> 'a list \<Rightarrow> (nat \<times> nat) list \<Rightarrow> 'b map_run \<Rightarrow> bool" where
  "map_inv fn xs chunks st \<longleftrightarrow>
     length (mr_out st) = length xs \<and> length (mr_procs st) = length chunks
     \<and> (\<forall>k < length chunks. snd (mr_procs st ! k) = snd (chunks ! k) \<and> snd (chunks ! k) \<le> length xs
          \<and> (\<forall>i. fst (chunks ! k) \<le> i \<and> i < fst (mr_procs st ! k) \<longrightarrow> mr_out st ! i = Some (fn (xs ! i)))
          \<and> fst (mr_procs st ! k) \<le> snd (mr_procs st ! k))"

lemma map_step_inv:
  assumes "map_inv fn xs chunks st"
  shows "map_inv fn xs chunks (map_step fn xs k st)"
    and "k' < length chunks \<Longrightarrow> fst (mr_procs (map_step fn xs k st) ! k')
      = (if k' = k then min (snd (chunks ! k')) (fst (mr_procs st ! k') + 1) else fst (mr_procs st ! k'))"
proof -
  obtain j l where jl: "mr_procs st ! k = (j, l)" by fastforce
  note inv = assms [unfolded map_inv_def]
  have idle: "map_step fn xs k st = st" if "\<not> (k < length chunks \<and> j < l)"
    using that inv jl by (auto simp: map_step_def)
  have move: "map_step fn xs k st
      = st\<lparr>mr_out := (mr_out st)[j := Some (fn (xs ! j))], mr_procs := (mr_procs st)[k := (j + 1, l)]\<rparr>"
    if "k < length chunks" "j < l"
    using that inv jl by (simp add: map_step_def)
  show "map_inv fn xs chunks (map_step fn xs k st)"
  proof (cases "k < length chunks \<and> j < l")
    case True
    then have l: "l = snd (chunks ! k)" "j < length xs" using inv jl by fastforce+
    show ?thesis
      unfolding map_inv_def move [OF True [THEN conjunct1] True [THEN conjunct2]]
      using inv True l jl by (auto simp: nth_list_update less_Suc_eq)
  qed (use assms idle in simp)
  show "fst (mr_procs (map_step fn xs k st) ! k')
      = (if k' = k then min (snd (chunks ! k')) (fst (mr_procs st ! k') + 1) else fst (mr_procs st ! k'))"
    if "k' < length chunks"
  proof (cases "k < length chunks \<and> j < l")
    case True
    then have "l = snd (chunks ! k)" using inv jl by fastforce
    then show ?thesis using True inv that jl move by (auto simp: nth_list_update)
  next
    case False
    then have "k' = k \<Longrightarrow> j = snd (chunks ! k)" using inv jl that by fastforce
    then show ?thesis using idle [OF False] jl inv that by auto
  qed
qed

lemma map_fold_inv:
  assumes "map_inv fn xs chunks st"
  shows "map_inv fn xs chunks (fold (map_step fn xs) sched st)
    \<and> (\<forall>k < length chunks. fst (mr_procs (fold (map_step fn xs) sched st) ! k)
         = min (snd (chunks ! k)) (fst (mr_procs st ! k) + count_list sched k))"
  using assms
proof (induction sched arbitrary: st)
  case Nil
  then show ?case by (auto simp: map_inv_def)
next
  case (Cons s sched)
  note IH = Cons.IH [OF map_step_inv(1) [OF Cons.prems]]
  show ?case using IH map_step_inv(2) [OF Cons.prems, of _ s] by (auto simp: min_def)
qed

lemma count_list_replicate: "count_list (replicate n x) y = (if x = y then n else 0)"
  by (induction n) auto

lemma count_map_rest:
  assumes "k < length (mr_procs st)"
  shows "count_list (map_rest st) k = snd (mr_procs st ! k) - fst (mr_procs st ! k)"
proof -
  have "count_list (concat (map (\<lambda>(k, (j, l)). replicate (l - j) k) (enumerate n ps))) (n + i) = snd (ps ! i) - fst (ps ! i)"
    if "i < length ps" for n i and ps :: "(nat \<times> nat) list"
    using that
  proof (induction ps arbitrary: n i)
    case (Cons p ps)
    have other: "count_list (concat (map (\<lambda>(k, (j, l)). replicate (l - j) k) (enumerate (Suc n) ps))) n = 0"
      by (auto simp: count_list_0_iff in_set_enumerate_eq)
    show ?case
    proof (cases i)
      case 0
      then show ?thesis using other by (cases p) (simp add: count_list_replicate)
    next
      case (Suc i')
      then show ?thesis using Cons.IH [of i' "Suc n"] Cons.prems by (cases p) (simp add: count_list_replicate)
    qed
  qed simp
  from this [of k "mr_procs st" 0] assms show ?thesis by (simp add: map_rest_def)
qed

lemma map_chunks_cover:
  assumes "0 < cores" and "i < len" and "cores \<le> len"
  obtains k where "k < cores" "fst (map_chunks cores len ! k) \<le> i" "i < snd (map_chunks cores len ! k)"
proof -
  let ?c = "len div cores"
  define k where "k = min (i div ?c) (cores - 1)"
  have c: "0 < ?c" using assms(1,3) by (simp add: div_greater_zero_iff)
  have k: "k < cores" using assms(1) by (simp add: k_def)
  have "k * ?c \<le> i div ?c * ?c" by (simp add: k_def)
  then have lo: "k * ?c \<le> i" using div_times_less_eq_dividend [of i ?c] by linarith
  have "i < k * ?c + ?c" if "k \<noteq> cores - 1"
    using that dividend_less_div_times [OF c, of i] by (simp add: k_def min_def split: if_splits)
  then show thesis
    using that [OF k] k lo assms(2) by (simp add: map_chunks_def Let_def)
qed

lemma map_chunks_bound: "k < cores \<Longrightarrow> snd (map_chunks cores len ! k) \<le> len \<and> fst (map_chunks cores len ! k) \<le> snd (map_chunks cores len ! k)"
proof -
  assume k: "k < cores"
  have "(k + 1) * (len div cores) \<le> cores * (len div cores)" using k by (intro mult_le_mono1) simp
  also have "\<dots> \<le> len" by simp
  finally show ?thesis using k by (auto simp: map_chunks_def Let_def)
qed

lemma MapParallel_map:
  assumes "0 < cores"
  shows "MapParallel cores sched fn xs = map (Some \<circ> fn) xs"
proof (cases "length xs = 0 \<or> length xs < 32 * cores * 2")
  case False
  let ?chunks = "map_chunks cores (length xs)"
  let ?st0 = "\<lparr> mr_out = replicate (length xs) None, mr_procs = ?chunks \<rparr>"
  define st where "st = fold (map_step fn xs) sched ?st0"
  define fin where "fin = fold (map_step fn xs) (map_rest st) st"
  have len: "length ?chunks = cores" by (simp add: map_chunks_def Let_def)
  have "map_inv fn xs ?chunks ?st0"
    using map_chunks_bound [of _ cores "length xs"] by (auto simp: map_inv_def len)
  then have st: "map_inv fn xs ?chunks st" using map_fold_inv unfolding st_def by blast
  have fin: "map_inv fn xs ?chunks fin"
    "\<And>k. k < cores \<Longrightarrow> fst (mr_procs fin ! k) = min (snd (?chunks ! k)) (fst (mr_procs st ! k) + count_list (map_rest st) k)"
    using map_fold_inv [OF st, of "map_rest st"] len unfolding fin_def by auto
  have ended: "fst (mr_procs fin ! k) = snd (?chunks ! k)" if "k < cores" for k
    using fin(2) [OF that] count_map_rest [of k st] st that len by (simp add: map_inv_def)
  have "mr_out fin ! i = Some (fn (xs ! i))" if i: "i < length xs" for i
  proof -
    have "cores \<le> length xs" using False by linarith
    then obtain k where "k < cores" "fst (?chunks ! k) \<le> i" "i < snd (?chunks ! k)"
      using map_chunks_cover [OF assms i] by blast
    then show ?thesis using fin(1) ended [of k] len by (simp add: map_inv_def)
  qed
  moreover have "length (mr_out fin) = length xs" using fin(1) by (simp add: map_inv_def)
  moreover have "MapParallel cores sched fn xs = mr_out fin"
    using False by (simp add: MapParallel_def map_parallel_run_def Let_def fin_def st_def)
  ultimately show ?thesis by (intro nth_equalityI) simp_all
qed (auto simp: MapParallel_def)

lemma FromList_ToList: "(\<And>x. unbox (box x) = Some x) \<Longrightarrow> FromList unbox (ToList box xs) = xs"
proof -
  assume un: "\<And>x. unbox (box x) = Some x"
  have "from_elements unbox (map box xs) = xs" by (induction xs) (simp_all add: un)
  then show ?thesis by (simp add: FromList_def ToList_def)
qed

lemma slice_Delete_remove1: "slice_Delete xs el = remove1 el xs"
proof -
  have "slices_Index xs el = (if el \<in> set xs then int (length (takeWhile (\<lambda>x. x \<noteq> el) xs)) else - 1)"
    by (induction xs) (auto simp: Let_def)
  moreover have "take (length (takeWhile (\<lambda>x. x \<noteq> el) xs)) xs @ drop (Suc (length (takeWhile (\<lambda>x. x \<noteq> el) xs))) xs
      = remove1 el xs"
    by (induction xs) auto
  moreover have "el \<notin> set xs \<Longrightarrow> remove1 el xs = xs" by (rule remove1_idem)
  ultimately show ?thesis by (simp add: slice_Delete_def Let_def)
qed

lemma adjacent_ok_sorted: "transp (\<lambda>a b. \<not> bad a b) \<Longrightarrow> adjacent_ok bad xs = sorted_wrt (\<lambda>a b. \<not> bad a b) xs"
proof (induction bad xs rule: adjacent_ok.induct)
  case (1 bad x y ys)
  then show ?case using transpD [OF "1.prems", of x y] by (auto simp: sorted_wrt2)
qed simp_all

lemma GroupBy_fold:
  "gm_wf m \<Longrightarrow> gm_wf (fold (group_put keyFn) xs m)
    \<and> gm_get (fold (group_put keyFn) xs m) k
      = (case gm_get m k of
           Some ys \<Rightarrow> Some (ys @ filter (\<lambda>x. keyFn x = k) xs)
         | None \<Rightarrow> if k \<in> keyFn ` set xs then Some (filter (\<lambda>x. keyFn x = k) xs) else None)"
proof (induction xs arbitrary: m)
  case Nil
  then show ?case by (auto split: option.split)
next
  case (Cons x xs)
  have "gm_wf (group_put keyFn x m)" using Cons.prems by (simp add: group_put_def Let_def)
  from Cons.IH [OF this] show ?case by (auto simp: group_put_def Let_def split: option.split)
qed

subsection \<open>Properties\<close>

text \<open>
  \<^verbatim>\<open>DeduplicateBy\<close>, with its copy-on-write result and its shortcut for equal neighbours, returns
  exactly the elements whose key no earlier element has, in their order; the keys of the result
  are different from each other and are the keys of the input.
\<close>

lemma DeduplicateBy_keeps_first_occurrences:
  "DeduplicateBy keyFn xs = map ((!) xs) (filter (\<lambda>i. keyFn (xs ! i) \<notin> keyFn ` set (take i xs)) [0..<length xs])
   \<and> distinct (map keyFn (DeduplicateBy keyFn xs))
   \<and> keyFn ` set (DeduplicateBy keyFn xs) = keyFn ` set xs
   \<and> set (Deduplicate ys) = set ys \<and> distinct (Deduplicate ys)"
  using dedup_ref_keys [of keyFn xs] dedup_ref_keys [of "\<lambda>v. v" ys]
  by (simp add: DeduplicateBy_ref dedup_ref_def Deduplicate_def)

text \<open>
  C36: the parallel helpers return what the sequential ones return, for every number of processors,
  every default limit and every schedule of the workers: \<^verbatim>\<open>FilterParallel\<close> does not panic and is
  the filter, in order, and \<^verbatim>\<open>MapParallel\<close> leaves no slot unwritten and is the map.
\<close>

theorem parallel_equals_sequential:
  assumes "0 < cores" and "0 < dflt"
  shows "FilterParallel cores dflt sched predicate xs = Some (filter predicate xs)
    \<and> MapParallel cores sched' fn ys = map Some (map fn ys)"
  by (simp add: FilterParallel_filter [OF assms] MapParallel_map [OF assms(1)])

theorem parallel_equals_sequential_witness:
  "FilterParallel 1 8 [0, 1, 0] (\<lambda>n. 60 < n) [0..<70] = Some [61..<70]
   \<and> MapParallel 2 [1, 1, 0, 1] (\<lambda>n. n * n) [0..<200] = map (\<lambda>n. Some (n * n)) [0..<200]"
proof -
  have "filter (\<lambda>n. 60 < n) [0..<70] = [61..<70 :: nat]" by (simp add: upt_rec)
  then show ?thesis
    using parallel_equals_sequential [of 1 8 "[0, 1, 0]" "\<lambda>n. 60 < n" "[0..<70]" "[]" id "[] :: nat list"]
      parallel_equals_sequential [of 2 8 "[]" "\<lambda>_. True" "[] :: nat list" "[1, 1, 0, 1]" "\<lambda>n. n * n" "[0..<200]"]
    by simp
qed

text \<open>
  \<^verbatim>\<open>GroupBy\<close> partitions the slice: the groups have different keys, each group holds the
  elements with its key in their order, and every element is in a group.
\<close>

lemma GroupBy_partitions:
  "gm_wf (GroupBy keyFn xs)
   \<and> gm_get (GroupBy keyFn xs) k
     = (if k \<in> keyFn ` set xs then Some (filter (\<lambda>x. keyFn x = k) xs) else None)"
  using GroupBy_fold [of "[]" keyFn xs k] by (auto simp: GroupBy_def)

end
