(* ===== verification/SagaModel.thy ===== *)
theory SagaModel
  imports GoContext Retry Slices
begin

text \<open>
  The saga orchestrator: \<^verbatim>\<open>src/data/saga/*.go\<close> and the in-memory instance store
  \<^verbatim>\<open>src/data/saga/storages/memory/memory.go\<close>.

  A saga runs the stages of a definition in order and stores a checkpoint after every stage; a
  failure before the pivot stage rolls the finished stages back in reverse order. The world
  \<open>'w\<close> holds the instance store and everything else the process touches; \<open>'d\<close> is the type
  of the saga's data. Operations that mutate an instance through a pointer return it. Metrics
  and log lines are left out.
\<close>

subsection \<open>Instances (storage.go)\<close>

datatype Status =
  StatusRunning | StatusCompensating | StatusCompleted | StatusCompensated | StatusFailed

definition IsTerminal :: "Status \<Rightarrow> bool" where
  "IsTerminal s = (case s of
     StatusCompleted \<Rightarrow> True | StatusCompensated \<Rightarrow> True | StatusFailed \<Rightarrow> True | _ \<Rightarrow> False)"

datatype StepStatus = StepPending | StepCompleted | StepCompensated | StepFailed

record StepRecord =
  sr_Name :: string
  sr_Stage :: int
  sr_Status :: StepStatus
  sr_Attempts :: nat
  sr_Error :: string
  sr_StartedAt :: gotime
  sr_FinishedAt :: gotime

record Instance =
  si_ID :: string
  si_Definition :: string
  si_Status :: Status
  si_Stage :: int
  si_PendingSteps :: "int list"
  si_Data :: string
  si_Steps :: "StepRecord list"
  si_CreatedAt :: gotime
  si_UpdatedAt :: gotime
  si_Deadline :: gotime
  si_LeaseOwner :: string
  si_LeaseUntil :: gotime
  si_Version :: int
  si_LastError :: string

text \<open>Instances are values here, so the copy \<^verbatim>\<open>Clone\<close> makes is the instance itself.\<close>

definition Clone :: "Instance option \<Rightarrow> Instance option" where
  "Clone i = i"

definition Recoverable :: "gotime \<Rightarrow> Instance \<Rightarrow> bool" where
  "Recoverable now i =
     (if IsTerminal (si_Status i) \<or> si_LeaseUntil i > now then False
      else si_Status i = StatusCompensating \<or> si_LeaseOwner i \<noteq> ''''
           \<or> (si_Deadline i \<noteq> 0 \<and> \<not> now < si_Deadline i))"

record 'w saga_storage =
  ss_Create :: "gocx \<Rightarrow> Instance \<Rightarrow> 'w \<Rightarrow> goerr option \<times> 'w"
  ss_Get :: "gocx \<Rightarrow> string \<Rightarrow> 'w \<Rightarrow> (goerr + Instance) \<times> 'w"
  ss_Update :: "gocx \<Rightarrow> Instance \<Rightarrow> 'w \<Rightarrow> (goerr + int) \<times> 'w"
  ss_FetchRecoverable :: "gocx \<Rightarrow> string \<Rightarrow> gotime \<Rightarrow> int \<Rightarrow> 'w \<Rightarrow> (goerr + Instance list) \<times> 'w"

subsection \<open>Errors (errs/errs.go)\<close>

definition ErrInstanceBusy :: goerr where
  "ErrInstanceBusy = Sentinel ''ErrInstanceBusy'' ''saga: instance is executing: busy''
     [Sentinel ''ErrBusy'' ''busy'' []]"

definition ErrInstanceNotFound :: goerr where
  "ErrInstanceNotFound = Sentinel ''ErrInstanceNotFound'' ''saga: instance not found''
     [Sentinel ''ErrNotFound'' ''not found'' []]"

definition ErrInstanceExists :: goerr where
  "ErrInstanceExists = Sentinel ''ErrInstanceExists'' ''saga: instance already exists''
     [Sentinel ''ErrAlreadyExists'' ''already exists'' []]"

definition ErrVersionConflict :: goerr where
  "ErrVersionConflict = Sentinel ''ErrVersionConflict'' ''saga: optimistic concurrency: version conflict''
     [Sentinel ''ErrConflict'' ''version conflict'' []]"

definition ErrDefinitionNotFound :: goerr where
  "ErrDefinitionNotFound = Sentinel ''ErrDefinitionNotFound'' ''saga: definition mismatch'' []"

definition ErrAlreadyTerminal :: goerr where
  "ErrAlreadyTerminal = Sentinel ''ErrAlreadyTerminal'' ''saga: instance already terminal'' []"

definition ErrCompensationFailed :: goerr where
  "ErrCompensationFailed = Sentinel ''ErrCompensationFailed'' ''saga: compensation failed'' []"

definition ErrNoCompensation :: goerr where
  "ErrNoCompensation = Sentinel ''ErrNoCompensation'' ''saga: step without compensation'' []"

definition ErrEmptyDefinition :: goerr where
  "ErrEmptyDefinition = Sentinel ''ErrEmptyDefinition'' ''saga: definition has no steps'' []"

definition ErrEmptyID :: goerr where
  "ErrEmptyID = Sentinel ''ErrEmptyID'' ''saga: empty instance id'' []"

definition errPanic :: goerr where
  "errPanic = Sentinel ''errPanic'' ''saga: panic'' []"

subsection \<open>The in-memory store (storages/memory/memory.go)\<close>

type_synonym saga_store = "(string, Instance) gomap"

definition sm_New :: saga_store where
  "sm_New = []"

definition sm_Create :: "Instance \<Rightarrow> saga_store \<Rightarrow> goerr option \<times> saga_store" where
  "sm_Create inst s =
     (case gm_get s (si_ID inst) of
        Some _ \<Rightarrow> (Some ErrInstanceExists, s)
      | None \<Rightarrow> (None, gm_put (si_ID inst) inst s))"

definition sm_Get :: "string \<Rightarrow> saga_store \<Rightarrow> goerr + Instance" where
  "sm_Get key s = (case gm_get s key of None \<Rightarrow> Inl ErrInstanceNotFound | Some inst \<Rightarrow> Inr inst)"

definition sm_Update :: "Instance \<Rightarrow> saga_store \<Rightarrow> (goerr + int) \<times> saga_store" where
  "sm_Update inst s =
     (case gm_get s (si_ID inst) of
        None \<Rightarrow> (Inl ErrInstanceNotFound, s)
      | Some cur \<Rightarrow>
          (if si_Version cur \<noteq> si_Version inst then (Inl ErrVersionConflict, s)
           else let stored = inst\<lparr>si_Version := si_Version cur + 1\<rparr>
                in (Inr (si_Version stored), gm_put (si_ID inst) stored s)))"

definition sm_FetchRecoverable :: "string \<Rightarrow> gotime \<Rightarrow> int \<Rightarrow> saga_store \<Rightarrow> Instance list" where
  "sm_FetchRecoverable definition now limit s =
     (let out = filter (\<lambda>inst. \<not> ((definition \<noteq> '''' \<and> si_Definition inst \<noteq> definition)
                                   \<or> \<not> Recoverable now inst)) (map snd s)
      in if limit > 0 then take (nat limit) out else out)"

definition sm_Delete :: "string \<Rightarrow> saga_store \<Rightarrow> saga_store" where
  "sm_Delete key s = gm_del key s"

definition sm_Len :: "saga_store \<Rightarrow> nat" where
  "sm_Len s = length s"

text \<open>The store as the first part of a world; \<open>'x\<close> is the rest of the process.\<close>

definition memory_storage :: "(saga_store \<times> 'x) saga_storage" where
  "memory_storage =
     \<lparr> ss_Create = (\<lambda>c inst (s, x). let (e, s1) = sm_Create inst s in (e, (s1, x))),
       ss_Get = (\<lambda>c key (s, x). (sm_Get key s, (s, x))),
       ss_Update = (\<lambda>c inst (s, x). let (r, s1) = sm_Update inst s in (r, (s1, x))),
       ss_FetchRecoverable = (\<lambda>c d now limit (s, x). (Inr (sm_FetchRecoverable d now limit s), (s, x))) \<rparr>"

subsection \<open>Definitions and their builder (definition.go, policy.go)\<close>

record RetryPolicy =
  rp_MaxAttempts :: int
  rp_BaseDelay :: duration
  rp_MaxDelay :: duration

record Execution =
  ex_InstanceID :: string
  ex_Fence :: int
  ex_StepKey :: string
  ex_stage :: int

datatype cb_result = CbOk | CbErr goerr | CbPanic string

type_synonym ('d, 'w) step_fn = "gocx \<Rightarrow> Execution \<Rightarrow> 'd \<Rightarrow> 'w \<Rightarrow> cb_result \<times> 'd \<times> 'w"

record ('d, 'w) Step =
  sp_name :: string
  sp_action :: "('d, 'w) step_fn"
  sp_compensation :: "('d, 'w) step_fn option"
  sp_pivot :: bool
  sp_readOnly :: bool
  sp_timeout :: duration
  sp_retry :: "RetryPolicy option"

record ('d, 'w) stage =
  stg_name :: string
  stg_steps :: "('d, 'w) Step list"
  stg_parallel :: bool

definition hasPivot :: "('d, 'w) stage \<Rightarrow> bool" where
  "hasPivot st = list_ex sp_pivot (stg_steps st)"

datatype Policy = PolicyWarn | PolicyEnforce | PolicyDisabled

definition Policy_String :: "Policy \<Rightarrow> string" where
  "Policy_String p = (case p of
     PolicyWarn \<Rightarrow> ''warn'' | PolicyEnforce \<Rightarrow> ''enforce'' | PolicyDisabled \<Rightarrow> ''disabled'')"

record ('d, 'w) Definition =
  d_name :: string
  d_stages :: "('d, 'w) stage list"
  d_pivotIdx :: int
  d_missing :: "string list"
  d_policy :: Policy

record ('d, 'w) Builder =
  b_name :: string
  b_stages :: "('d, 'w) stage list"

definition NewDefinition :: "string \<Rightarrow> ('d, 'w) Builder" where
  "NewDefinition name = \<lparr> b_name = name, b_stages = [] \<rparr>"

definition NewStep :: "string \<Rightarrow> ('d, 'w) step_fn \<Rightarrow> ('d, 'w) Step" where
  "NewStep name action =
     \<lparr> sp_name = name, sp_action = action, sp_compensation = None, sp_pivot = False,
       sp_readOnly = False, sp_timeout = 0, sp_retry = None \<rparr>"

definition Builder_Step ::
  "('d, 'w) Builder \<Rightarrow> string \<Rightarrow> ('d, 'w) step_fn \<Rightarrow> ('d, 'w) Builder" where
  "Builder_Step b name action =
     b\<lparr>b_stages := b_stages b @
         [\<lparr> stg_name = name, stg_steps = [NewStep name action], stg_parallel = False \<rparr>]\<rparr>"

definition Builder_Parallel ::
  "('d, 'w) Builder \<Rightarrow> string \<Rightarrow> ('d, 'w) Step list \<Rightarrow> ('d, 'w) Builder" where
  "Builder_Parallel b name specs =
     b\<lparr>b_stages := b_stages b @
         [\<lparr> stg_name = name, stg_steps = specs, stg_parallel = True \<rparr>]\<rparr>"

text \<open>
  The methods of \<^verbatim>\<open>StepSpec\<close> change a step; those of \<^verbatim>\<open>StepBuilder\<close> change the first step
  of the last stage, and panic (\<open>None\<close>) where that index does not exist.
\<close>

definition spec_Compensate :: "('d, 'w) step_fn \<Rightarrow> ('d, 'w) Step \<Rightarrow> ('d, 'w) Step" where
  "spec_Compensate fn sp = sp\<lparr>sp_compensation := Some fn\<rparr>"

definition spec_Pivot :: "('d, 'w) Step \<Rightarrow> ('d, 'w) Step" where
  "spec_Pivot sp = sp\<lparr>sp_pivot := True\<rparr>"

definition spec_ReadOnly :: "('d, 'w) Step \<Rightarrow> ('d, 'w) Step" where
  "spec_ReadOnly sp = sp\<lparr>sp_readOnly := True\<rparr>"

definition spec_Timeout :: "duration \<Rightarrow> ('d, 'w) Step \<Rightarrow> ('d, 'w) Step" where
  "spec_Timeout d sp = (if d > 0 then sp\<lparr>sp_timeout := d\<rparr> else sp)"

definition spec_RetryPolicy :: "RetryPolicy \<Rightarrow> ('d, 'w) Step \<Rightarrow> ('d, 'w) Step" where
  "spec_RetryPolicy p sp = sp\<lparr>sp_retry := Some p\<rparr>"

definition spec_Retry :: "int \<Rightarrow> duration \<Rightarrow> duration \<Rightarrow> ('d, 'w) Step \<Rightarrow> ('d, 'w) Step" where
  "spec_Retry maxAttempts base maxDelay sp =
     spec_RetryPolicy \<lparr> rp_MaxAttempts = maxAttempts, rp_BaseDelay = base, rp_MaxDelay = maxDelay \<rparr> sp"

definition sb_last ::
  "(('d, 'w) Step \<Rightarrow> ('d, 'w) Step) \<Rightarrow> ('d, 'w) Builder \<Rightarrow> ('d, 'w) Builder option" where
  "sb_last f b =
     (if b_stages b = [] then None
      else let st = last (b_stages b)
           in case stg_steps st of
                [] \<Rightarrow> None
              | s # ss \<Rightarrow> Some (b\<lparr>b_stages := butlast (b_stages b) @ [st\<lparr>stg_steps := f s # ss\<rparr>]\<rparr>))"

definition sb_Compensate :: "('d, 'w) step_fn \<Rightarrow> ('d, 'w) Builder \<Rightarrow> ('d, 'w) Builder option" where
  "sb_Compensate fn = sb_last (spec_Compensate fn)"

definition sb_Pivot :: "('d, 'w) Builder \<Rightarrow> ('d, 'w) Builder option" where
  "sb_Pivot = sb_last spec_Pivot"

definition sb_ReadOnly :: "('d, 'w) Builder \<Rightarrow> ('d, 'w) Builder option" where
  "sb_ReadOnly = sb_last spec_ReadOnly"

definition sb_Timeout :: "duration \<Rightarrow> ('d, 'w) Builder \<Rightarrow> ('d, 'w) Builder option" where
  "sb_Timeout d b = (if d > 0 then sb_last (spec_Timeout d) b else Some b)"

definition sb_RetryPolicy :: "RetryPolicy \<Rightarrow> ('d, 'w) Builder \<Rightarrow> ('d, 'w) Builder option" where
  "sb_RetryPolicy p = sb_last (spec_RetryPolicy p)"

definition sb_Retry ::
  "int \<Rightarrow> duration \<Rightarrow> duration \<Rightarrow> ('d, 'w) Builder \<Rightarrow> ('d, 'w) Builder option" where
  "sb_Retry maxAttempts base maxDelay =
     sb_RetryPolicy \<lparr> rp_MaxAttempts = maxAttempts, rp_BaseDelay = base, rp_MaxDelay = maxDelay \<rparr>"

fun first_pivot :: "nat \<Rightarrow> ('d, 'w) stage list \<Rightarrow> nat" where
  "first_pivot i [] = i"
| "first_pivot i (st # sts) = (if hasPivot st then i else first_pivot (Suc i) sts)"

definition missing_compensations :: "nat \<Rightarrow> ('d, 'w) stage list \<Rightarrow> string list" where
  "missing_compensations pivotIdx stages =
     fold (\<lambda>s missing. AppendIf missing (sp_compensation s = None \<and> \<not> sp_readOnly s) [sp_name s])
       (concat (map stg_steps (take pivotIdx stages))) []"

definition slicesCloneStages :: "('d, 'w) stage list \<Rightarrow> ('d, 'w) stage list" where
  "slicesCloneStages stages = map (\<lambda>st. st\<lparr>stg_steps := stg_steps st\<rparr>) stages"

definition buildOptions :: "(Policy \<Rightarrow> Policy) list \<Rightarrow> Policy" where
  "buildOptions opts = fold (\<lambda>opt cfg. opt cfg) opts PolicyWarn"

definition WithCompensationPolicy :: "Policy \<Rightarrow> Policy \<Rightarrow> Policy" where
  "WithCompensationPolicy p = (\<lambda>_. p)"

text \<open>\<open>shown\<close> is the rendering of the list of names by \<^verbatim>\<open>%v\<close>.\<close>

definition Build ::
  "(string list \<Rightarrow> string) \<Rightarrow> (Policy \<Rightarrow> Policy) list \<Rightarrow> ('d, 'w) Builder \<Rightarrow> goerr + ('d, 'w) Definition" where
  "Build shown opts b =
     (let policy = buildOptions opts
      in if b_stages b = [] then Inl ErrEmptyDefinition
         else let pivotIdx = first_pivot 0 (b_stages b);
                  missing = missing_compensations pivotIdx (b_stages b)
              in if policy = PolicyEnforce \<and> missing \<noteq> []
                 then Inl (the (Wrapf (Some ErrNoCompensation) (''steps '' @ shown missing)))
                 else Inr \<lparr> d_name = b_name b, d_stages = slicesCloneStages (b_stages b),
                            d_pivotIdx = int pivotIdx, d_missing = missing, d_policy = policy \<rparr>)"

subsection \<open>The orchestrator and its runtime (orchestrator.go, execution.go)\<close>

text \<open>
  What the runtime decides: the owner token of \<^verbatim>\<open>rand.Text\<close>, whether the context ended before
  a backoff timer fired, the random jitter, the floating-point product of the backoff, the
  schedule of the workers of a parallel stage and the default number of workers.
\<close>

record 'w saga_rt = "'w go_rt" +
  rt_owner :: "'w \<Rightarrow> string \<times> 'w"
  rt_timer :: "duration \<Rightarrow> 'w \<Rightarrow> bool \<times> 'w"
  rt_jitter :: "'w \<Rightarrow> (int \<Rightarrow> int) \<times> 'w"
  rt_scaled :: "duration \<Rightarrow> int \<Rightarrow> int option"
  rt_sched :: "'w \<Rightarrow> nat list"
  rt_limit :: int

record ('d, 'w) Orchestrator =
  o_store :: "'w saga_storage"
  o_def :: "('d, 'w) Definition"
  o_serialize :: "'d \<Rightarrow> goerr + string"
  o_deserialize :: "string \<Rightarrow> goerr + 'd"
  o_zero :: 'd
  o_stepTimeout :: duration
  o_sagaTimeout :: duration
  o_defaultRetry :: RetryPolicy
  o_maxCompensationAttempts :: int
  o_stepConcurrency :: int
  o_executionTimeout :: duration
  o_leaseGrace :: duration
  o_storageTimeout :: duration
  o_recoveryTimeout :: duration
  o_leader :: "('w \<Rightarrow> bool) option"
  o_recoveryBatchSize :: int
  o_onDeadLetter :: "(Instance \<Rightarrow> 'w \<Rightarrow> cb_result \<times> 'w) option"
  o_shouldRetry :: "(goerr \<Rightarrow> bool) option"

subsubsection \<open>Bounded storage calls\<close>

definition bounded_Create ::
  "('d, 'w) Orchestrator \<Rightarrow> 'w saga_rt \<Rightarrow> gocx \<Rightarrow> Instance \<Rightarrow> 'w \<Rightarrow> goerr option \<times> 'w" where
  "bounded_Create orc rt c inst w =
     (let (c1, w1) = WithMaxTimeout rt (Some c) (o_storageTimeout orc) w
      in ss_Create (o_store orc) c1 inst w1)"

definition bounded_Get ::
  "('d, 'w) Orchestrator \<Rightarrow> 'w saga_rt \<Rightarrow> gocx \<Rightarrow> string \<Rightarrow> 'w \<Rightarrow> (goerr + Instance) \<times> 'w" where
  "bounded_Get orc rt c key w =
     (let (c1, w1) = WithMaxTimeout rt (Some c) (o_storageTimeout orc) w
      in ss_Get (o_store orc) c1 key w1)"

definition bounded_Update ::
  "('d, 'w) Orchestrator \<Rightarrow> 'w saga_rt \<Rightarrow> gocx \<Rightarrow> Instance \<Rightarrow> 'w \<Rightarrow> (goerr + int) \<times> 'w" where
  "bounded_Update orc rt c inst w =
     (let (c1, w1) = WithMaxTimeout rt (Some c) (o_storageTimeout orc) w
      in case ctx_err rt c1 w1 of
           Some e \<Rightarrow> (Inl e, w1)
         | None \<Rightarrow> ss_Update (o_store orc) c1 inst w1)"

definition bounded_FetchRecoverable ::
  "('d, 'w) Orchestrator \<Rightarrow> 'w saga_rt \<Rightarrow> gocx \<Rightarrow> string \<Rightarrow> gotime \<Rightarrow> int \<Rightarrow> 'w
     \<Rightarrow> (goerr + Instance list) \<times> 'w" where
  "bounded_FetchRecoverable orc rt c d now limit w =
     (let (c1, w1) = WithMaxTimeout rt (Some c) (o_storageTimeout orc) w
      in ss_FetchRecoverable (o_store orc) c1 d now limit w1)"

text \<open>\<^verbatim>\<open>Update\<close> writes the new version into the instance it was given.\<close>

definition persist ::
  "('d, 'w) Orchestrator \<Rightarrow> 'w saga_rt \<Rightarrow> gocx \<Rightarrow> Instance \<Rightarrow> 'w \<Rightarrow> (goerr + Instance) \<times> 'w" where
  "persist orc rt c inst w =
     (case bounded_Update orc rt c inst w of
        (Inl e, w1) \<Rightarrow> (Inl e, w1)
      | (Inr v, w1) \<Rightarrow> (Inr (inst\<lparr>si_Version := v\<rparr>), w1))"

subsubsection \<open>Steps with retries\<close>

definition withStage :: "Execution \<Rightarrow> int \<Rightarrow> Execution" where
  "withStage e stage = e\<lparr>ex_stage := stage\<rparr>"

definition withStep :: "Execution \<Rightarrow> string \<Rightarrow> Execution" where
  "withStep e name =
     e\<lparr>ex_StepKey := Itoa (int (length (ex_InstanceID e))) @ '':'' @ ex_InstanceID e @ '':''
                       @ Itoa (ex_stage e) @ '':'' @ name\<rparr>"

definition maxRetries :: "int \<Rightarrow> int" where
  "maxRetries totalAttempts = (if totalAttempts \<le> 1 then 0 else totalAttempts - 1)"

definition retryPredicate :: "('d, 'w) Orchestrator \<Rightarrow> goerr \<Rightarrow> bool" where
  "retryPredicate orc err =
     (if IsContextCanceled (Some err) then False
      else case o_shouldRetry orc of Some p \<Rightarrow> p err | None \<Rightarrow> True)"

definition resolveTimeout :: "('d, 'w) Orchestrator \<Rightarrow> ('d, 'w) Step \<Rightarrow> duration" where
  "resolveTimeout orc s = (if sp_timeout s > 0 then sp_timeout s else o_stepTimeout orc)"

text \<open>The world of a retried callback: the attempts made, the data and the world.\<close>

type_synonym ('d, 'w) step_world = "nat \<times> 'd \<times> 'w"

definition retryOptions ::
  "('d, 'w) Orchestrator \<Rightarrow> 'w saga_rt \<Rightarrow> RetryPolicy \<Rightarrow> (goerr, ('d, 'w) step_world) retry_options" where
  "retryOptions orc rt policy =
     \<lparr> ro_maxAttempts = maxRetries (rp_MaxAttempts policy),
       ro_maxElapsedTime = 0,
       ro_shouldRetry = Some (retryPredicate orc),
       ro_nextDelay = Some (\<lambda>attempt err (n, d, w).
         let (j, w1) = rt_jitter rt w
         in (Exponential \<lparr> ec_BaseDelay = rp_BaseDelay policy, ec_MaxDelay = rp_MaxDelay policy \<rparr>
               (rt_scaled rt (rp_BaseDelay policy)) (Some j) attempt, (n, d, w1))),
       ro_onRetry = None,
       ro_sleep = None,
       ro_stopBeforeDeadline = False \<rparr>"

definition step_ctx :: "'w saga_rt \<Rightarrow> gocx \<Rightarrow> (goerr, ('d, 'w) step_world) go_ctx" where
  "step_ctx rt c =
     \<lparr> gc_err = (\<lambda>(n, d, w). ctx_err rt c w),
       gc_now = (\<lambda>(n, d, w). let (t, w1) = time_Now rt w in (t, (n, d, w1))),
       gc_deadline = (\<lambda>(n, d, w). ctx_deadline rt c),
       gc_wait = (\<lambda>delay (n, d, w). let (ended, w1) = rt_timer rt delay w
                    in (if ended then ctx_err rt c w1 else None, (n, d, w1))) \<rparr>"

text \<open>
  One invocation under the step timeout; a panic becomes an error. \<open>what\<close> is the word in the
  message, \<^verbatim>\<open>step\<close> or \<^verbatim>\<open>compensation\<close>.
\<close>

definition step_call ::
  "'w saga_rt \<Rightarrow> gocx \<Rightarrow> Execution \<Rightarrow> string \<Rightarrow> string \<Rightarrow> duration \<Rightarrow> ('d, 'w) step_fn
     \<Rightarrow> ('d, 'w) step_world \<Rightarrow> goerr option \<times> ('d, 'w) step_world" where
  "step_call rt c ex what name timeout fn sw =
     (case sw of (n, d, w) \<Rightarrow>
        (let (c1, w1) = WithMaxTimeout rt (Some c) timeout w;
             (r, d1, w2) = fn c1 (withStep ex name) d w1
         in (case r of
               CbOk \<Rightarrow> None
             | CbErr e \<Rightarrow> Some e
             | CbPanic p \<Rightarrow> Wrapf (Some errPanic) (what @ '' '' @ quoted name @ '' panicked: '' @ p),
             (Suc n, d1, w2))))"

definition runStep ::
  "('d, 'w) Orchestrator \<Rightarrow> 'w saga_rt \<Rightarrow> gocx \<Rightarrow> Execution \<Rightarrow> ('d, 'w) Step \<Rightarrow> 'd \<Rightarrow> 'w
     \<Rightarrow> nat \<times> goerr option \<times> 'd \<times> 'w" where
  "runStep orc rt c ex s d w =
     (let policy = (case sp_retry s of Some p \<Rightarrow> p | None \<Rightarrow> o_defaultRetry orc);
          (err, n, d1, w1) =
            retry_capped (retryOptions orc rt policy) (step_ctx rt c)
              (step_call rt c ex ''step'' (sp_name s) (resolveTimeout orc s) (sp_action s)) (0, d, w)
      in (n, err, d1, w1))"

definition compRetryPolicy :: "('d, 'w) Orchestrator \<Rightarrow> RetryPolicy" where
  "compRetryPolicy orc =
     \<lparr> rp_MaxAttempts = o_maxCompensationAttempts orc,
       rp_BaseDelay = rp_BaseDelay (o_defaultRetry orc),
       rp_MaxDelay = rp_MaxDelay (o_defaultRetry orc) \<rparr>"

definition compensateStep ::
  "('d, 'w) Orchestrator \<Rightarrow> 'w saga_rt \<Rightarrow> gocx \<Rightarrow> Execution \<Rightarrow> ('d, 'w) Step \<Rightarrow> 'd \<Rightarrow> 'w
     \<Rightarrow> nat \<times> goerr option \<times> 'd \<times> 'w" where
  "compensateStep orc rt c ex s d w =
     (case sp_compensation s of
        None \<Rightarrow> (0, None, d, w)
      | Some fn \<Rightarrow>
          (let (err, n, d1, w1) =
                 retry_capped (retryOptions orc rt (compRetryPolicy orc)) (step_ctx rt c)
                   (step_call rt c ex ''compensation'' (sp_name s) (resolveTimeout orc s) fn) (0, d, w)
           in (n, err, d1, w1)))"

subsubsection \<open>Stages\<close>

text \<open>The world of a parallel stage: attempts and successes per step, the data and the world.\<close>

type_synonym ('d, 'w) stage_world = "nat list \<times> bool list \<times> 'd \<times> 'w"

definition stage_item ::
  "(gocx \<Rightarrow> ('d, 'w) Step \<Rightarrow> 'd \<Rightarrow> 'w \<Rightarrow> nat \<times> goerr option \<times> 'd \<times> 'w) \<Rightarrow> gocx \<Rightarrow> ('d, 'w) Step list
     \<Rightarrow> bool \<Rightarrow> nat \<Rightarrow> ('d, 'w) stage_world \<Rightarrow> goerr option \<times> ('d, 'w) stage_world" where
  "stage_item run c steps cancelled i sw =
     (case sw of (attempts, succeeded, d, w) \<Rightarrow>
        (let (n, e, d1, w1) = run (WithCancel c cancelled) (steps ! i) d w
         in (e, (attempts[i := n], succeeded[i := (e = None)], d1, w1))))"

definition stage_options ::
  "('d, 'w) Orchestrator \<Rightarrow> bool \<Rightarrow> (goerr, ('d, 'w) stage_world) batch_options" where
  "stage_options orc compensating =
     \<lparr> bo_concurrency = (if o_stepConcurrency orc > 0 then o_stepConcurrency orc else 0),
       bo_limitFunc = None, bo_stopOnError = (\<not> compensating),
       bo_onSuccess = None, bo_onError = None \<rparr>"

definition runStage ::
  "('d, 'w) Orchestrator \<Rightarrow> 'w saga_rt \<Rightarrow> gocx \<Rightarrow> Execution \<Rightarrow> ('d, 'w) Step list \<Rightarrow> bool \<Rightarrow> 'd \<Rightarrow> 'w
     \<Rightarrow> nat list \<times> int list \<times> goerr option \<times> 'd \<times> 'w" where
  "runStage orc rt c ex steps compensating d w =
     (let run = (\<lambda>c'. if compensating then compensateStep orc rt c' ex else runStep orc rt c' ex)
      in if length steps = 1
         then (let (n, err, d1, w1) = run c (steps ! 0) d w
               in ([n], if err = None then [0] else [], err, d1, w1))
         else (let n = length steps;
                   (err, attempts, succeeded, d1, w1) =
                     Process (rt_limit rt) (stage_options orc compensating)
                       (\<lambda>(at, su, d, w). ctx_err rt c w) (stage_item run c steps) n (rt_sched rt w)
                       (replicate n 0, replicate n False, d, w)
               in (attempts, map int (filter (\<lambda>i. succeeded ! i) [0..<n]), err, d1, w1)))"

subsubsection \<open>Checkpoints\<close>

definition encodeInto :: "('d, 'w) Orchestrator \<Rightarrow> Instance \<Rightarrow> 'd \<Rightarrow> goerr + Instance" where
  "encodeInto orc inst d =
     (case o_serialize orc d of
        Inl e \<Rightarrow> Inl (the (WrapOperation (Some e) ''serialize saga data''))
      | Inr b \<Rightarrow> Inr (inst\<lparr>si_Data := b\<rparr>))"

definition stage_records ::
  "('d, 'w) Step list \<Rightarrow> int \<Rightarrow> StepStatus \<Rightarrow> nat list \<Rightarrow> gotime \<Rightarrow> StepRecord list" where
  "stage_records steps stageIdx status attempts now =
     map (\<lambda>i. \<lparr> sr_Name = sp_name (steps ! i), sr_Stage = stageIdx, sr_Status = status,
               sr_Attempts = attempts ! i, sr_Error = '''', sr_StartedAt = 0, sr_FinishedAt = now \<rparr>)
       [0..<length steps]"

definition recordStage ::
  "'w saga_rt \<Rightarrow> Instance \<Rightarrow> ('d, 'w) Step list \<Rightarrow> int \<Rightarrow> StepStatus \<Rightarrow> nat list \<Rightarrow> 'w \<Rightarrow> Instance \<times> 'w" where
  "recordStage rt inst steps stageIdx status attempts w =
     (let (now, w1) = time_Now rt w
      in (inst\<lparr>si_Steps := si_Steps inst @ stage_records steps stageIdx status attempts now\<rparr>, w1))"

text \<open>
  A transition: the status and the time are set, the instance is stored, and a failed write puts
  the old status back in memory.
\<close>

definition transition ::
  "('d, 'w) Orchestrator \<Rightarrow> 'w saga_rt \<Rightarrow> gocx \<Rightarrow> Status \<Rightarrow> Status \<Rightarrow> Instance \<Rightarrow> 'w
     \<Rightarrow> (goerr option \<times> Instance) \<times> 'w" where
  "transition orc rt c status back inst w =
     (let (now, w1) = time_Now rt w;
          inst1 = inst\<lparr>si_Status := status, si_UpdatedAt := now\<rparr>
      in case persist orc rt c inst1 w1 of
           (Inl e, w2) \<Rightarrow> ((Some e, inst1\<lparr>si_Status := back\<rparr>), w2)
         | (Inr inst2, w2) \<Rightarrow> ((None, inst2), w2))"

subsubsection \<open>The forward phase\<close>

type_synonym ('d, 'w) outcome = "Instance \<times> goerr option \<times> 'd \<times> 'w"

definition forward_failed ::
  "('d, 'w) Orchestrator \<Rightarrow> 'w saga_rt \<Rightarrow> gocx \<Rightarrow> string \<Rightarrow> bool \<Rightarrow> goerr \<Rightarrow> Instance \<Rightarrow> 'd \<Rightarrow> 'w
     \<Rightarrow> ('d, 'w) outcome" where
  "forward_failed orc rt c name postPivot e inst d w =
     (let inst1 = inst\<lparr>si_LastError := err_text e\<rparr>
      in if postPivot
         then (case transition orc rt c StatusFailed StatusRunning inst1 w of
                 ((Some pe, inst2), w1) \<Rightarrow> (inst2, Some pe, d, w1)
               | ((None, inst2), w1) \<Rightarrow>
                   (inst2, Wrapf (Some e) (''post-pivot stage '' @ quoted name @ '' failed''), d, w1))
         else (case transition orc rt c StatusCompensating StatusRunning inst1 w of
                 ((Some pe, inst2), w1) \<Rightarrow> (inst2, Some pe, d, w1)
               | ((None, inst2), w1) \<Rightarrow> (inst2, Some e, d, w1)))"

definition forward_commit ::
  "('d, 'w) Orchestrator \<Rightarrow> 'w saga_rt \<Rightarrow> gocx \<Rightarrow> ('d, 'w) Step list \<Rightarrow> nat list \<Rightarrow> Instance \<Rightarrow> 'd \<Rightarrow> 'w
     \<Rightarrow> ('d, 'w) outcome + Instance \<times> 'd \<times> 'w" where
  "forward_commit orc rt c steps attempts inst d w =
     (let (inst1, w1) = recordStage rt inst steps (si_Stage inst) StepCompleted attempts w;
          (now, w2) = time_Now rt w1;
          inst2 = inst1\<lparr>si_PendingSteps := [], si_Stage := si_Stage inst1 + 1, si_UpdatedAt := now\<rparr>
      in case encodeInto orc inst2 d of
           Inl e \<Rightarrow> Inl (inst2, Some e, d, w2)
         | Inr inst3 \<Rightarrow>
             (case persist orc rt c inst3 w2 of
                (Inl e, w3) \<Rightarrow> Inl (inst3, Some e, d, w3)
              | (Inr inst4, w3) \<Rightarrow> Inr (inst4, d, w3)))"

definition forward_stage ::
  "('d, 'w) Orchestrator \<Rightarrow> 'w saga_rt \<Rightarrow> gocx \<Rightarrow> Execution \<Rightarrow> Instance \<Rightarrow> 'd \<Rightarrow> 'w
     \<Rightarrow> ('d, 'w) outcome + Instance \<times> 'd \<times> 'w" where
  "forward_stage orc rt c ex inst d w =
     (let st = d_stages (o_def orc) ! nat (si_Stage inst);
          postPivot = (si_Stage inst \<ge> d_pivotIdx (o_def orc));
          inst1 = inst\<lparr>si_PendingSteps := map int [0..<length (stg_steps st)]\<rparr>
      in case persist orc rt c inst1 w of
           (Inl e, w1) \<Rightarrow> Inl (inst1, Some e, d, w1)
         | (Inr inst2, w1) \<Rightarrow>
             (case runStage orc rt c (withStage ex (si_Stage inst2)) (stg_steps st) False d w1 of
                (attempts, succeeded, err, d1, w2) \<Rightarrow>
                  (case ctx_err rt c w2 of
                     Some e \<Rightarrow> Inl (inst2, Some e, d1, w2)
                   | None \<Rightarrow>
                       (case encodeInto orc (inst2\<lparr>si_PendingSteps := succeeded\<rparr>) d1 of
                          Inl e \<Rightarrow> Inl (inst2\<lparr>si_PendingSteps := succeeded\<rparr>, Some e, d1, w2)
                        | Inr inst3 \<Rightarrow>
                            (case err of
                               Some e \<Rightarrow> Inl (forward_failed orc rt c (stg_name st) postPivot e inst3 d1 w2)
                             | None \<Rightarrow> forward_commit orc rt c (stg_steps st) attempts inst3 d1 w2)))))"

lemma persist_keeps:
  "persist orc rt c inst w = (Inr inst', w') \<Longrightarrow> \<exists>v. inst' = inst\<lparr>si_Version := v\<rparr>"
  by (auto simp: persist_def split: prod.splits sum.splits)

lemma forward_stage_progress:
  assumes "forward_stage orc rt c ex inst d w = Inr (inst', d', w')"
  shows "si_Stage inst' = si_Stage inst + 1"
  using assms
  by (auto simp: forward_stage_def forward_commit_def recordStage_def encodeInto_def Let_def
      split: prod.splits sum.splits option.splits dest!: persist_keeps)

function runForward ::
  "('d, 'w) Orchestrator \<Rightarrow> 'w saga_rt \<Rightarrow> gocx \<Rightarrow> Execution \<Rightarrow> Instance \<Rightarrow> 'd \<Rightarrow> 'w \<Rightarrow> ('d, 'w) outcome" where
  "runForward orc rt c ex inst d w =
     (if si_Stage inst < int (length (d_stages (o_def orc)))
      then (case forward_stage orc rt c ex inst d w of
              Inl r \<Rightarrow> r
            | Inr (inst', d', w') \<Rightarrow> runForward orc rt c ex inst' d' w')
      else (case transition orc rt c StatusCompleted StatusRunning inst w of
              ((e, inst1), w1) \<Rightarrow> (inst1, e, d, w1)))"
  by pat_completeness auto
termination
  by (relation "measure (\<lambda>(orc, rt, c, ex, inst, d, w).
        nat (int (length (d_stages (o_def orc))) - si_Stage inst))")
    (auto dest: forward_stage_progress)

declare runForward.simps [simp del]

subsubsection \<open>The compensation phase\<close>

definition compensationFailed ::
  "('d, 'w) Orchestrator \<Rightarrow> 'w saga_rt \<Rightarrow> gocx \<Rightarrow> goerr \<Rightarrow> Instance \<Rightarrow> 'd \<Rightarrow> 'w \<Rightarrow> ('d, 'w) outcome" where
  "compensationFailed orc rt c err inst d w =
     (case ctx_err rt c w of
        Some e \<Rightarrow> (inst, Some e, d, w)
      | None \<Rightarrow>
          (if IsContextCanceled (Some err) then (inst, Some err, d, w)
           else case transition orc rt c StatusFailed StatusCompensating
                       (inst\<lparr>si_LastError := err_text err\<rparr>) w of
                  ((Some pe, inst1), w1) \<Rightarrow> (inst1, Some pe, d, w1)
                | ((None, inst1), w1) \<Rightarrow> (inst1, JoinWrap (Some ErrCompensationFailed) (Some err), d, w1)))"

definition compensate_pending ::
  "('d, 'w) Orchestrator \<Rightarrow> 'w saga_rt \<Rightarrow> gocx \<Rightarrow> Execution \<Rightarrow> Instance \<Rightarrow> 'd \<Rightarrow> 'w
     \<Rightarrow> ('d, 'w) outcome + Instance \<times> 'd \<times> 'w" where
  "compensate_pending orc rt c ex inst d w =
     (let st = d_stages (o_def orc) ! nat (si_Stage inst);
          steps = map (\<lambda>i. stg_steps st ! nat i) (si_PendingSteps inst)
      in case runStage orc rt c (withStage ex (si_Stage inst)) steps True d w of
           (attempts, _, Some err, d1, w1) \<Rightarrow> Inl (compensationFailed orc rt c err inst d1 w1)
         | (attempts, _, None, d1, w1) \<Rightarrow>
             (let (inst1, w2) = recordStage rt inst steps (si_Stage inst) StepCompensated attempts w1;
                  inst2 = inst1\<lparr>si_PendingSteps := []\<rparr>
              in case encodeInto orc inst2 d1 of
                   Inl e \<Rightarrow> Inl (inst2, Some e, d1, w2)
                 | Inr inst3 \<Rightarrow>
                     (case persist orc rt c inst3 w2 of
                        (Inl e, w3) \<Rightarrow> Inl (inst3, Some e, d1, w3)
                      | (Inr inst4, w3) \<Rightarrow> Inr (inst4, d1, w3))))"

definition compensate_stage ::
  "('d, 'w) Orchestrator \<Rightarrow> 'w saga_rt \<Rightarrow> gocx \<Rightarrow> Execution \<Rightarrow> Instance \<Rightarrow> 'd \<Rightarrow> 'w
     \<Rightarrow> ('d, 'w) outcome + Instance \<times> 'd \<times> 'w" where
  "compensate_stage orc rt c ex inst d w =
     (let st = d_stages (o_def orc) ! nat (si_Stage inst - 1)
      in case runStage orc rt c (withStage ex (si_Stage inst - 1)) (stg_steps st) True d w of
           (attempts, _, Some err, d1, w1) \<Rightarrow> Inl (compensationFailed orc rt c err inst d1 w1)
         | (attempts, _, None, d1, w1) \<Rightarrow>
             (let (inst1, w2) = recordStage rt inst (stg_steps st) (si_Stage inst - 1) StepCompensated attempts w1;
                  (now, w3) = time_Now rt w2;
                  inst2 = inst1\<lparr>si_Stage := si_Stage inst1 - 1, si_UpdatedAt := now\<rparr>
              in case encodeInto orc inst2 d1 of
                   Inl e \<Rightarrow> Inl (inst2, Some e, d1, w3)
                 | Inr inst3 \<Rightarrow>
                     (case persist orc rt c inst3 w3 of
                        (Inl e, w4) \<Rightarrow> Inl (inst3, Some e, d1, w4)
                      | (Inr inst4, w4) \<Rightarrow> Inr (inst4, d1, w4))))"

lemma compensate_stage_progress:
  assumes "compensate_stage orc rt c ex inst d w = Inr (inst', d', w')"
  shows "si_Stage inst' = si_Stage inst - 1"
  using assms
  by (auto simp: compensate_stage_def recordStage_def encodeInto_def Let_def
      split: prod.splits sum.splits option.splits dest!: persist_keeps)

function compensate_loop ::
  "('d, 'w) Orchestrator \<Rightarrow> 'w saga_rt \<Rightarrow> gocx \<Rightarrow> Execution \<Rightarrow> Instance \<Rightarrow> 'd \<Rightarrow> 'w \<Rightarrow> ('d, 'w) outcome" where
  "compensate_loop orc rt c ex inst d w =
     (if si_Stage inst > 0
      then (case compensate_stage orc rt c ex inst d w of
              Inl r \<Rightarrow> r
            | Inr (inst', d', w') \<Rightarrow> compensate_loop orc rt c ex inst' d' w')
      else (case transition orc rt c StatusCompensated StatusCompensating inst w of
              ((e, inst1), w1) \<Rightarrow> (inst1, e, d, w1)))"
  by pat_completeness auto
termination
  by (relation "measure (\<lambda>(orc, rt, c, ex, inst, d, w). nat (si_Stage inst))")
    (auto dest: compensate_stage_progress)

declare compensate_loop.simps [simp del]

definition compensate ::
  "('d, 'w) Orchestrator \<Rightarrow> 'w saga_rt \<Rightarrow> gocx \<Rightarrow> Execution \<Rightarrow> Instance \<Rightarrow> 'd \<Rightarrow> 'w \<Rightarrow> ('d, 'w) outcome" where
  "compensate orc rt c ex inst d w =
     (if si_PendingSteps inst \<noteq> []
      then (case compensate_pending orc rt c ex inst d w of
              Inl r \<Rightarrow> r
            | Inr (inst', d', w') \<Rightarrow> compensate_loop orc rt c ex inst' d' w')
      else compensate_loop orc rt c ex inst d w)"

subsubsection \<open>Driving an instance\<close>

text \<open>A panic of the dead-letter hook is swallowed.\<close>

definition fireDeadLetter :: "('d, 'w) Orchestrator \<Rightarrow> Instance \<Rightarrow> 'w \<Rightarrow> 'w" where
  "fireDeadLetter orc inst w =
     (case o_onDeadLetter orc of None \<Rightarrow> w | Some f \<Rightarrow> snd (f inst w))"

definition drive_compensation ::
  "('d, 'w) Orchestrator \<Rightarrow> 'w saga_rt \<Rightarrow> gocx \<Rightarrow> Execution \<Rightarrow> goerr option \<Rightarrow> Instance \<Rightarrow> 'd \<Rightarrow> 'w
     \<Rightarrow> Instance \<times> goerr option \<times> 'w" where
  "drive_compensation orc rt c ex triggerErr inst d w =
     (case compensate orc rt c ex inst d w of
        (inst1, Some err, d1, w1) \<Rightarrow>
          (inst1, Some err, if si_Status inst1 = StatusFailed then fireDeadLetter orc inst1 w1 else w1)
      | (inst1, None, d1, w1) \<Rightarrow> (inst1, triggerErr, w1))"

definition drive ::
  "('d, 'w) Orchestrator \<Rightarrow> 'w saga_rt \<Rightarrow> gocx \<Rightarrow> Execution \<Rightarrow> Instance \<Rightarrow> 'd \<Rightarrow> 'w
     \<Rightarrow> Instance \<times> goerr option \<times> 'w" where
  "drive orc rt c ex inst d w =
     (if si_Status inst = StatusRunning
      then (case runForward orc rt c ex inst d w of
              (inst1, None, d1, w1) \<Rightarrow> (inst1, None, w1)
            | (inst1, Some e, d1, w1) \<Rightarrow>
                (if si_Status inst1 = StatusFailed then (inst1, Some e, fireDeadLetter orc inst1 w1)
                 else if si_Status inst1 \<noteq> StatusCompensating then (inst1, Some e, w1)
                 else drive_compensation orc rt c ex (Some e) inst1 d1 w1))
      else if si_Status inst = StatusCompensating
      then drive_compensation orc rt c ex None inst d w
      else (inst, None, w))"

text \<open>The deferred release of the lease.\<close>

definition release ::
  "('d, 'w) Orchestrator \<Rightarrow> 'w saga_rt \<Rightarrow> gocx \<Rightarrow> string \<Rightarrow> Instance \<times> goerr option \<times> 'w
     \<Rightarrow> (Instance \<times> goerr option) \<times> 'w" where
  "release orc rt c owner res =
     (case res of (inst, err, w) \<Rightarrow>
        (let (rc, w1) = WithTimeout rt (WithoutCancel c) (o_storageTimeout orc) w
         in case bounded_Get orc rt rc (si_ID inst) w1 of
              (Inl e, w2) \<Rightarrow> ((inst, errors_Join [err, Some e]), w2)
            | (Inr current, w2) \<Rightarrow>
                (if si_LeaseOwner current = owner
                 then (let (now, w3) = time_Now rt w2;
                           current1 = current\<lparr>si_LeaseUntil := now\<rparr>;
                           current2 = (if IsTerminal (si_Status current1)
                                       then current1\<lparr>si_LeaseOwner := '''', si_LeaseUntil := 0\<rparr>
                                       else current1)
                       in case persist orc rt rc current2 w3 of
                            (Inl e, w4) \<Rightarrow> ((inst, errors_Join [err, Some e]), w4)
                          | (Inr current3, w4) \<Rightarrow>
                              ((inst\<lparr>si_LeaseOwner := si_LeaseOwner current3,
                                     si_LeaseUntil := si_LeaseUntil current3,
                                     si_Version := si_Version current3\<rparr>, errors_Join [err, None]), w4))
                 else ((inst, errors_Join [err, None]), w2))))"

definition valid_cursor :: "('d, 'w) Definition \<Rightarrow> Instance \<Rightarrow> goerr option" where
  "valid_cursor dfn inst =
     (let n = int (length (d_stages dfn))
      in if si_Stage inst < 0 \<or> si_Stage inst > n \<or> (si_PendingSteps inst \<noteq> [] \<and> si_Stage inst = n)
         then Some (Errorf (''saga: invalid persisted stage '' @ Itoa (si_Stage inst)) [])
         else case find (\<lambda>i. i < 0 \<or> i \<ge> int (length (stg_steps (d_stages dfn ! nat (si_Stage inst)))))
                     (si_PendingSteps inst) of
                Some i \<Rightarrow> Some (Errorf (''saga: invalid pending step '' @ Itoa i) [])
              | None \<Rightarrow> None)"

definition timed_out :: "('d, 'w) Definition \<Rightarrow> bool \<Rightarrow> gotime \<Rightarrow> Instance \<Rightarrow> bool" where
  "timed_out dfn recovering now inst \<longleftrightarrow>
     recovering \<and> si_Status inst = StatusRunning \<and> si_Deadline inst \<noteq> 0 \<and> \<not> now < si_Deadline inst
     \<and> si_Stage inst < d_pivotIdx dfn"

definition execute_owned ::
  "('d, 'w) Orchestrator \<Rightarrow> 'w saga_rt \<Rightarrow> gocx \<Rightarrow> bool \<Rightarrow> gotime \<Rightarrow> Instance \<Rightarrow> 'd \<Rightarrow> 'w
     \<Rightarrow> Instance \<times> goerr option \<times> 'w" where
  "execute_owned orc rt rc recovering now inst d w =
     (let ex = \<lparr> ex_InstanceID = si_ID inst, ex_Fence = si_Version inst, ex_StepKey = '''', ex_stage = 0 \<rparr>
      in if timed_out (o_def orc) recovering now inst
         then (let inst1 = inst\<lparr>si_Status := StatusCompensating,
                                si_LastError := ''saga: deadline exceeded; rolling back''\<rparr>
               in case persist orc rt rc inst1 w of
                    (Inl e, w1) \<Rightarrow> (inst1, Some e, w1)
                  | (Inr inst2, w1) \<Rightarrow> drive orc rt rc ex inst2 d w1)
         else drive orc rt rc ex inst d w)"

definition execute ::
  "('d, 'w) Orchestrator \<Rightarrow> 'w saga_rt \<Rightarrow> gocx \<Rightarrow> bool \<Rightarrow> Instance \<Rightarrow> 'd \<Rightarrow> 'w
     \<Rightarrow> (Instance \<times> goerr option) \<times> 'w" where
  "execute orc rt c recovering inst d w =
     (case valid_cursor (o_def orc) inst of
        Some e \<Rightarrow> ((inst, Some e), w)
      | None \<Rightarrow>
          (let (now, w1) = time_Now rt w
           in if si_LeaseUntil inst > now then ((inst, Some ErrInstanceBusy), w1)
              else let (rc, w2) = WithMaxTimeout rt (Some c) (o_executionTimeout orc) w1;
                       deadline = (case ctx_deadline rt rc of Some t \<Rightarrow> t | None \<Rightarrow> 0);
                       (owner, w3) = rt_owner rt w2;
                       inst1 = inst\<lparr>si_LeaseOwner := owner, si_LeaseUntil := deadline + o_leaseGrace orc\<rparr>
                   in case persist orc rt rc inst1 w3 of
                        (Inl e, w4) \<Rightarrow> ((inst1, Some e), w4)
                      | (Inr inst2, w4) \<Rightarrow>
                          release orc rt c owner (execute_owned orc rt rc recovering now inst2 d w4)))"

subsubsection \<open>Entry points\<close>

definition decode_data :: "('d, 'w) Orchestrator \<Rightarrow> Instance \<Rightarrow> goerr + 'd" where
  "decode_data orc inst = (if si_Data inst \<noteq> '''' then o_deserialize orc (si_Data inst) else Inr (o_zero orc))"

definition Resume ::
  "('d, 'w) Orchestrator \<Rightarrow> 'w saga_rt \<Rightarrow> gocx \<Rightarrow> string \<Rightarrow> 'w \<Rightarrow> (Instance option \<times> goerr option) \<times> 'w" where
  "Resume orc rt c key w =
     (if key = '''' then ((None, Some ErrEmptyID), w)
      else case bounded_Get orc rt c key w of
        (Inl e, w1) \<Rightarrow> ((None, Some e), w1)
      | (Inr inst, w1) \<Rightarrow>
          (if si_Definition inst \<noteq> d_name (o_def orc) then ((None, Some ErrDefinitionNotFound), w1)
           else if IsTerminal (si_Status inst) then ((Some inst, Some ErrAlreadyTerminal), w1)
           else case decode_data orc inst of
             Inl e \<Rightarrow> ((None, WrapOperation (Some e) ''deserialize saga data''), w1)
           | Inr d \<Rightarrow>
               (case execute orc rt c False inst d w1 of
                  ((inst1, err), w2) \<Rightarrow> ((Some inst1, err), w2))))"

definition new_instance :: "('d, 'w) Orchestrator \<Rightarrow> string \<Rightarrow> string \<Rightarrow> gotime \<Rightarrow> Instance" where
  "new_instance orc key payload now =
     \<lparr> si_ID = key, si_Definition = d_name (o_def orc), si_Status = StatusRunning, si_Stage = 0,
       si_PendingSteps = [], si_Data = payload, si_Steps = [], si_CreatedAt = now, si_UpdatedAt = now,
       si_Deadline = (if o_sagaTimeout orc > 0 then now + o_sagaTimeout orc else 0),
       si_LeaseOwner = '''', si_LeaseUntil = 0, si_Version = 0, si_LastError = '''' \<rparr>"

definition Start ::
  "('d, 'w) Orchestrator \<Rightarrow> 'w saga_rt \<Rightarrow> gocx \<Rightarrow> string \<Rightarrow> 'd \<Rightarrow> 'w
     \<Rightarrow> (Instance option \<times> goerr option) \<times> 'w" where
  "Start orc rt c key d w =
     (if key = '''' then ((None, Some ErrEmptyID), w)
      else case o_serialize orc d of
        Inl e \<Rightarrow> ((None, WrapOperation (Some e) ''serialize saga data''), w)
      | Inr payload \<Rightarrow>
          (let (now, w1) = time_Now rt w; inst = new_instance orc key payload now
           in case bounded_Create orc rt c inst w1 of
                (Some e, w2) \<Rightarrow>
                  (if err_is e ''ErrInstanceExists'' then Resume orc rt c key w2
                   else ((None, WrapOperation (Some e) ''create saga instance''), w2))
              | (None, w2) \<Rightarrow>
                  (case execute orc rt c False inst d w2 of
                     ((inst1, err), w3) \<Rightarrow> ((Some inst1, err), w3))))"

subsubsection \<open>Recovery (recovery.go)\<close>

definition recoverInstance ::
  "('d, 'w) Orchestrator \<Rightarrow> 'w saga_rt \<Rightarrow> gocx \<Rightarrow> Instance \<Rightarrow> 'w \<Rightarrow> goerr option \<times> 'w" where
  "recoverInstance orc rt c candidate w =
     (case bounded_Get orc rt c (si_ID candidate) w of
        (Inl e, w1) \<Rightarrow> (Some e, w1)
      | (Inr inst, w1) \<Rightarrow>
          (if IsTerminal (si_Status inst) \<or> si_Definition inst \<noteq> d_name (o_def orc) then (None, w1)
           else case decode_data orc inst of
             Inl e \<Rightarrow> (Some e, w1)
           | Inr d \<Rightarrow>
               (case execute orc rt c True inst d w1 of
                  ((_, None), w2) \<Rightarrow> (None, w2)
                | ((_, Some e), w2) \<Rightarrow>
                    (if err_is e ''ErrAlreadyTerminal'' \<or> err_is e ''ErrVersionConflict''
                        \<or> err_is e ''ErrInstanceBusy'' then (None, w2)
                     else (Some e, w2)))))"

fun recover_all ::
  "('d, 'w) Orchestrator \<Rightarrow> 'w saga_rt \<Rightarrow> gocx \<Rightarrow> Instance list \<Rightarrow> goerr list \<Rightarrow> 'w \<Rightarrow> goerr option \<times> 'w" where
  "recover_all orc rt c [] failures w = (errors_Join (map Some failures @ [ctx_err rt c w]), w)"
| "recover_all orc rt c (inst # insts) failures w =
     (case ctx_err rt c w of
        Some e \<Rightarrow> (Some e, w)
      | None \<Rightarrow>
          (if si_Definition inst \<noteq> d_name (o_def orc) then recover_all orc rt c insts failures w
           else case recoverInstance orc rt c inst w of
             (Some e, w1) \<Rightarrow> recover_all orc rt c insts (failures @ [e]) w1
           | (None, w1) \<Rightarrow> recover_all orc rt c insts failures w1))"

definition runRecoveryCycleInternal ::
  "('d, 'w) Orchestrator \<Rightarrow> 'w saga_rt \<Rightarrow> gocx \<Rightarrow> 'w \<Rightarrow> goerr option \<times> 'w" where
  "runRecoveryCycleInternal orc rt c w =
     (if (case o_leader orc of Some isLeader \<Rightarrow> \<not> isLeader w | None \<Rightarrow> False) then (None, w)
      else let (rc, w1) = WithMaxTimeout rt (Some c) (o_recoveryTimeout orc) w;
               (now, w2) = time_Now rt w1
           in case bounded_FetchRecoverable orc rt rc (d_name (o_def orc)) now (o_recoveryBatchSize orc) w2 of
                (Inl e, w3) \<Rightarrow> (WrapOperation (Some e) ''fetch recoverable saga instances'', w3)
              | (Inr insts, w3) \<Rightarrow>
                  (if insts = [] then (None, w3) else recover_all orc rt rc insts [] w3))"

end
