(* ===== verification/SagaProtocol.thy ===== *)
theory SagaProtocol
  imports SagaModel
begin

text \<open>
  What the stored record of a saga may do: the state machine drawn in the comment of
  \<^verbatim>\<open>src/data/saga/storage.go\<close>, with the cursor, the pending steps and the execution history.
  One step is one successful write of the record; it raises the version by one. The orchestrator
  is shown to make only such steps in \<open>SagaRefine\<close>.
\<close>

subsection \<open>The history of a record\<close>

type_synonym step_event = "string \<times> int \<times> StepStatus"

definition rec_key :: "StepRecord \<Rightarrow> step_event" where
  "rec_key r = (sr_Name r, sr_Stage r, sr_Status r)"

definition stage_log :: "('d, 'w) Definition \<Rightarrow> nat \<Rightarrow> StepStatus \<Rightarrow> step_event list" where
  "stage_log D k status = map (\<lambda>s. (sp_name s, int k, status)) (stg_steps (d_stages D ! k))"

definition pending_log :: "('d, 'w) Definition \<Rightarrow> nat \<Rightarrow> int list \<Rightarrow> step_event list" where
  "pending_log D k ps =
     map (\<lambda>i. (sp_name (stg_steps (d_stages D ! k) ! nat i), int k, StepCompensated)) ps"

definition forward_log :: "('d, 'w) Definition \<Rightarrow> nat \<Rightarrow> step_event list" where
  "forward_log D m = concat (map (\<lambda>k. stage_log D k StepCompleted) [0..<m])"

definition backward_log :: "('d, 'w) Definition \<Rightarrow> nat \<Rightarrow> nat \<Rightarrow> step_event list" where
  "backward_log D m k = concat (map (\<lambda>k. stage_log D k StepCompensated) (rev [k..<m]))"

definition valid_pending :: "('d, 'w) Definition \<Rightarrow> nat \<Rightarrow> int list \<Rightarrow> bool" where
  "valid_pending D k ps \<longleftrightarrow>
     sorted_wrt (<) ps \<and> (\<forall>i \<in> set ps. 0 \<le> i \<and> i < int (length (stg_steps (d_stages D ! k))))"

definition stage_count :: "('d, 'w) Definition \<Rightarrow> int" where
  "stage_count D = int (length (d_stages D))"

subsection \<open>Steps\<close>

inductive sg_step :: "('d, 'w) Definition \<Rightarrow> Instance \<Rightarrow> Instance \<Rightarrow> bool" for D where
  lease: "j = i\<lparr>si_LeaseOwner := ow, si_LeaseUntil := t, si_Version := si_Version i + 1\<rparr>
    \<Longrightarrow> sg_step D i j"
| intent: "si_Status i = StatusRunning \<Longrightarrow> 0 \<le> si_Stage i \<Longrightarrow> si_Stage i < stage_count D
    \<Longrightarrow> j = i\<lparr>si_PendingSteps := map int [0..<length (stg_steps (d_stages D ! nat (si_Stage i)))],
              si_Version := si_Version i + 1\<rparr>
    \<Longrightarrow> sg_step D i j"
| commit: "si_Status i = StatusRunning \<Longrightarrow> 0 \<le> si_Stage i \<Longrightarrow> si_Stage i < stage_count D
    \<Longrightarrow> map rec_key recs = stage_log D (nat (si_Stage i)) StepCompleted
    \<Longrightarrow> j = i\<lparr>si_Steps := si_Steps i @ recs, si_PendingSteps := [], si_Stage := si_Stage i + 1,
              si_UpdatedAt := t, si_Data := b, si_Version := si_Version i + 1\<rparr>
    \<Longrightarrow> sg_step D i j"
| abort: "si_Status i = StatusRunning \<Longrightarrow> 0 \<le> si_Stage i \<Longrightarrow> si_Stage i < stage_count D
    \<Longrightarrow> si_Stage i < d_pivotIdx D \<Longrightarrow> valid_pending D (nat (si_Stage i)) ps
    \<Longrightarrow> j = i\<lparr>si_Status := StatusCompensating, si_PendingSteps := ps, si_LastError := m,
              si_UpdatedAt := t, si_Data := b, si_Version := si_Version i + 1\<rparr>
    \<Longrightarrow> sg_step D i j"
| give_up: "si_Status i = StatusRunning \<Longrightarrow> 0 \<le> si_Stage i \<Longrightarrow> si_Stage i < stage_count D
    \<Longrightarrow> d_pivotIdx D \<le> si_Stage i \<Longrightarrow> valid_pending D (nat (si_Stage i)) ps
    \<Longrightarrow> j = i\<lparr>si_Status := StatusFailed, si_PendingSteps := ps, si_LastError := m,
              si_UpdatedAt := t, si_Data := b, si_Version := si_Version i + 1\<rparr>
    \<Longrightarrow> sg_step D i j"
| complete: "si_Status i = StatusRunning \<Longrightarrow> stage_count D \<le> si_Stage i
    \<Longrightarrow> j = i\<lparr>si_Status := StatusCompleted, si_UpdatedAt := t, si_Version := si_Version i + 1\<rparr>
    \<Longrightarrow> sg_step D i j"
| timeout: "si_Status i = StatusRunning \<Longrightarrow> si_Stage i < d_pivotIdx D
    \<Longrightarrow> j = i\<lparr>si_Status := StatusCompensating, si_LastError := m, si_Version := si_Version i + 1\<rparr>
    \<Longrightarrow> sg_step D i j"
| undo_pending: "si_Status i = StatusCompensating \<Longrightarrow> si_PendingSteps i \<noteq> []
    \<Longrightarrow> map rec_key recs = pending_log D (nat (si_Stage i)) (si_PendingSteps i)
    \<Longrightarrow> j = i\<lparr>si_Steps := si_Steps i @ recs, si_PendingSteps := [], si_Data := b,
              si_Version := si_Version i + 1\<rparr>
    \<Longrightarrow> sg_step D i j"
| undo_stage: "si_Status i = StatusCompensating \<Longrightarrow> si_PendingSteps i = [] \<Longrightarrow> 0 < si_Stage i
    \<Longrightarrow> map rec_key recs = stage_log D (nat (si_Stage i - 1)) StepCompensated
    \<Longrightarrow> j = i\<lparr>si_Steps := si_Steps i @ recs, si_Stage := si_Stage i - 1, si_UpdatedAt := t,
              si_Data := b, si_Version := si_Version i + 1\<rparr>
    \<Longrightarrow> sg_step D i j"
| undone: "si_Status i = StatusCompensating \<Longrightarrow> si_PendingSteps i = [] \<Longrightarrow> si_Stage i \<le> 0
    \<Longrightarrow> j = i\<lparr>si_Status := StatusCompensated, si_UpdatedAt := t, si_Version := si_Version i + 1\<rparr>
    \<Longrightarrow> sg_step D i j"
| undo_failed: "si_Status i = StatusCompensating
    \<Longrightarrow> j = i\<lparr>si_Status := StatusFailed, si_LastError := m, si_UpdatedAt := t,
              si_Version := si_Version i + 1\<rparr>
    \<Longrightarrow> sg_step D i j"

abbreviation sg_path :: "('d, 'w) Definition \<Rightarrow> Instance \<Rightarrow> Instance \<Rightarrow> bool" where
  "sg_path D \<equiv> (sg_step D)\<^sup>*\<^sup>*"

definition sg_initial :: "('d, 'w) Definition \<Rightarrow> Instance \<Rightarrow> bool" where
  "sg_initial D i \<longleftrightarrow>
     si_Definition i = d_name D \<and> si_Status i = StatusRunning \<and> si_Stage i = 0
     \<and> si_PendingSteps i = [] \<and> si_Steps i = [] \<and> si_Version i = 0"

subsection \<open>Versions identify records\<close>

lemma sg_step_keys:
  "sg_step D i j \<Longrightarrow> si_Version j = si_Version i + 1 \<and> si_ID j = si_ID i
     \<and> si_Definition j = si_Definition i \<and> si_CreatedAt j = si_CreatedAt i
     \<and> si_Deadline j = si_Deadline i"
  by (induction rule: sg_step.induct) simp_all

lemma sg_path_keys:
  "sg_path D i j \<Longrightarrow> si_Version i \<le> si_Version j \<and> si_ID j = si_ID i
     \<and> si_Definition j = si_Definition i \<and> (si_Version i = si_Version j \<longrightarrow> j = i)"
proof (induction rule: rtranclp_induct)
  case (step j k)
  then show ?case using sg_step_keys [OF step.hyps(2)] by simp
qed simp

subsection \<open>The invariant of a record\<close>

definition rollback_log :: "('d, 'w) Definition \<Rightarrow> Instance \<Rightarrow> bool" where
  "rollback_log D i \<longleftrightarrow>
     (\<exists>m ps. int m < d_pivotIdx D \<and> si_Stage i \<le> int m \<and> valid_pending D m ps
        \<and> (si_PendingSteps i \<noteq> [] \<longrightarrow> si_Stage i = int m \<and> ps = si_PendingSteps i)
        \<and> map rec_key (si_Steps i) =
            forward_log D m @ (if si_PendingSteps i = [] then pending_log D m ps else [])
            @ backward_log D m (nat (si_Stage i)))"

definition sg_wf :: "('d, 'w) Definition \<Rightarrow> Instance \<Rightarrow> bool" where
  "sg_wf D i \<longleftrightarrow>
     0 \<le> si_Stage i \<and> si_Stage i \<le> stage_count D \<and> valid_pending D (nat (si_Stage i)) (si_PendingSteps i)
     \<and> (si_PendingSteps i \<noteq> [] \<longrightarrow> si_Stage i < stage_count D)
     \<and> (case si_Status i of
          StatusRunning \<Rightarrow> map rec_key (si_Steps i) = forward_log D (nat (si_Stage i))
        | StatusCompleted \<Rightarrow> si_Stage i = stage_count D
            \<and> map rec_key (si_Steps i) = forward_log D (length (d_stages D))
        | StatusCompensating \<Rightarrow> rollback_log D i
        | StatusCompensated \<Rightarrow> si_Stage i = 0 \<and> si_PendingSteps i = [] \<and> rollback_log D i
        | StatusFailed \<Rightarrow> (d_pivotIdx D \<le> si_Stage i \<and> si_Stage i < stage_count D
              \<and> map rec_key (si_Steps i) = forward_log D (nat (si_Stage i)))
            \<or> rollback_log D i)"

lemma forward_log_Suc: "forward_log D (Suc k) = forward_log D k @ stage_log D k StepCompleted"
  by (simp add: forward_log_def)

lemma forward_log_0 [simp]: "forward_log D 0 = []"
  by (simp add: forward_log_def)

lemma backward_log_same [simp]: "backward_log D m m = []"
  by (simp add: backward_log_def)

lemma backward_log_step:
  "k < m \<Longrightarrow> backward_log D m k = backward_log D m (Suc k) @ stage_log D k StepCompensated"
  by (simp add: backward_log_def upt_rec [of k m])

lemma valid_pending_Nil [simp]: "valid_pending D k []"
  by (simp add: valid_pending_def)

lemma valid_pending_all: "valid_pending D k (map int [0..<length (stg_steps (d_stages D ! k))])"
  by (auto simp: valid_pending_def sorted_wrt_map)

lemma pending_log_Nil [simp]: "pending_log D k [] = []"
  by (simp add: pending_log_def)

lemma rollback_start:
  assumes "map rec_key (si_Steps i) = forward_log D (nat (si_Stage i))" and "0 \<le> si_Stage i"
    and "si_Stage i < d_pivotIdx D" and "valid_pending D (nat (si_Stage i)) (si_PendingSteps i)"
  shows "rollback_log D i"
  unfolding rollback_log_def
  using assms by (intro exI [of _ "nat (si_Stage i)"] exI [of _ "si_PendingSteps i"]) simp

lemma rollback_cong:
  assumes "rollback_log D i" and "si_Stage j = si_Stage i" and "si_PendingSteps j = si_PendingSteps i"
    and "si_Steps j = si_Steps i"
  shows "rollback_log D j"
  using assms unfolding rollback_log_def by simp

lemma rollback_pending:
  assumes "rollback_log D i" and "si_PendingSteps i \<noteq> []"
    and "map rec_key recs = pending_log D (nat (si_Stage i)) (si_PendingSteps i)"
    and "si_Stage j = si_Stage i" and "si_PendingSteps j = []" and "si_Steps j = si_Steps i @ recs"
  shows "rollback_log D j"
proof -
  obtain m where "int m < d_pivotIdx D" "si_Stage i = int m" "valid_pending D m (si_PendingSteps i)"
    "map rec_key (si_Steps i) = forward_log D m"
    using assms(1,2) unfolding rollback_log_def by auto
  then show ?thesis
    unfolding rollback_log_def
    using assms(3-6) by (intro exI [of _ m] exI [of _ "si_PendingSteps i"]) simp
qed

lemma rollback_stage:
  assumes "rollback_log D i" and "si_PendingSteps i = []" and "0 < si_Stage i"
    and "map rec_key recs = stage_log D (nat (si_Stage i - 1)) StepCompensated"
    and "si_Stage j = si_Stage i - 1" and "si_PendingSteps j = []" and "si_Steps j = si_Steps i @ recs"
  shows "rollback_log D j"
proof -
  obtain m ps where m: "int m < d_pivotIdx D" "si_Stage i \<le> int m" "valid_pending D m ps"
    "map rec_key (si_Steps i) = forward_log D m @ pending_log D m ps @ backward_log D m (nat (si_Stage i))"
    using assms(1,2) unfolding rollback_log_def by auto
  have "backward_log D m (nat (si_Stage i - 1))
      = backward_log D m (nat (si_Stage i)) @ stage_log D (nat (si_Stage i - 1)) StepCompensated"
    using backward_log_step [of "nat (si_Stage i - 1)" m D] m(2) assms(3) by (simp add: Suc_nat_eq_nat_zadd1)
  then show ?thesis
    unfolding rollback_log_def using m assms(4-7) by (intro exI [of _ m] exI [of _ ps]) simp
qed

lemma sg_wf_initial: "sg_initial D i \<Longrightarrow> sg_wf D i"
  by (simp add: sg_initial_def sg_wf_def stage_count_def)

lemma sg_wf_step:
  assumes "sg_step D i j" and wf: "sg_wf D i"
  shows "sg_wf D j"
  using assms(1)
proof cases
  case (lease ow t)
  then show ?thesis
    using wf rollback_cong [of D i j] unfolding sg_wf_def by (simp split: Status.splits) blast
next
  case intent
  then show ?thesis
    using wf valid_pending_all [of D "nat (si_Stage i)"] unfolding sg_wf_def by simp
next
  case (commit recs t b)
  then show ?thesis
    using wf forward_log_Suc [of D "nat (si_Stage i)"] unfolding sg_wf_def
    by (simp add: nat_add_distrib)
next
  case (abort ps m t b)
  then show ?thesis
    using wf rollback_start [of j D] unfolding sg_wf_def by simp
next
  case (give_up ps m t b)
  then show ?thesis using wf unfolding sg_wf_def by simp
next
  case (complete t)
  then show ?thesis using wf unfolding sg_wf_def stage_count_def by simp
next
  case (timeout m)
  then show ?thesis using wf rollback_start [of j D] unfolding sg_wf_def by simp
next
  case (undo_pending recs b)
  then show ?thesis using wf rollback_pending [of D i recs j] unfolding sg_wf_def by simp
next
  case (undo_stage recs t b)
  then show ?thesis using wf rollback_stage [of D i recs j] unfolding sg_wf_def by simp
next
  case (undone t)
  then show ?thesis using wf rollback_cong [of D i j] unfolding sg_wf_def by simp
next
  case (undo_failed m t)
  then show ?thesis using wf rollback_cong [of D i j] unfolding sg_wf_def by simp
qed

lemma sg_wf_path: "sg_path D i j \<Longrightarrow> sg_wf D i \<Longrightarrow> sg_wf D j"
  by (induction rule: rtranclp_induct) (auto intro: sg_wf_step)

lemma sg_path_wf: "sg_initial D i \<Longrightarrow> sg_path D i j \<Longrightarrow> sg_wf D j"
  by (rule sg_wf_path [OF _ sg_wf_initial])

subsection \<open>Phases a record never leaves\<close>

lemma sg_step_terminal:
  assumes "sg_step D i j" and "IsTerminal (si_Status i)"
  shows "si_Status j = si_Status i \<and> si_Stage j = si_Stage i \<and> si_Steps j = si_Steps i
    \<and> si_Data j = si_Data i \<and> si_PendingSteps j = si_PendingSteps i \<and> si_LastError j = si_LastError i"
  using assms by cases (simp_all add: IsTerminal_def)

lemma sg_path_terminal:
  "sg_path D i j \<Longrightarrow> IsTerminal (si_Status i)
   \<Longrightarrow> si_Status j = si_Status i \<and> si_Stage j = si_Stage i \<and> si_Steps j = si_Steps i
    \<and> si_Data j = si_Data i \<and> si_PendingSteps j = si_PendingSteps i \<and> si_LastError j = si_LastError i"
proof (induction rule: rtranclp_induct)
  case (step j k)
  then show ?case using sg_step_terminal [OF step.hyps(2)] by simp
qed simp

definition past_pivot :: "('d, 'w) Definition \<Rightarrow> Instance \<Rightarrow> bool" where
  "past_pivot D i \<longleftrightarrow>
     (si_Status i = StatusRunning \<and> d_pivotIdx D \<le> si_Stage i)
     \<or> si_Status i = StatusCompleted \<or> si_Status i = StatusFailed"

lemma sg_step_past_pivot:
  assumes "sg_step D i j" and "past_pivot D i"
  shows "past_pivot D j"
  using assms by cases (auto simp: past_pivot_def)

lemma sg_path_past_pivot: "sg_path D i j \<Longrightarrow> past_pivot D i \<Longrightarrow> past_pivot D j"
  by (induction rule: rtranclp_induct) (auto intro: sg_step_past_pivot)

end
