(* ===== verification/SagaRefine.thy ===== *)
theory SagaRefine
  imports SagaProtocol
begin

text \<open>
  The orchestrator implements the protocol of \<open>SagaProtocol\<close>. The store is an interface, the
  locale \<open>saga_store\<close>; a failed write may or may not have reached the store. Other drivers of
  the same store may act whenever time passes or a callback runs, as long as they too follow the
  protocol; the optimistic version check then makes every write of this driver a step from the
  record it last saw.
\<close>

subsection \<open>Evolution of the store\<close>

definition evolves :: "('d, 'w) Definition \<Rightarrow> Instance option \<Rightarrow> Instance option \<Rightarrow> bool" where
  "evolves D a b =
     (case a of
        None \<Rightarrow>
          (case b of
             None \<Rightarrow> True
           | Some j \<Rightarrow> (si_Definition j = d_name D \<longrightarrow> (\<exists>i. sg_initial D i \<and> sg_path D i j)))
      | Some i \<Rightarrow>
          (case b of
             None \<Rightarrow> False
           | Some j \<Rightarrow>
               (if si_Definition i = d_name D then sg_path D i j else si_Definition j \<noteq> d_name D)))"

definition guar ::
  "('d, 'w) Definition \<Rightarrow> ('w \<Rightarrow> string \<Rightarrow> Instance option) \<Rightarrow> 'w \<Rightarrow> 'w \<Rightarrow> bool" where
  "guar D view w w' \<longleftrightarrow> (\<forall>key. evolves D (view w key) (view w' key))"

lemma evolves_refl [simp]: "evolves D a a"
  by (simp add: evolves_def split: option.split)

lemma evolves_trans: "evolves D a b \<Longrightarrow> evolves D b c \<Longrightarrow> evolves D a c"
  by (auto simp: evolves_def dest: sg_path_keys split: option.splits if_splits intro: rtranclp_trans)

lemma guar_refl [simp]: "guar D view w w"
  by (auto simp: guar_def evolves_def split: option.split)

lemma guar_trans: "guar D view w w1 \<Longrightarrow> guar D view w1 w2 \<Longrightarrow> guar D view w w2"
  unfolding guar_def using evolves_trans by blast

lemma guar_view: "view w' = view w \<Longrightarrow> guar D view w w'"
  by (auto simp: guar_def evolves_def split: option.split)

lemma evolves_from_own:
  assumes "evolves D (Some p) b" and "si_Definition p = d_name D"
  shows "\<exists>j. b = Some j \<and> sg_path D p j"
  using assms by (auto simp: evolves_def split: option.splits)

subsection \<open>What the rest of the process may do\<close>

text \<open>
  Everything that runs beside the store keeps it well formed and lets its records evolve by the
  protocol only: the passing of time (other drivers act meanwhile), the callbacks of the steps
  and the dead-letter hook.
\<close>

definition env_safe ::
  "('d, 'w) Definition \<Rightarrow> ('w \<Rightarrow> string \<Rightarrow> Instance option) \<Rightarrow> ('w \<Rightarrow> bool) \<Rightarrow> ('w \<Rightarrow> 'w) \<Rightarrow> bool" where
  "env_safe D view good f \<longleftrightarrow> (\<forall>w. good w \<longrightarrow> good (f w) \<and> guar D view w (f w))"

definition step_safe ::
  "('d, 'w) Definition \<Rightarrow> ('w \<Rightarrow> string \<Rightarrow> Instance option) \<Rightarrow> ('w \<Rightarrow> bool) \<Rightarrow> ('d, 'w) step_fn \<Rightarrow> bool" where
  "step_safe D view good fn \<longleftrightarrow> (\<forall>c ex d. env_safe D view good (\<lambda>w. snd (snd (fn c ex d w))))"

definition saga_env ::
  "('w \<Rightarrow> string \<Rightarrow> Instance option) \<Rightarrow> ('w \<Rightarrow> bool) \<Rightarrow> ('d, 'w) Orchestrator \<Rightarrow> 'w saga_rt \<Rightarrow> bool" where
  "saga_env view good orc rt \<longleftrightarrow>
     (let D = o_def orc; ok = env_safe D view good
      in ok (rt_tick rt) \<and> ok (\<lambda>w. snd (rt_owner rt w)) \<and> (\<forall>d. ok (\<lambda>w. snd (rt_timer rt d w)))
         \<and> ok (\<lambda>w. snd (rt_jitter rt w))
         \<and> (\<forall>stg \<in> set (d_stages D). \<forall>s \<in> set (stg_steps stg).
              step_safe D view good (sp_action s)
              \<and> (\<forall>fn. sp_compensation s = Some fn \<longrightarrow> step_safe D view good fn))
         \<and> (\<forall>f. o_onDeadLetter orc = Some f \<longrightarrow> (\<forall>i. ok (\<lambda>w. snd (f i w)))))"

subsection \<open>The storage contract\<close>

locale saga_store =
  fixes st :: "'w saga_storage"
    and view :: "'w \<Rightarrow> string \<Rightarrow> Instance option"
    and good :: "'w \<Rightarrow> bool"
  assumes keyed: "good w \<Longrightarrow> view w key = Some i \<Longrightarrow> si_ID i = key"
    and create: "good w \<Longrightarrow> ss_Create st c i w = (r, w') \<Longrightarrow>
      good w' \<and> (if r = None then view w (si_ID i) = None \<and> view w' = (view w)(si_ID i \<mapsto> i)
                 else view w' = view w \<or> (view w (si_ID i) = None \<and> view w' = (view w)(si_ID i \<mapsto> i)))"
    and get: "good w \<Longrightarrow> ss_Get st c key w = (g, w') \<Longrightarrow>
      good w' \<and> view w' = view w \<and> (\<forall>i. g = Inr i \<longrightarrow> view w key = Some i)"
    and update: "good w \<Longrightarrow> ss_Update st c i w = (u, w') \<Longrightarrow>
      good w'
      \<and> ((\<exists>e. u = Inl e) \<and> view w' = view w
         \<or> (u = Inr (si_Version i + 1) \<or> (\<exists>e. u = Inl e))
           \<and> (\<exists>cur. view w (si_ID i) = Some cur \<and> si_Version cur = si_Version i)
           \<and> view w' = (view w)(si_ID i \<mapsto> i\<lparr>si_Version := si_Version i + 1\<rparr>))"
    and fetch: "good w \<Longrightarrow> ss_FetchRecoverable st c d now limit w = (l, w') \<Longrightarrow>
      good w' \<and> view w' = view w"
begin

definition safe :: "('d, 'w) Definition \<Rightarrow> 'w \<Rightarrow> 'w \<Rightarrow> bool" where
  "safe D w w' \<longleftrightarrow> good w' \<and> guar D view w w'"

definition known :: "('d, 'w) Definition \<Rightarrow> Instance \<Rightarrow> 'w \<Rightarrow> bool" where
  "known D p w \<longleftrightarrow> si_Definition p = d_name D \<and> evolves D (Some p) (view w (si_ID p))"

lemma safe_refl: "good w \<Longrightarrow> safe D w w"
  by (simp add: safe_def)

lemma safe_trans: "safe D w w1 \<Longrightarrow> safe D w1 w2 \<Longrightarrow> safe D w w2"
  by (auto simp: safe_def intro: guar_trans)

lemma safe_good: "safe D w w' \<Longrightarrow> good w'"
  by (simp add: safe_def)

lemma known_safe: "known D p w \<Longrightarrow> safe D w w' \<Longrightarrow> known D p w'"
  unfolding known_def safe_def guar_def by (blast intro: evolves_trans)

lemma known_view: "si_Definition i = d_name D \<Longrightarrow> view w (si_ID i) = Some i \<Longrightarrow> known D i w"
  by (simp add: known_def)

lemma update_step:
  assumes "good w" and "known D p w" and "si_Version i = si_Version p" and "si_ID i = si_ID p"
    and step: "sg_step D p (i\<lparr>si_Version := si_Version i + 1\<rparr>)"
    and run: "ss_Update st c i w = (u, w')"
  shows "safe D w w' \<and> (\<forall>v. u = Inr v \<longrightarrow> v = si_Version i + 1 \<and> known D (i\<lparr>si_Version := v\<rparr>) w')"
proof -
  let ?j = "i\<lparr>si_Version := si_Version i + 1\<rparr>"
  note upd = update [OF assms(1) run]
  have dfn: "si_Definition ?j = d_name D"
    using sg_step_keys [OF step] assms(2) by (simp add: known_def)
  show ?thesis
  proof (cases "(\<exists>e. u = Inl e) \<and> view w' = view w")
    case True
    then show ?thesis using upd by (auto simp: safe_def intro: guar_view)
  next
    case False
    then obtain cur where u: "u = Inr (si_Version i + 1) \<or> (\<exists>e. u = Inl e)"
      and cur: "view w (si_ID i) = Some cur" "si_Version cur = si_Version i"
      and w': "view w' = (view w)(si_ID i \<mapsto> ?j)" and good: "good w'"
      using upd by blast
    have "sg_path D p cur"
      using evolves_from_own [of D p "view w (si_ID p)"] assms(2,4) cur(1) by (auto simp: known_def)
    then have "cur = p" using sg_path_keys cur(2) assms(3) by metis
    then have "evolves D (view w (si_ID i)) (Some ?j)"
      using cur step assms(2) by (simp add: evolves_def known_def r_into_rtranclp)
    then have "safe D w w'"
      using good w' guar_refl [of D view w] by (simp add: safe_def guar_def)
    moreover have "known D ?j w'" using dfn w' by (simp add: known_def)
    ultimately show ?thesis using u by auto
  qed
qed

end

context saga_store
begin

lemma env_safe_step: "env_safe D view good f \<Longrightarrow> good w \<Longrightarrow> safe D w (f w)"
  by (simp add: env_safe_def safe_def)

lemma env_calls:
  assumes "saga_env view good orc rt" and "good w"
  shows "safe (o_def orc) w (rt_tick rt w)" and "safe (o_def orc) w (snd (rt_owner rt w))"
    and "safe (o_def orc) w (snd (rt_timer rt dl w))" and "safe (o_def orc) w (snd (rt_jitter rt w))"
  using assms by (simp_all add: saga_env_def Let_def env_safe_def safe_def)

lemma time_Now_safe:
  assumes "saga_env view good orc rt" and "good w" and "time_Now rt w = (t, w')"
  shows "safe (o_def orc) w w'"
  using assms env_calls(1) by (auto simp: time_Now_def)

lemma WithTimeout_safe:
  assumes "saga_env view good orc rt" and "good w" and "WithTimeout rt c t w = (c', w')"
  shows "safe (o_def orc) w w'"
proof -
  have "w' = rt_tick rt w" by (rule WithTimeout_deadline(1) [OF assms(3)])
  then show ?thesis using env_calls(1) [OF assms(1,2)] by simp
qed

lemma WithMaxTimeout_safe:
  assumes env: "saga_env view good orc rt" and "good w" and "WithMaxTimeout rt (Some c) t w = (c', w')"
  shows "safe (o_def orc) w w'"
proof -
  note now = env_calls(1) [OF env assms(2)]
  show ?thesis
    using assms(3) now safe_refl [OF assms(2)] WithTimeout_safe [OF env assms(2)]
      safe_trans [OF now WithTimeout_safe [OF env safe_good [OF now]]]
    by (auto simp: WithMaxTimeout_def time_Now_def Let_def split: option.splits if_splits)
qed

lemma bounded_Get_safe:
  assumes "saga_env view good orc rt" and "o_store orc = st" and "good w"
    and "bounded_Get orc rt c key w = (g, w')"
  shows "safe (o_def orc) w w' \<and> (\<forall>i. g = Inr i \<longrightarrow> view w' key = Some i \<and> si_ID i = key)"
proof -
  obtain c1 w1 where to: "WithMaxTimeout rt (Some c) (o_storageTimeout orc) w = (c1, w1)" by fastforce
  have s1: "safe (o_def orc) w w1" by (rule WithMaxTimeout_safe [OF assms(1,3) to])
  have "ss_Get st c1 key w1 = (g, w')" using assms(2,4) to by (simp add: bounded_Get_def)
  note g = get [OF safe_good [OF s1] this]
  have "safe (o_def orc) w1 w'" using g by (simp add: safe_def guar_view)
  then show ?thesis using g s1 keyed safe_trans by (metis)
qed

lemma persist_safe:
  assumes env: "saga_env view good orc rt" and "o_store orc = st" and "good w"
    and "known (o_def orc) p w" and "si_Version i = si_Version p" and "si_ID i = si_ID p"
    and "sg_step (o_def orc) p (i\<lparr>si_Version := si_Version i + 1\<rparr>)"
    and run: "persist orc rt c i w = (r, w')"
  shows "safe (o_def orc) w w'
    \<and> (\<forall>j. r = Inr j \<longrightarrow> j = i\<lparr>si_Version := si_Version i + 1\<rparr> \<and> known (o_def orc) j w')"
proof -
  obtain c1 w1 where to: "WithMaxTimeout rt (Some c) (o_storageTimeout orc) w = (c1, w1)" by fastforce
  have s1: "safe (o_def orc) w w1" by (rule WithMaxTimeout_safe [OF env assms(3) to])
  show ?thesis
  proof (cases "ctx_err rt c1 w1")
    case (Some e)
    then show ?thesis using run to s1 by (auto simp: persist_def bounded_Update_def)
  next
    case None
    obtain u where upd: "ss_Update st c1 i w1 = (u, w')"
      using run to None assms(2)
      by (auto simp: persist_def bounded_Update_def split: prod.splits sum.splits)
    note step = update_step [OF safe_good [OF s1] known_safe [OF assms(4) s1] assms(5-7) upd]
    have "r = (case u of Inl e \<Rightarrow> Inl e | Inr v \<Rightarrow> Inr (i\<lparr>si_Version := v\<rparr>))"
      using run to None upd assms(2)
      by (auto simp: persist_def bounded_Update_def split: prod.splits sum.splits)
    then show ?thesis using step s1 safe_trans by (cases u) auto
  qed
qed

end

subsection \<open>Stages\<close>

definition steps_safe ::
  "('d, 'w) Definition \<Rightarrow> ('w \<Rightarrow> string \<Rightarrow> Instance option) \<Rightarrow> ('w \<Rightarrow> bool) \<Rightarrow> ('d, 'w) Step list \<Rightarrow> bool" where
  "steps_safe D view good steps \<longleftrightarrow>
     (\<forall>s \<in> set steps. step_safe D view good (sp_action s)
        \<and> (\<forall>fn. sp_compensation s = Some fn \<longrightarrow> step_safe D view good fn))"

text \<open>\<open>runtime_keeps rt steps P\<close>: nothing that runs during a stage of these steps invalidates \<open>P\<close>.\<close>

definition runtime_keeps :: "'w saga_rt \<Rightarrow> ('d, 'w) Step list \<Rightarrow> ('w \<Rightarrow> bool) \<Rightarrow> bool" where
  "runtime_keeps rt steps P \<longleftrightarrow>
     (\<forall>w. P w \<longrightarrow> P (rt_tick rt w) \<and> P (snd (rt_jitter rt w)) \<and> (\<forall>dl. P (snd (rt_timer rt dl w)))
        \<and> (\<forall>s \<in> set steps. \<forall>c ex d. P (snd (snd (sp_action s c ex d w)))
             \<and> (\<forall>fn. sp_compensation s = Some fn \<longrightarrow> P (snd (snd (fn c ex d w))))))"

definition fn_keeps :: "('d, 'w) step_fn \<Rightarrow> ('w \<Rightarrow> bool) \<Rightarrow> bool" where
  "fn_keeps fn P \<longleftrightarrow> (\<forall>c ex d w. P w \<longrightarrow> P (snd (snd (fn c ex d w))))"

lemma WithMaxTimeout_keeps:
  assumes "\<And>w. P w \<Longrightarrow> P (rt_tick rt w)" and "P w"
  shows "P (snd (WithMaxTimeout rt c t w))"
  using assms by (auto simp: WithMaxTimeout_def WithTimeout_def time_Now_def Let_def split: option.split)

lemma step_call_keeps:
  assumes "runtime_keeps rt steps P" and "fn_keeps fn P" and "P w"
  shows "P (snd (snd (snd (step_call rt c ex what name t fn (n, d, w)))))"
proof -
  obtain c1 w1 where to: "WithMaxTimeout rt (Some c) t w = (c1, w1)" by fastforce
  have "P w1" using WithMaxTimeout_keeps [of P rt w "Some c" t] assms(1,3) to by (simp add: runtime_keeps_def)
  then have "P (snd (snd (fn c1 (withStep ex name) d w1)))" using assms(2) by (simp add: fn_keeps_def)
  then show ?thesis using to by (simp add: step_call_def Let_def case_prod_beta)
qed

lemma retry_step_keeps:
  assumes rk: "runtime_keeps rt steps P" and "fn_keeps fn P" and "P w"
  shows "P (snd (snd (snd (retry_capped (retryOptions orc rt policy) (step_ctx rt c)
                (step_call rt c ex what name t fn) (n, d, w)))))"
proof -
  let ?I = "\<lambda>sw. P (snd (snd sw))"
  have "?I (snd (step_call rt c ex what name t fn sw))" if "?I sw" for sw
    using step_call_keeps [OF assms(1,2), of "snd (snd sw)" c ex what name t "fst sw" "fst (snd sw)"] that
    by simp
  then have "retry_keeps (retryOptions orc rt policy) (step_ctx rt c) (step_call rt c ex what name t fn) ?I"
    using rk by (auto simp: retry_keeps_def retryOptions_def step_ctx_def time_Now_def runtime_keeps_def
        Let_def case_prod_beta)
  from retry_capped_keeps [OF this] show ?thesis using assms(3) by simp
qed

lemma runStep_keeps:
  assumes "runtime_keeps rt steps P" and "s \<in> set steps" and "P w"
  shows "P (snd (snd (snd (runStep orc rt c ex s d w))))"
proof -
  have "fn_keeps (sp_action s) P" using assms(1,2) by (auto simp: runtime_keeps_def fn_keeps_def)
  from retry_step_keeps [OF assms(1) this assms(3)] show ?thesis
    by (simp add: runStep_def Let_def case_prod_beta)
qed

lemma compensateStep_keeps:
  assumes "runtime_keeps rt steps P" and "s \<in> set steps" and "P w"
  shows "P (snd (snd (snd (compensateStep orc rt c ex s d w))))"
proof (cases "sp_compensation s")
  case None
  then show ?thesis using assms(3) by (simp add: compensateStep_def)
next
  case (Some fn)
  then have "fn_keeps fn P" using assms(1,2) by (auto simp: runtime_keeps_def fn_keeps_def)
  from retry_step_keeps [OF assms(1) this assms(3)] show ?thesis
    using Some by (simp add: compensateStep_def Let_def case_prod_beta)
qed

definition stage_run ::
  "('d, 'w) Orchestrator \<Rightarrow> 'w saga_rt \<Rightarrow> Execution \<Rightarrow> bool \<Rightarrow> gocx \<Rightarrow> ('d, 'w) Step \<Rightarrow> 'd \<Rightarrow> 'w
     \<Rightarrow> nat \<times> goerr option \<times> 'd \<times> 'w" where
  "stage_run orc rt ex b = (\<lambda>c. if b then compensateStep orc rt c ex else runStep orc rt c ex)"

lemma stage_run_keeps:
  assumes "runtime_keeps rt steps P" and "s \<in> set steps" and "P w"
  shows "P (snd (snd (snd (stage_run orc rt ex b c s d w))))"
  using runStep_keeps [OF assms] compensateStep_keeps [OF assms] by (simp add: stage_run_def)

lemma stage_after [simp]: "batch_after (stage_options orc b) i r w = w"
  by (simp add: batch_after_def stage_options_def split: option.split)

lemma runStage_succeeded:
  assumes "runStage orc rt c ex steps b d w = (attempts, succeeded, err, d', w')"
  shows "sorted_wrt (<) succeeded \<and> (\<forall>i \<in> set succeeded. 0 \<le> i \<and> i < int (length steps))"
proof -
  have "sorted_wrt (<) (map int (filter P [0..<n]))" for P n
    by (simp add: sorted_wrt_map sorted_wrt_filter)
  moreover have "\<forall>i \<in> set (map int (filter P [0..<n])). 0 \<le> i \<and> i < int n" for P n
    by auto
  ultimately show ?thesis
    using assms by (fastforce simp: runStage_def Let_def split: prod.splits if_splits)
qed

lemma stage_item_keeps:
  assumes "runtime_keeps rt steps P" and "i < length steps" and "P (snd (snd (snd sw)))"
    and "stage_item (stage_run orc rt ex b) c steps cc i sw = (r, sw1)"
  shows "P (snd (snd (snd sw1)))"
proof -
  obtain at su d w where sw: "sw = (at, su, d, w)" by (metis surj_pair)
  show ?thesis
    using stage_run_keeps [OF assms(1) nth_mem [OF assms(2)], of w orc ex b "WithCancel c cc" d] assms(3,4) sw
    by (auto simp: stage_item_def Let_def split: prod.splits)
qed

lemma runStage_as_run:
  "runStage orc rt c ex steps b d w =
     (if length steps = 1
      then (let (n, err, d1, w1) = stage_run orc rt ex b c (steps ! 0) d w
            in ([n], if err = None then [0] else [], err, d1, w1))
      else (let n = length steps;
                (err, attempts, succeeded, d1, w1) =
                  Process (rt_limit rt) (stage_options orc b)
                    (\<lambda>(at, su, d, w). ctx_err rt c w) (stage_item (stage_run orc rt ex b) c steps) n (rt_sched rt w)
                    (replicate n 0, replicate n False, d, w)
            in (attempts, map int (filter (\<lambda>i. succeeded ! i) [0..<n]), err, d1, w1)))"
  by (simp add: runStage_def stage_run_def Let_def)

lemma runStage_keeps:
  assumes rk: "runtime_keeps rt steps P" and "P w"
    and run: "runStage orc rt c ex steps b d w = (attempts, succeeded, err, d', w')"
  shows "P w'"
proof (cases "length steps = 1")
  case True
  then have "steps ! 0 \<in> set steps" by (simp add: nth_mem)
  from stage_run_keeps [OF rk this assms(2)] show ?thesis
    using run True by (auto simp: runStage_as_run Let_def split: prod.splits) (metis snd_conv)
next
  case False
  let ?I = "\<lambda>sw. P (snd (snd (snd sw)))"
  have all: "?I (snd (processWithOptions lim (stage_options orc b) ctx (stage_item (stage_run orc rt ex b) c steps)
              (length steps) sched (at, su, d, w)))" for lim ctx sched at su
    by (rule processWithOptions_keeps [where I = ?I and n = "length steps"])
      (simp, rule stage_item_keeps [OF rk], assumption+, simp add: assms(2))
  have "?I (snd (Process lim (stage_options orc b) ctx (stage_item (stage_run orc rt ex b) c steps)
              (length steps) sched (at, su, d, w)))" for lim ctx sched at su
    using all assms(2) by (simp add: Process_def)
  then show ?thesis
    using run False by (auto simp: runStage_as_run Let_def split: prod.splits) (metis snd_conv)
qed

context saga_store
begin

lemma runStage_safe:
  assumes env: "saga_env view good orc rt" and steps: "steps_safe (o_def orc) view good steps"
    and "good w" and run: "runStage orc rt c ex steps b d w = (attempts, succeeded, err, d', w')"
  shows "safe (o_def orc) w w'"
proof -
  have step: "safe (o_def orc) w (snd (snd (fn c ex d w1)))"
    if "step_safe (o_def orc) view good fn" "safe (o_def orc) w w1" for fn c ex d w1
    using that env_safe_step [OF _ safe_good [OF that(2)]] safe_trans unfolding step_safe_def by blast
  have tick: "safe (o_def orc) w (rt_tick rt w1)" "safe (o_def orc) w (snd (rt_jitter rt w1))"
    "safe (o_def orc) w (snd (rt_timer rt dl w1))" if "safe (o_def orc) w w1" for w1 dl
    using safe_trans [OF that] env_calls [OF env safe_good [OF that]] by blast+
  have "runtime_keeps rt steps (safe (o_def orc) w)"
    unfolding runtime_keeps_def using steps step tick unfolding steps_safe_def by blast
  from runStage_keeps [OF this safe_refl [OF assms(3)] run] show ?thesis .
qed

end

subsection \<open>The phases\<close>

definition settled :: "Status \<Rightarrow> bool" where
  "settled s \<longleftrightarrow> s = StatusCompleted \<or> s = StatusCompensated"

lemma settled_terminal: "settled s \<Longrightarrow> IsTerminal s"
  by (auto simp: settled_def IsTerminal_def)

definition cursor_ok :: "('d, 'w) Definition \<Rightarrow> Instance \<Rightarrow> bool" where
  "cursor_ok D i \<longleftrightarrow>
     0 \<le> si_Stage i \<and> si_Stage i \<le> stage_count D
     \<and> (si_PendingSteps i \<noteq> [] \<longrightarrow> si_Stage i < stage_count D)
     \<and> (\<forall>k \<in> set (si_PendingSteps i). 0 \<le> k \<and> k < int (length (stg_steps (d_stages D ! nat (si_Stage i)))))"

lemma cursor_ok_pending:
  "0 \<le> si_Stage i \<Longrightarrow> si_Stage i < stage_count D \<Longrightarrow> valid_pending D (nat (si_Stage i)) (si_PendingSteps i)
   \<Longrightarrow> cursor_ok D i"
  by (simp add: cursor_ok_def valid_pending_def)

lemma valid_cursor_ok: "valid_cursor D i = None \<Longrightarrow> cursor_ok D i"
  by (auto simp: valid_cursor_def cursor_ok_def stage_count_def Let_def find_None_iff
      split: if_splits option.splits)

lemma stage_records_key:
  "map rec_key (stage_records steps (int k) status attempts now)
     = map (\<lambda>s. (sp_name s, int k, status)) steps"
  by (intro nth_equalityI) (simp_all add: stage_records_def rec_key_def)

context saga_store
begin

lemma transition_safe:
  assumes env: "saga_env view good orc rt" and "o_store orc = st" and "good w" and "known (o_def orc) p w"
    and "si_Version i = si_Version p" and "si_ID i = si_ID p"
    and step: "\<And>t. sg_step (o_def orc) p (i\<lparr>si_Status := s, si_UpdatedAt := t, si_Version := si_Version i + 1\<rparr>)"
    and run: "transition orc rt c s back i w = ((e, j), w')"
  shows "safe (o_def orc) w w' \<and> si_ID j = si_ID i \<and> si_Stage j = si_Stage i
    \<and> si_PendingSteps j = si_PendingSteps i
    \<and> (if e = None then si_Status j = s \<and> known (o_def orc) j w' else si_Status j = back)"
proof -
  obtain now w1 where now: "time_Now rt w = (now, w1)" by fastforce
  let ?i = "i\<lparr>si_Status := s, si_UpdatedAt := now\<rparr>"
  have s1: "safe (o_def orc) w w1" by (rule time_Now_safe [OF env assms(3) now])
  obtain r w2 where per: "persist orc rt c ?i w1 = (r, w2)" by fastforce
  have "safe (o_def orc) w1 w2
    \<and> (\<forall>j. r = Inr j \<longrightarrow> j = ?i\<lparr>si_Version := si_Version ?i + 1\<rparr> \<and> known (o_def orc) j w2)"
    using persist_safe [OF env assms(2) safe_good [OF s1] known_safe [OF assms(4) s1] _ _ _ per]
      assms(5,6) step [of now] by simp
  then show ?thesis
    using run now per safe_trans [OF s1] by (cases r) (auto simp: transition_def)
qed

definition phase_post :: "('d, 'w) Orchestrator \<Rightarrow> Instance \<Rightarrow> 'w \<Rightarrow> ('d, 'w) outcome \<Rightarrow> bool" where
  "phase_post orc i w r = (case r of (j, e, d, w') \<Rightarrow>
     safe (o_def orc) w w' \<and> si_ID j = si_ID i
     \<and> (si_Status j = StatusCompensating \<and> si_Status i = StatusRunning
          \<longrightarrow> known (o_def orc) j w' \<and> cursor_ok (o_def orc) j)
     \<and> (e = None \<longrightarrow> known (o_def orc) j w' \<and> settled (si_Status j)
          \<and> (si_Status i = StatusRunning \<longrightarrow> si_Status j = StatusCompleted)))"

lemma forward_failed_safe:
  assumes env: "saga_env view good orc rt" and "o_store orc = st" and "good w" and "known (o_def orc) p w"
    and i: "i = p\<lparr>si_PendingSteps := ps, si_Data := b\<rparr>" and "si_Status p = StatusRunning"
    and "0 \<le> si_Stage p" and "si_Stage p < stage_count (o_def orc)"
    and "valid_pending (o_def orc) (nat (si_Stage p)) ps"
  shows "phase_post orc i w
    (forward_failed orc rt c name (d_pivotIdx (o_def orc) \<le> si_Stage p) e i d w)"
proof (cases "d_pivotIdx (o_def orc) \<le> si_Stage p")
  case True
  obtain f j w' where tr: "transition orc rt c StatusFailed StatusRunning (i\<lparr>si_LastError := err_text e\<rparr>) w = ((f, j), w')"
    by (metis surj_pair)
  have "sg_step (o_def orc) p (i\<lparr>si_LastError := err_text e, si_Status := StatusFailed, si_UpdatedAt := t,
          si_Version := si_Version (i\<lparr>si_LastError := err_text e\<rparr>) + 1\<rparr>)" for t
    by (rule sg_step.give_up [OF assms(6-8) True assms(9), of _ b t "err_text e"]) (simp add: i)
  from transition_safe [OF env assms(2-4) _ _ this tr] show ?thesis
    using True tr i assms(6)
    by (auto simp: forward_failed_def phase_post_def Wrapf_def split: option.splits)
next
  case False
  obtain f j w' where tr: "transition orc rt c StatusCompensating StatusRunning (i\<lparr>si_LastError := err_text e\<rparr>) w = ((f, j), w')"
    by (metis surj_pair)
  have piv: "si_Stage p < d_pivotIdx (o_def orc)" using False by simp
  have "sg_step (o_def orc) p (i\<lparr>si_LastError := err_text e, si_Status := StatusCompensating, si_UpdatedAt := t,
          si_Version := si_Version (i\<lparr>si_LastError := err_text e\<rparr>) + 1\<rparr>)" for t
    by (rule sg_step.abort [OF assms(6-8) piv assms(9), of _ b t "err_text e"]) (simp add: i)
  from transition_safe [OF env assms(2-4) _ _ this tr] show ?thesis
    using False tr i assms(6-9) cursor_ok_pending [of j "o_def orc"]
    by (auto simp: forward_failed_def phase_post_def split: option.splits)
qed

definition next_post :: "('d, 'w) Orchestrator \<Rightarrow> Instance \<Rightarrow> 'w \<Rightarrow> Instance \<times> 'd \<times> 'w \<Rightarrow> bool" where
  "next_post orc i w r = (case r of (j, d, w') \<Rightarrow>
     safe (o_def orc) w w' \<and> si_ID j = si_ID i \<and> si_Status j = si_Status i \<and> known (o_def orc) j w'
     \<and> si_PendingSteps j = [] \<and> 0 \<le> si_Stage j \<and> si_Stage j \<le> stage_count (o_def orc))"

definition stage_post ::
  "('d, 'w) Orchestrator \<Rightarrow> Instance \<Rightarrow> 'w \<Rightarrow> ('d, 'w) outcome + Instance \<times> 'd \<times> 'w \<Rightarrow> bool" where
  "stage_post orc i w r = (case r of Inl x \<Rightarrow> phase_post orc i w x | Inr x \<Rightarrow> next_post orc i w x)"

lemma forward_commit_safe:
  assumes env: "saga_env view good orc rt" and "o_store orc = st" and "good w" and "known (o_def orc) p w"
    and i: "i = p\<lparr>si_PendingSteps := ps, si_Data := b\<rparr>" and "si_Status p = StatusRunning"
    and "0 \<le> si_Stage p" and "si_Stage p < stage_count (o_def orc)"
    and steps: "steps = stg_steps (d_stages (o_def orc) ! nat (si_Stage p))"
  shows "stage_post orc i w (forward_commit orc rt c steps attempts i d w)"
proof -
  obtain t1 w1 where now1: "time_Now rt w = (t1, w1)" by fastforce
  obtain t2 w2 where now2: "time_Now rt w1 = (t2, w2)" by fastforce
  have s1: "safe (o_def orc) w w1" by (rule time_Now_safe [OF env assms(3) now1])
  have s2: "safe (o_def orc) w w2"
    by (rule safe_trans [OF s1 time_Now_safe [OF env safe_good [OF s1] now2]])
  define recs where "recs = stage_records steps (si_Stage p) StepCompleted attempts t1"
  have recs: "map rec_key recs = stage_log (o_def orc) (nat (si_Stage p)) StepCompleted"
    using stage_records_key [of steps "nat (si_Stage p)" StepCompleted attempts t1] assms(7)
    by (simp add: recs_def stage_log_def steps)
  let ?i = "p\<lparr>si_Steps := si_Steps p @ recs, si_PendingSteps := [], si_Stage := si_Stage p + 1,
              si_UpdatedAt := t2\<rparr>"
  show ?thesis
  proof (cases "o_serialize orc d")
    case (Inl e)
    then show ?thesis
      using now1 now2 s2 i assms(6)
      by (simp add: forward_commit_def recordStage_def encodeInto_def stage_post_def phase_post_def recs_def)
  next
    case (Inr b')
    obtain r w3 where per: "persist orc rt c (?i\<lparr>si_Data := b'\<rparr>) w2 = (r, w3)" by fastforce
    have step: "sg_step (o_def orc) p (?i\<lparr>si_Data := b', si_Version := si_Version (?i\<lparr>si_Data := b'\<rparr>) + 1\<rparr>)"
      by (rule sg_step.commit [OF assms(6-8) recs]) simp
    have "safe (o_def orc) w2 w3 \<and> (\<forall>j. r = Inr j \<longrightarrow> j = ?i\<lparr>si_Data := b', si_Version := si_Version p + 1\<rparr>
            \<and> known (o_def orc) j w3)"
      using persist_safe [OF env assms(2) safe_good [OF s2] known_safe [OF assms(4) s2] _ _ _ per] step by simp
    moreover have "forward_commit orc rt c steps attempts i d w =
        (case r of Inl e \<Rightarrow> Inl (?i\<lparr>si_Data := b'\<rparr>, Some e, d, w3) | Inr j \<Rightarrow> Inr (j, d, w3))"
      using now1 now2 i Inr per
      by (simp add: forward_commit_def recordStage_def encodeInto_def recs_def split: sum.split)
    ultimately show ?thesis
      using safe_trans [OF s2] i assms(6-8)
      by (cases r) (auto simp: stage_post_def phase_post_def next_post_def)
  qed
qed

end

context saga_store
begin

lemma stage_steps_safe:
  assumes "saga_env view good orc rt" and "stg \<in> set (d_stages (o_def orc))"
  shows "steps_safe (o_def orc) view good (stg_steps stg)"
  using assms unfolding saga_env_def steps_safe_def Let_def by blast

lemma stage_nth:
  "0 \<le> k \<Longrightarrow> k < stage_count D \<Longrightarrow> d_stages D ! nat k \<in> set (d_stages D)"
  by (simp add: stage_count_def)

lemma forward_stage_safe:
  assumes env: "saga_env view good orc rt" and "o_store orc = st" and "good w" and "known (o_def orc) i w"
    and "si_Status i = StatusRunning" and "0 \<le> si_Stage i" and "si_Stage i < stage_count (o_def orc)"
  shows "stage_post orc i w (forward_stage orc rt c ex i d w)"
proof -
  let ?D = "o_def orc"
  define stg where "stg = d_stages ?D ! nat (si_Stage i)"
  let ?i1 = "i\<lparr>si_PendingSteps := map int [0..<length (stg_steps stg)]\<rparr>"
  obtain r w1 where per: "persist orc rt c ?i1 w = (r, w1)" by fastforce
  have "sg_step ?D i (?i1\<lparr>si_Version := si_Version ?i1 + 1\<rparr>)"
    by (rule sg_step.intent [OF assms(5-7)]) (simp add: stg_def)
  then have p1: "safe ?D w w1"
    "\<And>j. r = Inr j \<Longrightarrow> j = ?i1\<lparr>si_Version := si_Version i + 1\<rparr> \<and> known ?D j w1"
    using persist_safe [OF env assms(2-4) _ _ _ per] by simp_all
  show ?thesis
  proof (cases r)
    case (Inl e)
    then show ?thesis
      using per p1(1) assms(5)
      by (simp add: forward_stage_def stg_def Let_def stage_post_def phase_post_def)
  next
    case (Inr i2)
    then have i2: "i2 = ?i1\<lparr>si_Version := si_Version i + 1\<rparr>" "known ?D i2 w1" using p1(2) by blast+
    obtain attempts succ err d1 w2 where
      rs: "runStage orc rt c (withStage ex (si_Stage i2)) (stg_steps stg) False d w1 = (attempts, succ, err, d1, w2)"
      by (metis surj_pair)
    have s12: "safe ?D w1 w2"
      by (rule runStage_safe [OF env stage_steps_safe [OF env] safe_good [OF p1(1)] rs])
        (use stage_nth assms(6,7) stg_def in auto)
    have s2: "safe ?D w w2" by (rule safe_trans [OF p1(1) s12])
    have k2: "known ?D i2 w2" by (rule known_safe [OF i2(2) s12])
    have vp: "valid_pending ?D (nat (si_Stage i2)) succ"
      using runStage_succeeded [OF rs] by (simp add: valid_pending_def i2(1) stg_def)
    have cur: "si_Status i2 = StatusRunning" "0 \<le> si_Stage i2" "si_Stage i2 < stage_count ?D"
      using i2(1) assms(5-7) by simp_all
    have fs: "forward_stage orc rt c ex i d w =
        (case ctx_err rt c w2 of
           Some e \<Rightarrow> Inl (i2, Some e, d1, w2)
         | None \<Rightarrow>
             (case o_serialize orc d1 of
                Inl e \<Rightarrow> Inl (i2\<lparr>si_PendingSteps := succ\<rparr>,
                           Some (the (WrapOperation (Some e) ''serialize saga data'')), d1, w2)
              | Inr b \<Rightarrow>
                  (case err of
                     Some e \<Rightarrow> Inl (forward_failed orc rt c (stg_name stg) (d_pivotIdx ?D \<le> si_Stage i2) e
                                 (i2\<lparr>si_PendingSteps := succ, si_Data := b\<rparr>) d1 w2)
                   | None \<Rightarrow> forward_commit orc rt c (stg_steps stg) attempts
                                 (i2\<lparr>si_PendingSteps := succ, si_Data := b\<rparr>) d1 w2)))"
      using per Inr rs i2(1)
      by (simp add: forward_stage_def stg_def [symmetric] encodeInto_def Let_def split: option.split sum.split)
    show ?thesis
    proof (cases "ctx_err rt c w2 = None \<and> (\<exists>b. o_serialize orc d1 = Inr b)")
      case False
      then show ?thesis
        using fs s2 i2(1) assms(5) by (auto simp: stage_post_def phase_post_def split: option.splits sum.splits)
    next
      case True
      then obtain b where b: "o_serialize orc d1 = Inr b" "ctx_err rt c w2 = None" by blast
      let ?i3 = "i2\<lparr>si_PendingSteps := succ, si_Data := b\<rparr>"
      have fail: "phase_post orc ?i3 w2
          (forward_failed orc rt c (stg_name stg) (d_pivotIdx ?D \<le> si_Stage i2) e ?i3 d1 w2)" for e
        by (rule forward_failed_safe [OF env assms(2) safe_good [OF s2] k2 refl cur vp])
      have commit: "stage_post orc ?i3 w2 (forward_commit orc rt c (stg_steps stg) attempts ?i3 d1 w2)"
        by (rule forward_commit_safe [OF env assms(2) safe_good [OF s2] k2 refl cur]) (simp add: i2(1) stg_def)
      have "stage_post orc ?i3 w2 (forward_stage orc rt c ex i d w)"
        using fs b fail commit by (cases err) (simp_all add: stage_post_def)
      then show ?thesis
        using safe_trans [OF s2] i2(1)
        by (auto simp: stage_post_def phase_post_def next_post_def split: sum.splits)
    qed
  qed
qed

lemma runForward_safe:
  assumes env: "saga_env view good orc rt" and "o_store orc = st" and "good w" and "known (o_def orc) i w"
    and "si_Status i = StatusRunning" and "0 \<le> si_Stage i"
  shows "phase_post orc i w (runForward orc rt c ex i d w)"
  using assms(3-6)
proof (induction "nat (stage_count (o_def orc) - si_Stage i)" arbitrary: i d w rule: less_induct)
  case less
  show ?case
  proof (cases "si_Stage i < stage_count (o_def orc)")
    case True
    have post: "stage_post orc i w (forward_stage orc rt c ex i d w)"
      by (rule forward_stage_safe [OF env assms(2) less.prems True])
    show ?thesis
    proof (cases "forward_stage orc rt c ex i d w")
      case (Inl r)
      then show ?thesis
        using post True by (simp add: runForward.simps [of orc rt c ex i d w] stage_count_def stage_post_def)
    next
      case (Inr r)
      obtain j d1 w1 where r: "r = (j, d1, w1)" by (metis surj_pair)
      have nx: "safe (o_def orc) w w1" "si_ID j = si_ID i" "si_Status j = StatusRunning"
        "known (o_def orc) j w1" "0 \<le> si_Stage j"
        using post Inr r less.prems(3) by (simp_all add: stage_post_def next_post_def)
      have "nat (stage_count (o_def orc) - si_Stage j) < nat (stage_count (o_def orc) - si_Stage i)"
        using forward_stage_progress [of orc rt c ex i d w j d1 w1] Inr r True by simp
      from less.hyps [OF this safe_good [OF nx(1)] nx(4,3,5)]
      have "phase_post orc j w1 (runForward orc rt c ex j d1 w1)" .
      moreover have "runForward orc rt c ex i d w = runForward orc rt c ex j d1 w1"
        using True Inr r by (simp add: runForward.simps [of orc rt c ex i d w] stage_count_def)
      ultimately show ?thesis
        using nx less.prems(3) safe_trans [OF nx(1)] by (auto simp: phase_post_def split: prod.splits)
    qed
  next
    case False
    obtain e j w1 where tr: "transition orc rt c StatusCompleted StatusRunning i w = ((e, j), w1)"
      by (metis surj_pair)
    have "sg_step (o_def orc) i (i\<lparr>si_Status := StatusCompleted, si_UpdatedAt := t, si_Version := si_Version i + 1\<rparr>)" for t
      by (rule sg_step.complete [OF less.prems(3)]) (use False in simp_all)
    from transition_safe [OF env assms(2) less.prems(1,2) _ _ this tr] show ?thesis
      using False tr
      by (auto simp: runForward.simps [of orc rt c ex i d w] stage_count_def phase_post_def settled_def
          split: if_splits)
  qed
qed

lemma compensationFailed_safe:
  assumes env: "saga_env view good orc rt" and "o_store orc = st" and "good w" and "known (o_def orc) i w"
    and "si_Status i = StatusCompensating"
  shows "phase_post orc i w (compensationFailed orc rt c e i d w)"
proof -
  obtain f j w1 where
    tr: "transition orc rt c StatusFailed StatusCompensating (i\<lparr>si_LastError := err_text e\<rparr>) w = ((f, j), w1)"
    by (metis surj_pair)
  have "sg_step (o_def orc) i (i\<lparr>si_LastError := err_text e, si_Status := StatusFailed, si_UpdatedAt := t,
          si_Version := si_Version (i\<lparr>si_LastError := err_text e\<rparr>) + 1\<rparr>)" for t
    by (rule sg_step.undo_failed [OF assms(5), of _ t "err_text e"]) simp
  from transition_safe [OF env assms(2-4) _ _ this tr] show ?thesis
    using tr assms(5) safe_refl [OF assms(3), of "o_def orc"]
    by (auto simp: compensationFailed_def phase_post_def JoinWrap_def split: option.splits if_splits)
qed

end

context saga_store
begin

lemma compensate_pending_safe:
  assumes env: "saga_env view good orc rt" and "o_store orc = st" and "good w" and "known (o_def orc) i w"
    and "si_Status i = StatusCompensating" and "si_PendingSteps i \<noteq> []" and cur: "cursor_ok (o_def orc) i"
  shows "stage_post orc i w (compensate_pending orc rt c ex i d w)"
proof -
  let ?D = "o_def orc"
  define stg where "stg = d_stages ?D ! nat (si_Stage i)"
  define steps where "steps = map (\<lambda>k. stg_steps stg ! nat k) (si_PendingSteps i)"
  have "stg \<in> set (d_stages ?D)" unfolding stg_def
    using cur assms(6) by (intro stage_nth) (simp_all add: cursor_ok_def)
  moreover have "set steps \<subseteq> set (stg_steps stg)"
    using cur by (force simp: steps_def stg_def cursor_ok_def)
  ultimately have steps_ok: "steps_safe ?D view good steps"
    using stage_steps_safe [OF env] unfolding steps_safe_def by blast
  obtain attempts succ err d1 w1 where
    rs: "runStage orc rt c (withStage ex (si_Stage i)) steps True d w = (attempts, succ, err, d1, w1)"
    by (metis surj_pair)
  have s1: "safe ?D w w1" by (rule runStage_safe [OF env steps_ok assms(3) rs])
  have k1: "known ?D i w1" by (rule known_safe [OF assms(4) s1])
  show ?thesis
  proof (cases err)
    case (Some e)
    have "phase_post orc i w1 (compensationFailed orc rt c e i d1 w1)"
      by (rule compensationFailed_safe [OF env assms(2) safe_good [OF s1] k1 assms(5)])
    then show ?thesis
      using Some rs assms(5) safe_trans [OF s1]
      by (auto simp: compensate_pending_def stg_def [symmetric] steps_def [symmetric] Let_def
          stage_post_def phase_post_def split: prod.splits)
  next
    case None
    obtain t w2 where now: "time_Now rt w1 = (t, w2)" by fastforce
    have s2: "safe ?D w w2" by (rule safe_trans [OF s1 time_Now_safe [OF env safe_good [OF s1] now]])
    define recs where "recs = stage_records steps (si_Stage i) StepCompensated attempts t"
    have recs: "map rec_key recs = pending_log ?D (nat (si_Stage i)) (si_PendingSteps i)"
      using stage_records_key [of steps "nat (si_Stage i)" StepCompensated attempts t] cur
      by (simp add: recs_def pending_log_def steps_def stg_def cursor_ok_def)
    let ?i = "i\<lparr>si_Steps := si_Steps i @ recs, si_PendingSteps := []\<rparr>"
    have cp: "compensate_pending orc rt c ex i d w =
        (case o_serialize orc d1 of
           Inl e \<Rightarrow> Inl (?i, Some (the (WrapOperation (Some e) ''serialize saga data'')), d1, w2)
         | Inr b \<Rightarrow>
             (case persist orc rt c (?i\<lparr>si_Data := b\<rparr>) w2 of
                (Inl e, w3) \<Rightarrow> Inl (?i\<lparr>si_Data := b\<rparr>, Some e, d1, w3)
              | (Inr j, w3) \<Rightarrow> Inr (j, d1, w3)))"
      using rs None now
      by (simp add: compensate_pending_def stg_def [symmetric] steps_def [symmetric] recordStage_def
          recs_def [symmetric] encodeInto_def Let_def split: sum.split)
    show ?thesis
    proof (cases "o_serialize orc d1")
      case (Inl e)
      then show ?thesis using cp s2 assms(5) by (simp add: stage_post_def phase_post_def)
    next
      case (Inr b)
      obtain r w3 where per: "persist orc rt c (?i\<lparr>si_Data := b\<rparr>) w2 = (r, w3)" by fastforce
      have "sg_step ?D i (?i\<lparr>si_Data := b, si_Version := si_Version (?i\<lparr>si_Data := b\<rparr>) + 1\<rparr>)"
        by (rule sg_step.undo_pending [OF assms(5,6) recs]) simp
      then have "safe ?D w2 w3 \<and> (\<forall>j. r = Inr j \<longrightarrow>
          j = ?i\<lparr>si_Data := b, si_Version := si_Version i + 1\<rparr> \<and> known ?D j w3)"
        using persist_safe [OF env assms(2) safe_good [OF s2] known_safe [OF assms(4) s2] _ _ _ per] by simp
      then show ?thesis
        using cp Inr per safe_trans [OF s2] assms(5) cur
        by (cases r) (auto simp: stage_post_def phase_post_def next_post_def cursor_ok_def)
    qed
  qed
qed

lemma compensate_stage_safe:
  assumes env: "saga_env view good orc rt" and "o_store orc = st" and "good w" and "known (o_def orc) i w"
    and "si_Status i = StatusCompensating" and "si_PendingSteps i = []" and "0 < si_Stage i"
    and "si_Stage i \<le> stage_count (o_def orc)"
  shows "stage_post orc i w (compensate_stage orc rt c ex i d w)"
proof -
  let ?D = "o_def orc"
  define stg where "stg = d_stages ?D ! nat (si_Stage i - 1)"
  have "stg \<in> set (d_stages ?D)" unfolding stg_def
    using assms(7,8) by (intro stage_nth) simp_all
  note steps_ok = stage_steps_safe [OF env this]
  obtain attempts succ err d1 w1 where
    rs: "runStage orc rt c (withStage ex (si_Stage i - 1)) (stg_steps stg) True d w = (attempts, succ, err, d1, w1)"
    by (metis surj_pair)
  have s1: "safe ?D w w1" by (rule runStage_safe [OF env steps_ok assms(3) rs])
  have k1: "known ?D i w1" by (rule known_safe [OF assms(4) s1])
  show ?thesis
  proof (cases err)
    case (Some e)
    have "phase_post orc i w1 (compensationFailed orc rt c e i d1 w1)"
      by (rule compensationFailed_safe [OF env assms(2) safe_good [OF s1] k1 assms(5)])
    then show ?thesis
      using Some rs assms(5) safe_trans [OF s1]
      by (auto simp: compensate_stage_def stg_def [symmetric] Let_def
          stage_post_def phase_post_def split: prod.splits)
  next
    case None
    obtain t w2 where now: "time_Now rt w1 = (t, w2)" by fastforce
    obtain t2 w3 where now2: "time_Now rt w2 = (t2, w3)" by fastforce
    have s2: "safe ?D w w2" by (rule safe_trans [OF s1 time_Now_safe [OF env safe_good [OF s1] now]])
    have s3: "safe ?D w w3" by (rule safe_trans [OF s2 time_Now_safe [OF env safe_good [OF s2] now2]])
    define recs where "recs = stage_records (stg_steps stg) (si_Stage i - 1) StepCompensated attempts t"
    have recs: "map rec_key recs = stage_log ?D (nat (si_Stage i - 1)) StepCompensated"
      using stage_records_key [of "stg_steps stg" "nat (si_Stage i - 1)" StepCompensated attempts t] assms(7)
      by (simp add: recs_def stage_log_def stg_def)
    let ?i = "i\<lparr>si_Steps := si_Steps i @ recs, si_Stage := si_Stage i - 1, si_UpdatedAt := t2\<rparr>"
    have cp: "compensate_stage orc rt c ex i d w =
        (case o_serialize orc d1 of
           Inl e \<Rightarrow> Inl (?i, Some (the (WrapOperation (Some e) ''serialize saga data'')), d1, w3)
         | Inr b \<Rightarrow>
             (case persist orc rt c (?i\<lparr>si_Data := b\<rparr>) w3 of
                (Inl e, w4) \<Rightarrow> Inl (?i\<lparr>si_Data := b\<rparr>, Some e, d1, w4)
              | (Inr j, w4) \<Rightarrow> Inr (j, d1, w4)))"
      using rs None now now2
      by (simp add: compensate_stage_def stg_def [symmetric] recordStage_def
          recs_def [symmetric] encodeInto_def Let_def split: sum.split)
    show ?thesis
    proof (cases "o_serialize orc d1")
      case (Inl e)
      then show ?thesis using cp s3 assms(5) by (simp add: stage_post_def phase_post_def)
    next
      case (Inr b)
      obtain r w4 where per: "persist orc rt c (?i\<lparr>si_Data := b\<rparr>) w3 = (r, w4)" by fastforce
      have "sg_step ?D i (?i\<lparr>si_Data := b, si_Version := si_Version (?i\<lparr>si_Data := b\<rparr>) + 1\<rparr>)"
        by (rule sg_step.undo_stage [OF assms(5-7) recs]) simp
      then have "safe ?D w3 w4 \<and> (\<forall>j. r = Inr j \<longrightarrow>
          j = ?i\<lparr>si_Data := b, si_Version := si_Version i + 1\<rparr> \<and> known ?D j w4)"
        using persist_safe [OF env assms(2) safe_good [OF s3] known_safe [OF assms(4) s3] _ _ _ per] by simp
      then show ?thesis
        using cp Inr per safe_trans [OF s3] assms(5-8)
        by (cases r) (auto simp: stage_post_def phase_post_def next_post_def)
    qed
  qed
qed

end

subsection \<open>Driving an instance\<close>

context saga_store
begin

lemma compensate_loop_safe:
  assumes env: "saga_env view good orc rt" and "o_store orc = st" and "good w" and "known (o_def orc) i w"
    and "si_Status i = StatusCompensating" and "si_PendingSteps i = []"
    and "0 \<le> si_Stage i" and "si_Stage i \<le> stage_count (o_def orc)"
  shows "phase_post orc i w (compensate_loop orc rt c ex i d w)"
  using assms(3-8)
proof (induction "nat (si_Stage i)" arbitrary: i d w rule: less_induct)
  case less
  show ?case
  proof (cases "0 < si_Stage i")
    case True
    have post: "stage_post orc i w (compensate_stage orc rt c ex i d w)"
      by (rule compensate_stage_safe [OF env assms(2) less.prems(1-4) True less.prems(6)])
    show ?thesis
    proof (cases "compensate_stage orc rt c ex i d w")
      case (Inl r)
      then show ?thesis
        using post True by (simp add: compensate_loop.simps [of orc rt c ex i d w] stage_post_def)
    next
      case (Inr r)
      obtain j d1 w1 where r: "r = (j, d1, w1)" by (metis surj_pair)
      have nx: "safe (o_def orc) w w1" "si_ID j = si_ID i" "si_Status j = StatusCompensating"
        "known (o_def orc) j w1" "si_PendingSteps j = []" "0 \<le> si_Stage j"
        "si_Stage j \<le> stage_count (o_def orc)"
        using post Inr r less.prems(3) by (simp_all add: stage_post_def next_post_def)
      have "nat (si_Stage j) < nat (si_Stage i)"
        using compensate_stage_progress [of orc rt c ex i d w j d1 w1] Inr r True by simp
      from less.hyps [OF this safe_good [OF nx(1)] nx(4,3,5,6,7)]
      have "phase_post orc j w1 (compensate_loop orc rt c ex j d1 w1)" .
      moreover have "compensate_loop orc rt c ex i d w = compensate_loop orc rt c ex j d1 w1"
        using True Inr r by (simp add: compensate_loop.simps [of orc rt c ex i d w])
      ultimately show ?thesis
        using nx less.prems(3) safe_trans [OF nx(1)] by (auto simp: phase_post_def split: prod.splits)
    qed
  next
    case False
    obtain e j w1 where tr: "transition orc rt c StatusCompensated StatusCompensating i w = ((e, j), w1)"
      by (metis surj_pair)
    have "sg_step (o_def orc) i (i\<lparr>si_Status := StatusCompensated, si_UpdatedAt := t, si_Version := si_Version i + 1\<rparr>)" for t
      by (rule sg_step.undone [OF less.prems(3,4)]) (use False in simp_all)
    from transition_safe [OF env assms(2) less.prems(1,2) _ _ this tr] show ?thesis
      using False tr less.prems(3)
      by (auto simp: compensate_loop.simps [of orc rt c ex i d w] phase_post_def settled_def
          split: if_splits)
  qed
qed

lemma compensate_safe:
  assumes env: "saga_env view good orc rt" and "o_store orc = st" and "good w" and "known (o_def orc) i w"
    and "si_Status i = StatusCompensating" and cur: "cursor_ok (o_def orc) i"
  shows "phase_post orc i w (compensate orc rt c ex i d w)"
proof (cases "si_PendingSteps i = []")
  case True
  then show ?thesis
    using compensate_loop_safe [OF assms(1-5) True] cur by (simp add: compensate_def cursor_ok_def)
next
  case False
  note post = compensate_pending_safe [OF assms(1-5) False cur, of c ex d]
  show ?thesis
  proof (cases "compensate_pending orc rt c ex i d w")
    case (Inl r)
    then show ?thesis using post False by (simp add: compensate_def stage_post_def)
  next
    case (Inr r)
    obtain j d1 w1 where r: "r = (j, d1, w1)" by (metis surj_pair)
    have nx: "safe (o_def orc) w w1" "si_ID j = si_ID i" "si_Status j = StatusCompensating"
      "known (o_def orc) j w1" "si_PendingSteps j = []" "0 \<le> si_Stage j"
      "si_Stage j \<le> stage_count (o_def orc)"
      using post Inr r assms(5) by (simp_all add: stage_post_def next_post_def)
    have "phase_post orc j w1 (compensate_loop orc rt c ex j d1 w1)"
      by (rule compensate_loop_safe [OF env assms(2) safe_good [OF nx(1)] nx(4,3,5,6,7)])
    then show ?thesis
      using False Inr r nx assms(5) safe_trans [OF nx(1)]
      by (auto simp: compensate_def phase_post_def split: prod.splits)
  qed
qed

lemma fireDeadLetter_safe:
  assumes "saga_env view good orc rt" and "good w"
  shows "safe (o_def orc) w (fireDeadLetter orc i w)"
  using assms safe_refl [OF assms(2), of "o_def orc"]
  by (auto simp: fireDeadLetter_def saga_env_def Let_def env_safe_def safe_def split: option.split)

definition drive_post :: "('d, 'w) Orchestrator \<Rightarrow> Instance \<Rightarrow> 'w \<Rightarrow> Instance \<times> goerr option \<times> 'w \<Rightarrow> bool" where
  "drive_post orc i w r = (case r of (j, e, w') \<Rightarrow>
     safe (o_def orc) w w' \<and> si_ID j = si_ID i
     \<and> (e = None \<longrightarrow> known (o_def orc) j w' \<and> settled (si_Status j)
          \<and> (si_Status i = StatusRunning \<longrightarrow> si_Status j = StatusCompleted)))"

lemma drive_compensation_safe:
  assumes env: "saga_env view good orc rt" and "o_store orc = st" and "good w" and "known (o_def orc) i w"
    and "si_Status i = StatusCompensating" and "cursor_ok (o_def orc) i"
  shows "drive_post orc i w (drive_compensation orc rt c ex trig i d w)"
proof -
  obtain j e d1 w1 where run: "compensate orc rt c ex i d w = (j, e, d1, w1)" by (metis surj_pair)
  have post: "phase_post orc i w (j, e, d1, w1)" using compensate_safe [OF assms, of c ex d] run by simp
  then have s1: "safe (o_def orc) w w1" by (simp add: phase_post_def)
  note dead = safe_trans [OF s1 fireDeadLetter_safe [OF env safe_good [OF s1], of j]]
  show ?thesis
    using post run dead assms(5)
    by (auto simp: drive_compensation_def drive_post_def phase_post_def split: option.splits)
qed

lemma drive_safe:
  assumes env: "saga_env view good orc rt" and "o_store orc = st" and "good w" and "known (o_def orc) i w"
    and cur: "cursor_ok (o_def orc) i" and live: "\<not> IsTerminal (si_Status i)"
  shows "drive_post orc i w (drive orc rt c ex i d w)"
proof (cases "si_Status i = StatusRunning")
  case True
  obtain j e d1 w1 where run: "runForward orc rt c ex i d w = (j, e, d1, w1)" by (metis surj_pair)
  have "0 \<le> si_Stage i" using cur by (simp add: cursor_ok_def)
  then have post: "phase_post orc i w (j, e, d1, w1)"
    using runForward_safe [OF assms(1-4) True, of c ex d] run by simp
  then have s1: "safe (o_def orc) w w1" by (simp add: phase_post_def)
  note dead = safe_trans [OF s1 fireDeadLetter_safe [OF env safe_good [OF s1], of j]]
  show ?thesis
  proof (cases "e \<noteq> None \<and> si_Status j = StatusCompensating")
    case False
    then show ?thesis
      using post run dead True
      by (auto simp: drive_def drive_post_def phase_post_def split: option.splits)
  next
    case comp: True
    have "drive_post orc j w1 (drive_compensation orc rt c ex e j d1 w1)"
      by (rule drive_compensation_safe [OF env assms(2) safe_good [OF s1]])
        (use post comp True in \<open>auto simp: phase_post_def\<close>)
    moreover obtain x where e: "e = Some x" using comp by blast
    moreover have "fst (snd (drive_compensation orc rt c ex (Some x) j d1 w1)) \<noteq> None"
      by (auto simp: drive_compensation_def split: prod.splits option.splits)
    ultimately show ?thesis
      using run comp True post safe_trans [OF s1]
      by (auto simp: drive_def drive_post_def phase_post_def split: prod.splits)
  qed
next
  case False
  then have comp: "si_Status i = StatusCompensating"
    using live by (cases "si_Status i") (auto simp: IsTerminal_def)
  show ?thesis
    using drive_compensation_safe [OF assms(1-4) comp cur, of c ex None d] comp by (simp add: drive_def)
qed

lemma release_safe:
  assumes env: "saga_env view good orc rt" and "o_store orc = st" and "good w" and "known (o_def orc) p w"
    and "si_ID i = si_ID p" and run: "release orc rt c owner (i, err, w) = ((j, err'), w')"
  shows "safe (o_def orc) w w'"
proof -
  let ?D = "o_def orc"
  obtain rc w1 where to: "WithTimeout rt (WithoutCancel c) (o_storageTimeout orc) w = (rc, w1)" by fastforce
  have s1: "safe ?D w w1" by (rule WithTimeout_safe [OF env assms(3) to])
  obtain g w2 where get: "bounded_Get orc rt rc (si_ID i) w1 = (g, w2)" by fastforce
  have g: "safe ?D w1 w2" "\<And>cur. g = Inr cur \<Longrightarrow> view w2 (si_ID i) = Some cur \<and> si_ID cur = si_ID i"
    using bounded_Get_safe [OF env assms(2) safe_good [OF s1] get] by blast+
  have s2: "safe ?D w w2" by (rule safe_trans [OF s1 g(1)])
  show ?thesis
  proof (cases "\<exists>cur. g = Inr cur \<and> si_LeaseOwner cur = owner")
    case False
    then show ?thesis
      using run to get s2 by (auto simp: release_def split: sum.splits)
  next
    case True
    then obtain cur where cur: "g = Inr cur" "si_LeaseOwner cur = owner" by blast
    have v: "view w2 (si_ID cur) = Some cur" "si_ID cur = si_ID i" using g(2) [OF cur(1)] by simp_all
    have "\<exists>j. view w2 (si_ID p) = Some j \<and> sg_path ?D p j"
      using evolves_from_own known_safe [OF assms(4) s2] unfolding known_def by blast
    then have "si_Definition cur = d_name ?D"
      using v assms(4,5) sg_path_keys [of ?D p cur] by (auto simp: known_def)
    then have k: "known ?D cur w2" by (rule known_view [OF _ v(1)])
    obtain now w3 where now: "time_Now rt w2 = (now, w3)" by fastforce
    have s23: "safe ?D w2 w3" by (rule time_Now_safe [OF env safe_good [OF s2] now])
    have s3: "safe ?D w w3" by (rule safe_trans [OF s2 s23])
    define cur2 where "cur2 = (if IsTerminal (si_Status cur)
      then cur\<lparr>si_LeaseUntil := now, si_LeaseOwner := [], si_LeaseUntil := 0\<rparr> else cur\<lparr>si_LeaseUntil := now\<rparr>)"
    have step: "sg_step ?D cur (cur2\<lparr>si_Version := si_Version cur2 + 1\<rparr>)"
      by (rule sg_step.lease [where ow = "si_LeaseOwner cur2" and t = "si_LeaseUntil cur2"]) (simp add: cur2_def)
    obtain r w4 where per: "persist orc rt rc cur2 w3 = (r, w4)" by fastforce
    have "safe ?D w3 w4"
      using persist_safe [OF env assms(2) safe_good [OF s3] known_safe [OF k s23] _ _ step per]
      by (simp add: cur2_def)
    moreover have "w' = w4"
      using run to get cur now per by (auto simp: release_def cur2_def split: sum.splits if_splits)
    ultimately show ?thesis using safe_trans [OF s3] by simp
  qed
qed

lemma release_result:
  assumes "release orc rt c owner (i, err, w) = ((j, err'), w')"
  shows "si_Status j = si_Status i \<and> si_ID j = si_ID i \<and> (err' = None \<longrightarrow> err = None)"
  using assms by (auto simp: release_def Let_def errors_Join_None split: prod.splits sum.splits if_splits)

definition initial_execution :: "Instance \<Rightarrow> Execution" where
  "initial_execution i = \<lparr> ex_InstanceID = si_ID i, ex_Fence = si_Version i, ex_StepKey = [], ex_stage = 0 \<rparr>"

lemma execute_owned_safe:
  assumes env: "saga_env view good orc rt" and "o_store orc = st" and "good w" and "known (o_def orc) i w"
    and cur: "cursor_ok (o_def orc) i" and live: "\<not> IsTerminal (si_Status i)"
    and run: "execute_owned orc rt rc recovering now i d w = (j, e, w')"
  shows "safe (o_def orc) w w' \<and> si_ID j = si_ID i
    \<and> (e = None \<longrightarrow> known (o_def orc) j w' \<and> settled (si_Status j)
        \<and> (si_Status i = StatusRunning \<and> \<not> recovering \<longrightarrow> si_Status j = StatusCompleted))"
proof (cases "timed_out (o_def orc) recovering now i")
  case False
  then show ?thesis
    using run drive_safe [OF assms(1-4) cur live, of rc "initial_execution i" d]
    by (simp add: execute_owned_def initial_execution_def drive_post_def)
next
  case True
  let ?i = "i\<lparr>si_Status := StatusCompensating, si_LastError := ''saga: deadline exceeded; rolling back''\<rparr>"
  obtain r w1 where per: "persist orc rt rc ?i w = (r, w1)" by fastforce
  have "sg_step (o_def orc) i (?i\<lparr>si_Version := si_Version ?i + 1\<rparr>)"
    by (rule sg_step.timeout) (use True in \<open>simp_all add: timed_out_def\<close>)
  then have p: "safe (o_def orc) w w1" "\<And>j. r = Inr j \<Longrightarrow> j = ?i\<lparr>si_Version := si_Version i + 1\<rparr>
      \<and> known (o_def orc) j w1"
    using persist_safe [OF assms(1-4) _ _ _ per] by simp_all
  show ?thesis
  proof (cases r)
    case (Inl x)
    then show ?thesis using run True per p(1) by (auto simp: execute_owned_def Let_def)
  next
    case (Inr i2)
    note i2 = p(2) [OF Inr]
    have "drive_post orc i2 w1 (drive orc rt rc (initial_execution i) i2 d w1)"
      by (rule drive_safe [OF env assms(2) safe_good [OF p(1)]])
        (use i2 cur in \<open>auto simp: cursor_ok_def IsTerminal_def\<close>)
    then show ?thesis
      using run True per Inr i2 safe_trans [OF p(1)]
      by (auto simp: execute_owned_def initial_execution_def drive_post_def timed_out_def split: prod.splits)
  qed
qed

lemma execute_safe:
  assumes env: "saga_env view good orc rt" and "o_store orc = st" and "good w" and "known (o_def orc) i w"
    and live: "\<not> IsTerminal (si_Status i)" and run: "execute orc rt c recovering i d w = ((j, e), w')"
  shows "safe (o_def orc) w w'
    \<and> (e = None \<longrightarrow> settled (si_Status j) \<and> si_ID j = si_ID i
        \<and> (\<exists>rec. view w' (si_ID i) = Some rec \<and> si_Status rec = si_Status j)
        \<and> (si_Status i = StatusRunning \<and> \<not> recovering \<longrightarrow> si_Status j = StatusCompleted))"
proof (cases "valid_cursor (o_def orc) i")
  case (Some x)
  then show ?thesis using run safe_refl [OF assms(3), of "o_def orc"] by (auto simp: execute_def)
next
  case None
  let ?D = "o_def orc"
  obtain now w1 where now: "time_Now rt w = (now, w1)" by fastforce
  have s1: "safe ?D w w1" by (rule time_Now_safe [OF env assms(3) now])
  obtain rc w2 where to: "WithMaxTimeout rt (Some c) (o_executionTimeout orc) w1 = (rc, w2)" by fastforce
  have s2: "safe ?D w w2" by (rule safe_trans [OF s1 WithMaxTimeout_safe [OF env safe_good [OF s1] to]])
  obtain owner w3 where own: "rt_owner rt w2 = (owner, w3)" by fastforce
  have s3: "safe ?D w w3" using safe_trans [OF s2 env_calls(2) [OF env safe_good [OF s2]]] own by simp
  define t where "t = (case ctx_deadline rt rc of Some t \<Rightarrow> t | None \<Rightarrow> 0) + o_leaseGrace orc"
  let ?i = "i\<lparr>si_LeaseOwner := owner, si_LeaseUntil := t\<rparr>"
  obtain r w4 where per: "persist orc rt rc ?i w3 = (r, w4)" by fastforce
  have "sg_step ?D i (?i\<lparr>si_Version := si_Version ?i + 1\<rparr>)" by (rule sg_step.lease) simp
  then have p: "safe ?D w3 w4" "\<And>j. r = Inr j \<Longrightarrow> j = ?i\<lparr>si_Version := si_Version i + 1\<rparr> \<and> known ?D j w4"
    using persist_safe [OF env assms(2) safe_good [OF s3] known_safe [OF assms(4) s3] _ _ _ per] by simp_all
  have s4: "safe ?D w w4" by (rule safe_trans [OF s3 p(1)])
  have ex: "execute orc rt c recovering i d w =
      (if si_LeaseUntil i > now then ((i, Some ErrInstanceBusy), w1)
       else case r of Inl e \<Rightarrow> ((?i, Some e), w4)
            | Inr i2 \<Rightarrow> release orc rt c owner (execute_owned orc rt rc recovering now i2 d w4))"
    using None now to own per by (simp add: execute_def t_def Let_def split: sum.split)
  show ?thesis
  proof (cases "\<exists>i2. r = Inr i2 \<and> \<not> si_LeaseUntil i > now")
    case False
    then show ?thesis using ex run s1 s4 by (auto split: if_splits sum.splits)
  next
    case True
    then obtain i2 where i2: "r = Inr i2" "\<not> si_LeaseUntil i > now" by blast
    obtain k f w5 where own2: "execute_owned orc rt rc recovering now i2 d w4 = (k, f, w5)" by (metis surj_pair)
    note i2' = p(2) [OF i2(1)]
    have eo: "safe ?D w4 w5" "si_ID k = si_ID i2"
      "f = None \<Longrightarrow> known ?D k w5 \<and> settled (si_Status k)
        \<and> (si_Status i = StatusRunning \<and> \<not> recovering \<longrightarrow> si_Status k = StatusCompleted)"
      using execute_owned_safe [OF env assms(2) safe_good [OF s4] _ _ _ own2] i2'
        valid_cursor_ok [OF None] live by (auto simp: cursor_ok_def)
    have s5: "safe ?D w w5" by (rule safe_trans [OF s4 eo(1)])
    have rel: "release orc rt c owner (k, f, w5) = ((j, e), w')" using ex run i2 own2 by simp
    have s6: "safe ?D w5 w'"
      by (rule release_safe [OF env assms(2) safe_good [OF s5] known_safe [OF _ eo(1)] eo(2) rel])
        (use i2' in blast)
    have fin: "si_Status j = si_Status k" "si_ID j = si_ID k" "e = None \<Longrightarrow> f = None"
      using release_result [OF rel] by simp_all
    have "\<exists>rec. view w' (si_ID i) = Some rec \<and> si_Status rec = si_Status j" if "e = None"
    proof -
      note k = eo(3) [OF fin(3) [OF that]]
      then have "known ?D k w'" using known_safe s6 by blast
      then obtain rec where "view w' (si_ID k) = Some rec" "sg_path ?D k rec"
        using evolves_from_own unfolding known_def by blast
      then show ?thesis using sg_path_terminal [of ?D k rec] k fin(1) eo(2) i2' settled_terminal by simp
    qed
    then show ?thesis using safe_trans [OF s5 s6] fin eo i2' by auto
  qed
qed

lemma Resume_safe:
  assumes env: "saga_env view good orc rt" and "o_store orc = st" and "good w"
    and run: "Resume orc rt c key w = ((j, e), w')"
  shows "safe (o_def orc) w w'
    \<and> (e = None \<longrightarrow> (\<exists>inst rec. j = Some inst \<and> view w' key = Some rec
          \<and> si_Status rec = si_Status inst \<and> settled (si_Status inst)))"
proof (cases "key = []")
  case True
  then show ?thesis using run safe_refl [OF assms(3), of "o_def orc"] by (auto simp: Resume_def)
next
  case False
  let ?D = "o_def orc"
  obtain g w1 where get: "bounded_Get orc rt c key w = (g, w1)" by fastforce
  note g = bounded_Get_safe [OF assms(1-3) get]
  show ?thesis
  proof (cases "\<exists>i d. g = Inr i \<and> si_Definition i = d_name ?D \<and> \<not> IsTerminal (si_Status i) \<and> decode_data orc i = Inr d")
    case True
    then obtain i d where i: "g = Inr i" "si_Definition i = d_name ?D" "\<not> IsTerminal (si_Status i)"
      "decode_data orc i = Inr d" by blast
    obtain k f w2 where ex: "execute orc rt c False i d w1 = ((k, f), w2)" by (metis surj_pair)
    have gd: "safe ?D w w1" "view w1 key = Some i" "si_ID i = key" using g i(1) by blast+
    have "known ?D i w1" using gd i by (intro known_view) auto
    note es = execute_safe [OF env assms(2) safe_good [OF gd(1)] this i(3) ex]
    have "w' = w2" "j = Some k" "e = f" using run False get i ex by (simp_all add: Resume_def)
    then show ?thesis using es safe_trans [OF gd(1)] gd(3) by blast
  next
    case other: False
    have "w' = w1 \<and> e \<noteq> None"
      using run False get other by (auto simp: Resume_def WrapOperation_def split: sum.splits if_splits)
    then show ?thesis using g by auto
  qed
qed

end

context saga_store
begin

lemma bounded_Create_safe:
  assumes env: "saga_env view good orc rt" and "o_store orc = st" and "good w" and "sg_initial (o_def orc) i"
    and run: "bounded_Create orc rt c i w = (r, w')"
  shows "safe (o_def orc) w w' \<and> (r = None \<longrightarrow> known (o_def orc) i w')"
proof -
  let ?D = "o_def orc"
  obtain c1 w1 where to: "WithMaxTimeout rt (Some c) (o_storageTimeout orc) w = (c1, w1)" by fastforce
  have s1: "safe ?D w w1" by (rule WithMaxTimeout_safe [OF env assms(3) to])
  have cr: "ss_Create st c1 i w1 = (r, w')" using run to assms(2) by (simp add: bounded_Create_def)
  note c = create [OF safe_good [OF s1] cr]
  have new: "guar ?D view w1 w'" if "view w1 (si_ID i) = None" "view w' = (view w1)(si_ID i \<mapsto> i)"
    using that assms(4) guar_refl [of ?D view w1] by (auto simp: guar_def evolves_def split: option.splits)
  have "safe ?D w1 w'"
    using c new guar_view [of view w' w1 ?D] unfolding safe_def by (auto split: if_splits)
  moreover have "known ?D i w'" if "r = None"
    using c that assms(4) by (simp add: known_def sg_initial_def)
  ultimately show ?thesis using safe_trans [OF s1] by blast
qed

lemma new_instance_initial: "sg_initial (o_def orc) (new_instance orc key payload now)"
  by (simp add: sg_initial_def new_instance_def)

lemma Start_safe:
  assumes env: "saga_env view good orc rt" and "o_store orc = st" and "good w"
    and run: "Start orc rt c key d w = ((j, e), w')"
  shows "safe (o_def orc) w w'
    \<and> (e = None \<longrightarrow> (\<exists>inst rec. j = Some inst \<and> view w' key = Some rec
          \<and> si_Status rec = si_Status inst \<and> settled (si_Status inst)))"
proof -
  let ?D = "o_def orc"
  obtain now w1 where now: "time_Now rt w = (now, w1)" by fastforce
  have s1: "safe ?D w w1" by (rule time_Now_safe [OF env assms(3) now])
  show ?thesis
  proof (cases "key = [] \<or> (\<exists>x. o_serialize orc d = Inl x)")
    case True
    then show ?thesis
      using run safe_refl [OF assms(3), of ?D] by (cases "key = []") (auto simp: Start_def WrapOperation_def)
  next
    case False
    then obtain b where b: "key \<noteq> []" "o_serialize orc d = Inr b" by (cases "o_serialize orc d") auto
    let ?i = "new_instance orc key b now"
    obtain r w2 where cr: "bounded_Create orc rt c ?i w1 = (r, w2)" by fastforce
    note c = bounded_Create_safe [OF env assms(2) safe_good [OF s1] new_instance_initial cr]
    have s2: "safe ?D w w2" using safe_trans [OF s1] c by blast
    have st: "Start orc rt c key d w = (case r of
        Some x \<Rightarrow> (if err_is x ''ErrInstanceExists'' then Resume orc rt c key w2
                   else ((None, WrapOperation (Some x) ''create saga instance''), w2))
      | None \<Rightarrow> (case execute orc rt c False ?i d w2 of ((inst1, err), w3) \<Rightarrow> ((Some inst1, err), w3)))"
      using b now cr by (simp add: Start_def split: option.split)
    show ?thesis
    proof (cases r)
      case (Some x)
      show ?thesis
      proof (cases "err_is x ''ErrInstanceExists''")
        case True
        then have "Resume orc rt c key w2 = ((j, e), w')" using st run Some by simp
        from Resume_safe [OF env assms(2) safe_good [OF s2] this] show ?thesis
          using safe_trans [OF s2] by blast
      next
        case False
        then show ?thesis using st run Some s2 by (auto simp: WrapOperation_def)
      qed
    next
      case None
      obtain k f w3 where ex: "execute orc rt c False ?i d w2 = ((k, f), w3)" by (metis surj_pair)
      have "known ?D ?i w2" using c None by blast
      from execute_safe [OF env assms(2) safe_good [OF s2] this _ ex]
      show ?thesis
        using st run None ex safe_trans [OF s2] by (auto simp: new_instance_def IsTerminal_def)
    qed
  qed
qed

end

context saga_store
begin

lemma recoverInstance_safe:
  assumes env: "saga_env view good orc rt" and "o_store orc = st" and "good w"
    and run: "recoverInstance orc rt c cand w = (e, w')"
  shows "safe (o_def orc) w w'"
proof -
  let ?D = "o_def orc"
  obtain g w1 where get: "bounded_Get orc rt c (si_ID cand) w = (g, w1)" by fastforce
  note g = bounded_Get_safe [OF assms(1-3) get]
  show ?thesis
  proof (cases "\<exists>i d. g = Inr i \<and> si_Definition i = d_name ?D \<and> \<not> IsTerminal (si_Status i) \<and> decode_data orc i = Inr d")
    case True
    then obtain i d where i: "g = Inr i" "si_Definition i = d_name ?D" "\<not> IsTerminal (si_Status i)"
      "decode_data orc i = Inr d" by blast
    obtain k f w2 where ex: "execute orc rt c True i d w1 = ((k, f), w2)" by (metis surj_pair)
    have gd: "safe ?D w w1" "view w1 (si_ID cand) = Some i" "si_ID i = si_ID cand" using g i(1) by blast+
    have "known ?D i w1" using gd i by (intro known_view) auto
    note es = execute_safe [OF env assms(2) safe_good [OF gd(1)] this i(3) ex]
    have "w' = w2" using run get i ex by (auto simp: recoverInstance_def split: option.splits if_splits)
    then show ?thesis using es safe_trans [OF gd(1)] by blast
  next
    case False
    have "w' = w1" using run get False by (auto simp: recoverInstance_def split: sum.splits if_splits)
    then show ?thesis using g by simp
  qed
qed

lemma recover_all_safe:
  assumes env: "saga_env view good orc rt" and "o_store orc = st"
  shows "good w \<Longrightarrow> safe (o_def orc) w (snd (recover_all orc rt c insts failures w))"
proof (induction insts arbitrary: failures w)
  case Nil
  then show ?case by (simp add: safe_refl)
next
  case (Cons i insts)
  obtain e w1 where ri: "recoverInstance orc rt c i w = (e, w1)" by fastforce
  have s1: "safe (o_def orc) w w1" by (rule recoverInstance_safe [OF assms Cons.prems ri])
  show ?case
    using Cons.IH [OF Cons.prems] Cons.IH [OF safe_good [OF s1]] safe_trans [OF s1] ri
      safe_refl [OF Cons.prems, of "o_def orc"] by (simp split: option.split)
qed

lemma runRecoveryCycleInternal_safe:
  assumes env: "saga_env view good orc rt" and "o_store orc = st" and "good w"
  shows "safe (o_def orc) w (snd (runRecoveryCycleInternal orc rt c w))"
proof -
  let ?D = "o_def orc"
  obtain rc w1 where to: "WithMaxTimeout rt (Some c) (o_recoveryTimeout orc) w = (rc, w1)" by fastforce
  have s1: "safe ?D w w1" by (rule WithMaxTimeout_safe [OF env assms(3) to])
  obtain now w2 where now: "time_Now rt w1 = (now, w2)" by fastforce
  have s2: "safe ?D w w2" by (rule safe_trans [OF s1 time_Now_safe [OF env safe_good [OF s1] now]])
  obtain c1 w3 where to2: "WithMaxTimeout rt (Some rc) (o_storageTimeout orc) w2 = (c1, w3)" by fastforce
  have s3: "safe ?D w w3" by (rule safe_trans [OF s2 WithMaxTimeout_safe [OF env safe_good [OF s2] to2]])
  obtain l w4 where fe: "ss_FetchRecoverable st c1 (d_name ?D) now (o_recoveryBatchSize orc) w3 = (l, w4)"
    by fastforce
  have "safe ?D w3 w4" using fetch [OF safe_good [OF s3] fe] by (simp add: safe_def guar_view)
  then have s4: "safe ?D w w4" by (rule safe_trans [OF s3])
  show ?thesis
    using to now to2 fe assms(2) s4 safe_refl [OF assms(3), of ?D]
      safe_trans [OF s4 recover_all_safe [OF env assms(2) safe_good [OF s4]]]
    by (simp add: runRecoveryCycleInternal_def bounded_FetchRecoverable_def split: option.split sum.split)
qed

end

subsection \<open>The memory store keeps the contract\<close>

definition mem_view :: "saga_store \<times> 'x \<Rightarrow> string \<Rightarrow> Instance option" where
  "mem_view w = gm_get (fst w)"

definition mem_good :: "saga_store \<times> 'x \<Rightarrow> bool" where
  "mem_good w \<longleftrightarrow> (\<forall>key i. gm_get (fst w) key = Some i \<longrightarrow> si_ID i = key)"

interpretation smem: saga_store memory_storage mem_view mem_good
proof unfold_locales
  fix w :: "saga_store \<times> 'x" and key i
  show "mem_good w \<Longrightarrow> mem_view w key = Some i \<Longrightarrow> si_ID i = key"
    by (simp add: mem_good_def mem_view_def)
next
  fix w w' :: "saga_store \<times> 'x" and c i r
  show "mem_good w \<Longrightarrow> ss_Create memory_storage c i w = (r, w') \<Longrightarrow>
      mem_good w' \<and> (if r = None then mem_view w (si_ID i) = None \<and> mem_view w' = (mem_view w)(si_ID i \<mapsto> i)
        else mem_view w' = mem_view w
          \<or> (mem_view w (si_ID i) = None \<and> mem_view w' = (mem_view w)(si_ID i \<mapsto> i)))"
    by (cases w) (auto simp: mem_good_def mem_view_def memory_storage_def sm_Create_def fun_eq_iff
        split: option.splits if_splits)
next
  fix w w' :: "saga_store \<times> 'x" and c key g
  show "mem_good w \<Longrightarrow> ss_Get memory_storage c key w = (g, w') \<Longrightarrow>
      mem_good w' \<and> mem_view w' = mem_view w \<and> (\<forall>i. g = Inr i \<longrightarrow> mem_view w key = Some i)"
    by (cases w) (auto simp: mem_good_def mem_view_def memory_storage_def sm_Get_def split: option.splits)
next
  fix w w' :: "saga_store \<times> 'x" and c i u
  show "mem_good w \<Longrightarrow> ss_Update memory_storage c i w = (u, w') \<Longrightarrow>
      mem_good w'
      \<and> ((\<exists>e. u = Inl e) \<and> mem_view w' = mem_view w
         \<or> (u = Inr (si_Version i + 1) \<or> (\<exists>e. u = Inl e))
           \<and> (\<exists>cur. mem_view w (si_ID i) = Some cur \<and> si_Version cur = si_Version i)
           \<and> mem_view w' = (mem_view w)(si_ID i \<mapsto> i\<lparr>si_Version := si_Version i + 1\<rparr>))"
    by (cases w) (auto simp: mem_good_def mem_view_def memory_storage_def sm_Update_def fun_eq_iff Let_def
        split: option.splits if_splits)
next
  fix w w' :: "saga_store \<times> 'x" and c d now limit l
  show "mem_good w \<Longrightarrow> ss_FetchRecoverable memory_storage c d now limit w = (l, w') \<Longrightarrow>
      mem_good w' \<and> mem_view w' = mem_view w"
    by (cases w) (auto simp: mem_good_def mem_view_def memory_storage_def)
qed

end
