(* ===== verification/Saga.thy ===== *)
theory Saga
  imports SagaRefine
begin

text \<open>
  The properties of the saga orchestrator of \<open>SagaModel\<close> over the in-memory store: its calls
  follow the protocol whatever other drivers do, a rollback undoes what was done in reverse
  order, terminal records are final, nothing is rolled back past the pivot, and a stage is
  committed only after each of its actions has succeeded.
\<close>

subsection \<open>A stage succeeds only when each of its callbacks did\<close>

definition stage_fn :: "bool \<Rightarrow> ('d, 'w) Step \<Rightarrow> ('d, 'w) step_fn option" where
  "stage_fn b s = (if b then sp_compensation s else Some (sp_action s))"

lemma step_call_success:
  assumes "step_call rt c ex what name t fn sw = (None, sw')"
  shows "\<exists>c1 ex1 d1 w1. fn c1 ex1 d1 w1 = (CbOk, snd sw')"
proof -
  obtain n d w where sw: "sw = (n, d, w)" by (metis surj_pair)
  obtain c1 w1 where to: "WithMaxTimeout rt (Some c) t w = (c1, w1)" by fastforce
  obtain r d2 w2 where fn: "fn c1 (withStep ex name) d w1 = (r, d2, w2)" by (metis surj_pair)
  have "r = CbOk" "sw' = (Suc n, d2, w2)"
    using assms sw to fn by (cases r; simp add: step_call_def Wrapf_def)+
  then show ?thesis using fn by (metis snd_conv)
qed

lemma retry_step_success:
  assumes "retry_capped (retryOptions orc rt policy) (step_ctx rt c) (step_call rt c ex what name t fn) sw = (None, sw')"
  shows "\<exists>c1 ex1 d1 w1. fn c1 ex1 d1 w1 = (CbOk, snd sw')"
proof -
  have "0 \<le> ro_maxAttempts (retryOptions orc rt policy)" by (simp add: retryOptions_def maxRetries_def)
  then obtain sw1 where "step_call rt c ex what name t fn sw1 = (None, sw')"
    using retry_capped_success [OF assms] by blast
  then show ?thesis by (rule step_call_success)
qed

lemma stage_run_success:
  assumes "stage_run orc rt ex b c s d w = (n, None, d', w')" and "stage_fn b s = Some fn"
  shows "\<exists>c1 ex1 d1 w1. fn c1 ex1 d1 w1 = (CbOk, d', w')"
proof (cases b)
  case True
  obtain sw where "retry_capped (retryOptions orc rt (compRetryPolicy orc)) (step_ctx rt c)
      (step_call rt c ex ''compensation'' (sp_name s) (resolveTimeout orc s) fn) (0, d, w) = (None, sw)"
    and "snd sw = (d', w')"
    using assms True by (auto simp: stage_run_def compensateStep_def stage_fn_def Let_def split: prod.splits)
  then show ?thesis using retry_step_success by metis
next
  case False
  obtain sw where "retry_capped (retryOptions orc rt (case sp_retry s of Some p \<Rightarrow> p | None \<Rightarrow> o_defaultRetry orc))
      (step_ctx rt c) (step_call rt c ex ''step'' (sp_name s) (resolveTimeout orc s) fn) (0, d, w) = (None, sw)"
    and "snd sw = (d', w')"
    using assms False by (auto simp: stage_run_def runStep_def stage_fn_def Let_def split: prod.splits)
  then show ?thesis using retry_step_success by metis
qed

lemma runStage_success:
  assumes est: "\<And>k fn c ex d w d' w'. k < length steps \<Longrightarrow> stage_fn b (steps ! k) = Some fn
      \<Longrightarrow> fn c ex d w = (CbOk, d', w') \<Longrightarrow> E k w'"
    and keep: "\<And>k. runtime_keeps rt steps (E k)"
    and sticky: "runtime_keeps rt steps (\<lambda>w. ctx_err rt c w \<noteq> None)" and "0 < rt_limit rt"
    and run: "runStage orc rt c ex steps b d w = (attempts, succeeded, None, d', w')"
    and k: "k < length steps" "stage_fn b (steps ! k) \<noteq> None"
  shows "E k w'"
proof (cases "length steps = 1")
  case True
  then have sr: "stage_run orc rt ex b c (steps ! k) d w = (attempts ! 0, None, d', w')"
    using run k by (auto simp: runStage_as_run Let_def split: prod.splits)
  obtain fn where fn: "stage_fn b (steps ! k) = Some fn" using k(2) by blast
  obtain c1 ex1 d1 w1 where "fn c1 ex1 d1 w1 = (CbOk, d', w')"
    using stage_run_success [OF sr fn] by blast
  then show ?thesis by (rule est [OF k(1) fn])
next
  case False
  let ?item = "stage_item (stage_run orc rt ex b) c steps"
  let ?cfg = "stage_options orc b"
  let ?D = "\<lambda>k sw. stage_fn b (steps ! k) \<noteq> None \<longrightarrow> E k (snd (snd (snd sw)))"
  obtain at su where "Process (rt_limit rt) ?cfg (\<lambda>(at, su, d, w). ctx_err rt c w) ?item (length steps)
      (rt_sched rt w) (replicate (length steps) 0, replicate (length steps) False, d, w) = (None, (at, su, d', w'))"
    using run False by (auto simp: runStage_as_run Let_def split: prod.splits)
  then have pr: "processWithOptions (rt_limit rt) ?cfg (\<lambda>(at, su, d, w). ctx_err rt c w) ?item (length steps)
      (rt_sched rt w) (replicate (length steps) 0, replicate (length steps) False, d, w) = (None, (at, su, d', w'))"
    using k(1) by (auto simp: Process_def split: if_splits)
  have est': "?D i (batch_after ?cfg i None sw1)"
    if "i < length steps" "?item cc i sw = (None, sw1)" for cc i sw sw1
    using that stage_run_success [of orc rt ex b "WithCancel c cc" "steps ! i"] est [OF that(1)]
    by (fastforce simp: stage_item_def Let_def split: prod.splits)
  have pres: "?D i (batch_after ?cfg j r sw1)"
    if "j < length steps" "?D i sw" "?item cc j sw = (r, sw1)" for cc i j r sw sw1
    using that stage_item_keeps [OF keep that(1) _ that(3)] by simp
  have st: "ctx_sticky (length steps) ?cfg (\<lambda>(at, su, d, w). ctx_err rt c w) ?item"
    unfolding ctx_sticky_def case_prod_beta using stage_item_keeps [OF sticky] by auto
  have "\<forall>i < length steps. ?D i (at, su, d', w')"
    by (rule processWithOptions_success [where D = ?D, OF _ _ st assms(4) _ pr])
      (rule est', assumption+, rule pres, assumption+, use k in auto)
  then show ?thesis using k by simp
qed

subsection \<open>A small saga\<close>

text \<open>
  The world is the store, a clock and the trace of the calls made. Three stages, the middle one
  parallel; the action of the last one fails when \<open>ok\<close> is false.
\<close>

type_synonym sdemo_world = "saga_store \<times> int \<times> string list"

definition sdemo_fn :: "string \<Rightarrow> bool \<Rightarrow> (nat, sdemo_world) step_fn" where
  "sdemo_fn name ok = (\<lambda>c ex d (s, t, tr).
     (if ok then CbOk else CbErr (Errorf ''boom'' []), Suc d, (s, t + 1, tr @ [name])))"

definition sdemo_step :: "string \<Rightarrow> bool \<Rightarrow> (nat, sdemo_world) Step" where
  "sdemo_step name ok =
     \<lparr> sp_name = name, sp_action = sdemo_fn name ok, sp_compensation = Some (sdemo_fn (''undo '' @ name) True),
       sp_pivot = False, sp_readOnly = False, sp_timeout = 0, sp_retry = None \<rparr>"

definition sdemo_def :: "bool \<Rightarrow> (nat, sdemo_world) Definition" where
  "sdemo_def ok =
     \<lparr> d_name = ''order'',
       d_stages = [\<lparr> stg_name = ''a'', stg_steps = [sdemo_step ''a'' True], stg_parallel = False \<rparr>,
                   \<lparr> stg_name = ''p'', stg_steps = [sdemo_step ''b'' True, sdemo_step ''c'' True], stg_parallel = True \<rparr>,
                   \<lparr> stg_name = ''z'', stg_steps = [sdemo_step ''z'' ok], stg_parallel = False \<rparr>],
       d_pivotIdx = 3, d_missing = [], d_policy = PolicyWarn \<rparr>"

definition sdemo_rt :: "sdemo_world saga_rt" where
  "sdemo_rt =
     \<lparr> rt_clock = (\<lambda>(s, t, tr). t), rt_tick = (\<lambda>(s, t, tr). (s, t + 1, tr)),
       rt_callerErr = (\<lambda>_. None), rt_callerDeadline = None,
       rt_owner = (\<lambda>w. (''me'', w)), rt_timer = (\<lambda>dl w. (False, w)), rt_jitter = (\<lambda>w. (\<lambda>_. 0, w)),
       rt_scaled = (\<lambda>base a. Some base), rt_sched = (\<lambda>w. [1, 0, 1, 0]), rt_limit = 2 \<rparr>"

definition sdemo_orc :: "bool \<Rightarrow> (nat, sdemo_world) Orchestrator" where
  "sdemo_orc ok =
     \<lparr> o_store = memory_storage, o_def = sdemo_def ok, o_serialize = (\<lambda>d. Inr (replicate d CHR ''x'')),
       o_deserialize = (\<lambda>b. Inr (length b)), o_zero = 0, o_stepTimeout = 0, o_sagaTimeout = 0,
       o_defaultRetry = \<lparr> rp_MaxAttempts = 2, rp_BaseDelay = 1, rp_MaxDelay = 5 \<rparr>,
       o_maxCompensationAttempts = 2, o_stepConcurrency = 0, o_executionTimeout = 1000, o_leaseGrace = 10,
       o_storageTimeout = 100, o_recoveryTimeout = 100, o_leader = None, o_recoveryBatchSize = 10,
       o_onDeadLetter = None, o_shouldRetry = None \<rparr>"

definition sdemo_start :: "bool \<Rightarrow> (Instance option \<times> goerr option) \<times> sdemo_world" where
  "sdemo_start ok = Start (sdemo_orc ok) sdemo_rt Caller ''7'' 0 ([], 0, [])"

lemma sdemo_store_kept:
  "fst w' = fst w \<Longrightarrow> mem_good w \<Longrightarrow> mem_good w' \<and> guar D mem_view w w'"
  by (auto simp: mem_good_def mem_view_def intro: guar_view)

lemma sdemo_env: "saga_env mem_view mem_good (sdemo_orc ok) sdemo_rt"
proof -
  have kept: "env_safe D mem_view mem_good f" if "\<And>w. fst (f w) = fst w" for D f
    using sdemo_store_kept that unfolding env_safe_def by blast
  have step: "step_safe D mem_view mem_good (sdemo_fn name b)" for D name b
    unfolding step_safe_def by (intro allI kept) (simp add: sdemo_fn_def split: prod.split)
  show ?thesis
    unfolding saga_env_def Let_def
    by (auto simp: sdemo_orc_def sdemo_def_def sdemo_rt_def sdemo_step_def intro!: kept step)
qed

definition sdemo_summary :: "bool \<Rightarrow> bool \<times> string list \<times> (string \<times> Status) option" where
  "sdemo_summary ok =
     (case sdemo_start ok of ((j, e), w) \<Rightarrow>
        (e = None, snd (snd w), map_option (\<lambda>r. (si_Definition r, si_Status r)) (mem_view w ''7'')))"

lemma sdemo_rolls_back:
  "sdemo_summary False =
     (False, [''a'', ''c'', ''b'', ''z'', ''z'', ''undo c'', ''undo b'', ''undo a''],
      Some (''order'', StatusCompensated))"
  by code_simp

lemma sdemo_completes:
  "sdemo_summary True = (True, [''a'', ''c'', ''b'', ''z''], Some (''order'', StatusCompleted))"
  by code_simp

subsection \<open>Properties\<close>

text \<open>The entry points of the orchestrator, by the world they leave behind.\<close>

definition saga_world_after ::
  "('d, 'w) Orchestrator \<Rightarrow> 'w saga_rt \<Rightarrow> gocx \<Rightarrow> string \<Rightarrow> 'd \<Rightarrow> 'w \<Rightarrow> 'w set" where
  "saga_world_after orc rt c key d w =
     {snd (Start orc rt c key d w), snd (Resume orc rt c key w), snd (runRecoveryCycleInternal orc rt c w)}"

lemma saga_calls_guar:
  assumes "o_store orc = memory_storage" and "saga_env mem_view mem_good orc rt" and "mem_good w"
    and "w' \<in> saga_world_after orc rt c key d w"
  shows "mem_good w' \<and> guar (o_def orc) mem_view w w'"
proof -
  obtain r1 w1 where r: "Resume orc rt c key w = (r1, w1)" by (metis surj_pair)
  obtain r2 w2 where s: "Start orc rt c key d w = (r2, w2)" by (metis surj_pair)
  have "smem.safe (o_def orc) w w1"
    using smem.Resume_safe [OF assms(2,1,3), of c key] r by (cases r1) auto
  moreover have "smem.safe (o_def orc) w w2"
    using smem.Start_safe [OF assms(2,1,3), of c key d] s by (cases r2) auto
  moreover have "smem.safe (o_def orc) w (snd (runRecoveryCycleInternal orc rt c w))"
    by (rule smem.runRecoveryCycleInternal_safe [OF assms(2,1,3)])
  ultimately show ?thesis
    using assms(4) r s by (auto simp: saga_world_after_def smem.safe_def)
qed

text \<open>
  C1: Start, Resume and a recovery pass make only protocol steps on the stored records, however
  the other drivers of the store interleave with them, and although a write that reports an
  error may have been applied: every record they leave behind is reachable by protocol steps
  from the record that was there, or from a fresh one.
\<close>

theorem saga_calls_follow_protocol:
  assumes "o_store orc = memory_storage" and "saga_env mem_view mem_good orc rt" and "mem_good w"
    and "w' \<in> saga_world_after orc rt c key d w"
  shows "mem_good w' \<and> (\<forall>k. evolves (o_def orc) (mem_view w k) (mem_view w' k))"
  using saga_calls_guar [OF assms] by (simp add: guar_def)

theorem saga_calls_follow_protocol_witness:
  "evolves (sdemo_def False) None (mem_view (snd (sdemo_start False)) ''7'')"
  using saga_calls_follow_protocol [OF _ sdemo_env, of False "([], 0, [])" "snd (sdemo_start False)" Caller "''7''" 0]
  by (simp add: sdemo_orc_def sdemo_start_def saga_world_after_def mem_good_def mem_view_def)



text \<open>
  C4: a nil error means the saga is settled. When Start or Resume returns no error, the instance
  it returns is completed or compensated, and the stored record has the same status.
\<close>

theorem saga_nil_error_is_settled:
  assumes "o_store orc = memory_storage" and "saga_env mem_view mem_good orc rt" and "mem_good w"
    and "Start orc rt c key d w = ((j, None), w') \<or> Resume orc rt c key w = ((j, None), w')"
  shows "\<exists>inst rec. j = Some inst \<and> mem_view w' key = Some rec \<and> si_Status rec = si_Status inst
    \<and> (si_Status inst = StatusCompleted \<or> si_Status inst = StatusCompensated)"
  using assms(4) smem.Start_safe [OF assms(2,1,3), of c key d j None w']
    smem.Resume_safe [OF assms(2,1,3), of c key j None w'] unfolding settled_def by blast

theorem saga_nil_error_is_settled_witness:
  "\<exists>rec. mem_view (snd (sdemo_start True)) ''7'' = Some rec
     \<and> (si_Status rec = StatusCompleted \<or> si_Status rec = StatusCompensated)"
proof -
  obtain j w where run: "sdemo_start True = ((j, None), w)"
    using sdemo_completes by (cases "sdemo_start True") (auto simp: sdemo_summary_def split: prod.splits)
  show ?thesis
    using saga_nil_error_is_settled [OF _ sdemo_env, of True "([], 0, [])" Caller "''7''" 0 j w] run
    by (auto simp: sdemo_orc_def sdemo_start_def mem_good_def)
qed

text \<open>
  C5: terminal records are final. Once a record of this saga is completed, compensated or failed,
  no call changes its status, cursor, history, data or error text.
\<close>

theorem saga_terminal_is_final:
  assumes "o_store orc = memory_storage" and "saga_env mem_view mem_good orc rt" and "mem_good w"
    and "w' \<in> saga_world_after orc rt c key d w"
    and "mem_view w k = Some i" and "si_Definition i = d_name (o_def orc)" and "IsTerminal (si_Status i)"
  shows "\<exists>j. mem_view w' k = Some j \<and> si_Status j = si_Status i \<and> si_Stage j = si_Stage i
    \<and> si_Steps j = si_Steps i \<and> si_Data j = si_Data i \<and> si_PendingSteps j = si_PendingSteps i
    \<and> si_LastError j = si_LastError i"
proof -
  have "evolves (o_def orc) (Some i) (mem_view w' k)"
    using saga_calls_guar [OF assms(1-4)] assms(5) unfolding guar_def by metis
  then obtain j where "mem_view w' k = Some j" "sg_path (o_def orc) i j"
    using evolves_from_own assms(6) by blast
  then show ?thesis using sg_path_terminal assms(7) by blast
qed

definition sdemo_record :: "Status \<Rightarrow> int \<Rightarrow> Instance" where
  "sdemo_record s k =
     (new_instance (sdemo_orc True) ''7'' [] 0)\<lparr>si_Status := s, si_Stage := k\<rparr>"

definition sdemo_record_world :: "Status \<Rightarrow> int \<Rightarrow> sdemo_world" where
  "sdemo_record_world s k = ([(''7'', sdemo_record s k)], 0, [])"

lemma sdemo_record_facts:
  "o_store (sdemo_orc ok) = memory_storage" "mem_good (sdemo_record_world s k)"
  "mem_view (sdemo_record_world s k) ''7'' = Some (sdemo_record s k)"
  "si_Definition (sdemo_record s k) = d_name (o_def (sdemo_orc True))" "si_Status (sdemo_record s k) = s"
  "si_Stage (sdemo_record s k) = k" "d_pivotIdx (o_def (sdemo_orc True)) = 3"
  by (simp_all add: sdemo_orc_def mem_good_def mem_view_def sdemo_record_def sdemo_record_world_def
      new_instance_def gm_get_def sdemo_def_def)

theorem saga_terminal_is_final_witness:
  "\<exists>j. mem_view (snd (Resume (sdemo_orc True) sdemo_rt Caller ''7'' (sdemo_record_world StatusFailed 2))) ''7'' = Some j
     \<and> si_Status j = StatusFailed"
proof -
  have "snd (Resume (sdemo_orc True) sdemo_rt Caller ''7'' (sdemo_record_world StatusFailed 2))
      \<in> saga_world_after (sdemo_orc True) sdemo_rt Caller ''7'' 0 (sdemo_record_world StatusFailed 2)"
    by (simp add: saga_world_after_def)
  from saga_terminal_is_final [OF _ sdemo_env _ this, of "''7''" "sdemo_record StatusFailed 2"]
  show ?thesis by (auto simp: sdemo_record_facts IsTerminal_def)
qed

text \<open>
  C6: nothing is rolled back at or past the pivot. From a running record whose cursor has reached
  the pivot stage no call leads to a record that is compensating or compensated.
\<close>

theorem saga_no_rollback_past_pivot:
  assumes "o_store orc = memory_storage" and "saga_env mem_view mem_good orc rt" and "mem_good w"
    and "w' \<in> saga_world_after orc rt c key d w"
    and "mem_view w k = Some i" and "si_Definition i = d_name (o_def orc)"
    and "si_Status i = StatusRunning" and "d_pivotIdx (o_def orc) \<le> si_Stage i"
  shows "\<exists>j. mem_view w' k = Some j \<and> si_Status j \<noteq> StatusCompensating \<and> si_Status j \<noteq> StatusCompensated"
proof -
  have "evolves (o_def orc) (Some i) (mem_view w' k)"
    using saga_calls_guar [OF assms(1-4)] assms(5) unfolding guar_def by metis
  then obtain j where j: "mem_view w' k = Some j" "sg_path (o_def orc) i j"
    using evolves_from_own assms(6) by blast
  have "past_pivot (o_def orc) i" using assms(7,8) by (simp add: past_pivot_def)
  from sg_path_past_pivot [OF j(2) this] show ?thesis using j(1) by (auto simp: past_pivot_def)
qed

theorem saga_no_rollback_past_pivot_witness:
  "\<exists>j. mem_view (snd (Resume (sdemo_orc True) sdemo_rt Caller ''7'' (sdemo_record_world StatusRunning 3))) ''7'' = Some j
     \<and> si_Status j \<noteq> StatusCompensated"
proof -
  have "snd (Resume (sdemo_orc True) sdemo_rt Caller ''7'' (sdemo_record_world StatusRunning 3))
      \<in> saga_world_after (sdemo_orc True) sdemo_rt Caller ''7'' 0 (sdemo_record_world StatusRunning 3)"
    by (simp add: saga_world_after_def)
  from saga_no_rollback_past_pivot [OF _ sdemo_env _ this, of "''7''" "sdemo_record StatusRunning 3"]
  show ?thesis by (auto simp: sdemo_record_facts)
qed

subsection \<open>Commits\<close>

lemma persist_outside:
  assumes "o_store orc = memory_storage" and "\<And>w. P (snd w) \<Longrightarrow> P (snd (rt_tick rt w))" and "P (snd w)"
    and "persist orc rt c i w = (r, w')"
  shows "P (snd w')"
proof -
  obtain c1 w1 where to: "WithMaxTimeout rt (Some c) (o_storageTimeout orc) w = (c1, w1)" by (metis surj_pair)
  have P1: "P (snd w1)"
    using WithMaxTimeout_keeps [of "\<lambda>w. P (snd w)" rt w "Some c"] assms(2,3) to by (metis snd_conv)
  have "snd (snd (ss_Update memory_storage c1 i w1)) = snd w1"
    by (cases w1) (simp add: memory_storage_def Let_def split: prod.split)
  then show ?thesis
    using assms(1,4) to P1
    by (auto simp: persist_def bounded_Update_def split: option.splits prod.splits sum.splits)
qed

text \<open>
  C3: a stage is committed only after each of its actions has succeeded. Let \<open>E k\<close> be any fact
  about the world outside the store that a successful call of action \<open>k\<close> establishes and that
  nothing running during the stage undoes. If the forward phase moves past the stage, every
  \<open>E k\<close> holds, whatever the schedule, the retries and the number of workers.
\<close>

theorem saga_commits_only_after_success:
  assumes "o_store orc = memory_storage"
    and "\<And>k c ex d w d' w'. k < length steps \<Longrightarrow> sp_action (steps ! k) c ex d w = (CbOk, d', w') \<Longrightarrow> E k (snd w')"
    and "\<And>k. runtime_keeps rt steps (\<lambda>w. E k (snd w))"
    and "runtime_keeps rt steps (\<lambda>w. ctx_err rt c w \<noteq> None)" and "0 < rt_limit rt"
    and "steps = stg_steps (d_stages (o_def orc) ! nat (si_Stage i))"
    and "forward_stage orc rt c ex i d w = Inr (j, d', w')" and "k < length steps"
  shows "E k (snd w')"
proof -
  have tick: "E k (snd (rt_tick rt w))" if "E k (snd w)" for w
    using assms(3) [of k] that unfolding runtime_keeps_def by blast
  obtain r w1 where per: "persist orc rt c (i\<lparr>si_PendingSteps := map int [0..<length steps]\<rparr>) w = (r, w1)"
    by (metis surj_pair)
  then obtain i2 where r: "r = Inr i2"
    using assms(6,7) by (cases r) (auto simp: forward_stage_def Let_def)
  obtain attempts succ err d1 w2 where
    rs: "runStage orc rt c (withStage ex (si_Stage i2)) steps False d w1 = (attempts, succ, err, d1, w2)"
    by (metis surj_pair)
  obtain b where b: "ctx_err rt c w2 = None" "encodeInto orc (i2\<lparr>si_PendingSteps := succ\<rparr>) d1 = Inr b" "err = None"
    and fc: "forward_commit orc rt c steps attempts b d1 w2 = Inr (j, d', w')"
    using assms(7) per r rs by (auto simp: forward_stage_def assms(6) [symmetric] Let_def
        split: option.splits sum.splits)
  have "E k (snd w2)"
    by (rule runStage_success [where b = False and E = "\<lambda>k w. E k (snd w)" and steps = steps and k = k,
          OF _ assms(3,4,5) rs [unfolded b(3)] assms(8)])
      (auto simp: stage_fn_def intro: assms(2))
  then have E2: "E k (snd (rt_tick rt (rt_tick rt w2)))" by (intro tick)
  obtain b1 b2 where pe: "persist orc rt c b1 (rt_tick rt (rt_tick rt w2)) = (Inr b2, w')"
    using fc by (auto simp: forward_commit_def recordStage_def time_Now_def Let_def split: sum.splits prod.splits)
  show ?thesis
    by (rule persist_outside [where P = "E k", OF assms(1) _ E2 pe]) (rule tick)
qed

definition sdemo_stage :: "Instance \<times> nat \<times> sdemo_world" where
  "sdemo_stage =
     (case forward_stage (sdemo_orc True) sdemo_rt Caller
             \<lparr> ex_InstanceID = ''7'', ex_Fence = 1, ex_StepKey = [], ex_stage = 0 \<rparr>
             (sdemo_record StatusRunning 1) 0 (sdemo_record_world StatusRunning 1) of
        Inr r \<Rightarrow> r | Inl (j, e, d, w) \<Rightarrow> (j, d, w))"

lemma sdemo_stage_commits:
  "\<not> isl (forward_stage (sdemo_orc True) sdemo_rt Caller
             \<lparr> ex_InstanceID = ''7'', ex_Fence = 1, ex_StepKey = [], ex_stage = 0 \<rparr>
             (sdemo_record StatusRunning 1) 0 (sdemo_record_world StatusRunning 1))"
  by code_simp

theorem saga_commits_only_after_success_witness: "''c'' \<in> set (snd (snd (snd (snd sdemo_stage))))"
proof -
  let ?steps = "[sdemo_step ''b'' True, sdemo_step ''c'' True]"
  let ?E = "\<lambda>k x. k < 2 \<longrightarrow> sp_name (?steps ! k) \<in> set (snd x)"
  obtain j d' w' where run: "forward_stage (sdemo_orc True) sdemo_rt Caller
      \<lparr> ex_InstanceID = ''7'', ex_Fence = 1, ex_StepKey = [], ex_stage = 0 \<rparr>
      (sdemo_record StatusRunning 1) 0 (sdemo_record_world StatusRunning 1) = Inr (j, d', w')"
    using sdemo_stage_commits by (metis isl_def old.sum.exhaust surj_pair)
  have est: "?E k (snd w1)" if "k < length ?steps" "sp_action (?steps ! k) c ex d w = (CbOk, d1, w1)"
    for k c ex d w d1 w1
    using that by (auto simp: less_Suc_eq sdemo_step_def sdemo_fn_def split: prod.splits)
  have keep: "runtime_keeps sdemo_rt ?steps (\<lambda>w. ?E k (snd w))" for k
    by (auto simp: runtime_keeps_def sdemo_rt_def sdemo_step_def sdemo_fn_def)
  have ctx: "runtime_keeps sdemo_rt ?steps (\<lambda>w. ctx_err sdemo_rt Caller w \<noteq> None)"
    by (simp add: runtime_keeps_def sdemo_rt_def)
  have "?E 1 (snd w')"
    by (rule saga_commits_only_after_success [where steps = ?steps and E = ?E and rt = sdemo_rt and k = 1,
          OF sdemo_record_facts(1) _ keep ctx _ _ run])
      (use est in \<open>auto simp: sdemo_rt_def sdemo_record_facts sdemo_orc_def sdemo_def_def\<close>)
  then show ?thesis using run by (simp add: sdemo_stage_def sdemo_step_def)
qed

end
