(* ===== verification/SwissTable.thy ===== *)
theory SwissTable
  imports Atlas_Prelude "HOL-Library.Word"
begin

text \<open>
  The read-only hash map of \<^verbatim>\<open>src/core/collections/maps/immutable_map.go\<close>: an open-addressing
  table of groups of eight slots, whose control bytes are packed in one 64-bit word per group
  and scanned with word arithmetic.

  A table is built by insertions into an allocated table and is never changed afterwards.
  \<open>hash\<close> stands for \<^verbatim>\<open>maphash.Comparable\<close> under the seed of the table and is arbitrary; no
  property depends on its quality. \<open>None\<close> in the outer option of a result is a Go panic: an
  index out of range, or the full table of \<^verbatim>\<open>insert\<close>. Slot numbers are natural numbers; the
  properties bound the number of entries by \<open>2 ^ 60\<close>, below which the size computation of
  \<^verbatim>\<open>allocImmutable\<close> stays within Go's int. Iterators are the lists of what they yield when the
  consumer never stops early.
\<close>

unbundle bit_operations_syntax

subsection \<open>Group words\<close>

definition loBits :: "64 word" where
  "loBits = 0x0101010101010101"

definition hiBits :: "64 word" where
  "hiBits = 0x8080808080808080"

definition allEmpty :: "64 word" where
  "allEmpty = hiBits"

definition h2Mask :: "64 word" where
  "h2Mask = 0x7F"

definition byteMask :: "64 word" where
  "byteMask = 0xFF"

definition matchByte :: "64 word \<Rightarrow> 8 word \<Rightarrow> 64 word" where
  "matchByte word needle =
     (let broadcast = ucast needle * loBits;
          diff = word XOR broadcast
      in (diff - loBits) AND NOT diff AND hiBits)"

definition matchEmpty :: "64 word \<Rightarrow> 64 word" where
  "matchEmpty word = word AND NOT (push_bit 1 word) AND hiBits"

text \<open>\<^verbatim>\<open>bits.TrailingZeros64\<close>: the number of low zero bits, 64 for zero.\<close>

definition TrailingZeros64 :: "64 word \<Rightarrow> nat" where
  "TrailingZeros64 w = length (takeWhile (\<lambda>n. \<not> bit w n) [0..<64])"

text \<open>\<^verbatim>\<open>mask &= mask - 1\<close> clears the lowest set bit, so a loop over the set bits ends.\<close>

lemma clear_lowest_less:
  fixes w :: "64 word"
  assumes "w \<noteq> 0"
  shows "unat (w AND (w - 1)) < unat w"
proof -
  have "unat (w AND (w - 1)) \<le> unat (w - 1)" by (simp add: word_and_le1 flip: word_le_nat_alt)
  also have "\<dots> < unat w" using assms by (simp add: unat_minus_one unat_gt_0)
  finally show ?thesis .
qed

definition nextGroupMultiple :: "nat \<Rightarrow> nat" where
  "nextGroupMultiple n = (n + 7) - (n + 7) mod 8"

subsection \<open>The table\<close>

record ('k, 'v) ImmutableMap =
  im_ctrl :: "64 word list"
  im_keys :: "'k list"
  im_vals :: "'v list"
  im_len :: nat
  im_groups :: "64 word"

text \<open>\<open>zk\<close> and \<open>zv\<close> are the zero values of the key and value types, which fill a new slice.\<close>

definition allocImmutable :: "'k \<Rightarrow> 'v \<Rightarrow> nat \<Rightarrow> ('k, 'v) ImmutableMap" where
  "allocImmutable zk zv n =
     (let numSlots = nextGroupMultiple (n * 8 div 7 + 1);
          groups = numSlots div 8
      in \<lparr> im_ctrl = replicate groups allEmpty, im_keys = replicate numSlots zk,
           im_vals = replicate numSlots zv, im_len = 0, im_groups = of_nat groups \<rparr>)"

definition im_empty :: "('k, 'v) ImmutableMap" where
  "im_empty = \<lparr> im_ctrl = [], im_keys = [], im_vals = [], im_len = 0, im_groups = 0 \<rparr>"

definition h1 :: "('k, 'v) ImmutableMap \<Rightarrow> 64 word \<Rightarrow> 64 word" where
  "h1 m h = drop_bit 7 h mod im_groups m"

definition h2 :: "64 word \<Rightarrow> 8 word" where
  "h2 h = ucast (h AND h2Mask)"

definition next_group :: "('k, 'v) ImmutableMap \<Rightarrow> 64 word \<Rightarrow> 64 word" where
  "next_group m grp = (let g = grp + 1 in if g \<ge> im_groups m then 0 else g)"

text \<open>An index expression of Go: \<open>None\<close> is the panic on an index out of range.\<close>

definition go_index :: "'a list \<Rightarrow> nat \<Rightarrow> 'a option" where
  "go_index xs i = (if i < length xs then Some (xs ! i) else None)"

text \<open>The loop over the candidate lanes of a group: \<open>Some (Some slot)\<close> when the key is there.\<close>

function find_slot :: "'k list \<Rightarrow> 'k \<Rightarrow> nat \<Rightarrow> 64 word \<Rightarrow> nat option option" where
  "find_slot keys key base cand =
     (if cand = 0 then Some None
      else let slot = base + TrailingZeros64 cand div 8
           in case go_index keys slot of
                None \<Rightarrow> None
              | Some k \<Rightarrow> if k = key then Some (Some slot)
                          else find_slot keys key base (cand AND (cand - 1)))"
  by auto

termination find_slot
  by (relation "measure (\<lambda>(keys, key, base, cand). unat cand)") (auto intro: clear_lowest_less)

declare find_slot.simps [simp del]

primrec get_loop :: "('k, 'v) ImmutableMap \<Rightarrow> 'k \<Rightarrow> 8 word \<Rightarrow> nat \<Rightarrow> 64 word \<Rightarrow> 'v option option" where
  "get_loop m key needle 0 grp = Some None"
| "get_loop m key needle (Suc n) grp =
     (case go_index (im_ctrl m) (unat grp) of
        None \<Rightarrow> None
      | Some word \<Rightarrow>
          (case find_slot (im_keys m) key (unat grp * 8) (matchByte word needle) of
             None \<Rightarrow> None
           | Some (Some slot) \<Rightarrow> (case go_index (im_vals m) slot of None \<Rightarrow> None | Some v \<Rightarrow> Some (Some v))
           | Some None \<Rightarrow>
               if matchEmpty word \<noteq> 0 then Some None
               else get_loop m key needle n (next_group m grp)))"

definition im_Get :: "('k \<Rightarrow> 64 word) \<Rightarrow> ('k, 'v) ImmutableMap \<Rightarrow> 'k \<Rightarrow> 'v option option" where
  "im_Get hash m key =
     (if im_len m = 0 then Some None
      else get_loop m key (h2 (hash key)) (unat (im_groups m)) (h1 m (hash key)))"

definition im_Contains :: "('k \<Rightarrow> 64 word) \<Rightarrow> ('k, 'v) ImmutableMap \<Rightarrow> 'k \<Rightarrow> bool option" where
  "im_Contains hash m key = map_option (\<lambda>r. r \<noteq> None) (im_Get hash m key)"

definition im_Len :: "('k, 'v) ImmutableMap \<Rightarrow> nat" where
  "im_Len m = im_len m"

definition go_store :: "'a list \<Rightarrow> nat \<Rightarrow> 'a \<Rightarrow> 'a list option" where
  "go_store xs i x = (if i < length xs then Some (xs[i := x]) else None)"

definition place :: "('k, 'v) ImmutableMap \<Rightarrow> 'k \<Rightarrow> 'v \<Rightarrow> 8 word \<Rightarrow> 64 word \<Rightarrow> 64 word \<Rightarrow> ('k, 'v) ImmutableMap option" where
  "place m key v needle grp word =
     (let pos = TrailingZeros64 (matchEmpty word) div 8;
          slot = unat grp * 8 + pos;
          shift = pos * 8;
          word' = (word AND NOT (push_bit shift byteMask)) OR push_bit shift (ucast needle)
      in case (go_store (im_ctrl m) (unat grp) word', go_store (im_keys m) slot key, go_store (im_vals m) slot v) of
           (Some ctrl, Some ks, Some vs) \<Rightarrow>
             Some (m\<lparr>im_ctrl := ctrl, im_keys := ks, im_vals := vs, im_len := im_len m + 1\<rparr>)
         | _ \<Rightarrow> None)"

primrec insert_loop :: "('k, 'v) ImmutableMap \<Rightarrow> 'k \<Rightarrow> 'v \<Rightarrow> 8 word \<Rightarrow> nat \<Rightarrow> 64 word \<Rightarrow> ('k, 'v) ImmutableMap option" where
  "insert_loop m key v needle 0 grp = None"
| "insert_loop m key v needle (Suc n) grp =
     (case go_index (im_ctrl m) (unat grp) of
        None \<Rightarrow> None
      | Some word \<Rightarrow>
          (case find_slot (im_keys m) key (unat grp * 8) (matchByte word needle) of
             None \<Rightarrow> None
           | Some (Some slot) \<Rightarrow> map_option (\<lambda>vs. m\<lparr>im_vals := vs\<rparr>) (go_store (im_vals m) slot v)
           | Some None \<Rightarrow>
               if matchEmpty word \<noteq> 0 then place m key v needle grp word
               else insert_loop m key v needle n (next_group m grp)))"

definition im_insert :: "('k \<Rightarrow> 64 word) \<Rightarrow> 'k \<Rightarrow> 'v \<Rightarrow> ('k, 'v) ImmutableMap \<Rightarrow> ('k, 'v) ImmutableMap option" where
  "im_insert hash key v m = insert_loop m key v (h2 (hash key)) (unat (im_groups m)) (h1 m (hash key))"

primrec im_insert_all ::
  "('k \<Rightarrow> 64 word) \<Rightarrow> ('k \<times> 'v) list \<Rightarrow> ('k, 'v) ImmutableMap \<Rightarrow> ('k, 'v) ImmutableMap option" where
  "im_insert_all hash [] m = Some m"
| "im_insert_all hash (kv # kvs) m =
     (case im_insert hash (fst kv) (snd kv) m of None \<Rightarrow> None | Some m1 \<Rightarrow> im_insert_all hash kvs m1)"

text \<open>The source map of \<^verbatim>\<open>NewImmutableMap\<close> is the list of its entries in the order Go visits them.\<close>

definition NewImmutableMap :: "('k \<Rightarrow> 64 word) \<Rightarrow> 'k \<Rightarrow> 'v \<Rightarrow> ('k, 'v) gomap \<Rightarrow> ('k, 'v) ImmutableMap option" where
  "NewImmutableMap hash zk zv src =
     (if length src = 0 then Some im_empty
      else im_insert_all hash src (allocImmutable zk zv (length src)))"

definition NewImmutableMapFromEntries ::
  "('k \<Rightarrow> 64 word) \<Rightarrow> 'k \<Rightarrow> 'v \<Rightarrow> 'k list \<Rightarrow> 'v list \<Rightarrow> ('k, 'v) ImmutableMap option" where
  "NewImmutableMapFromEntries hash zk zv keys values =
     (if length keys \<noteq> length values then None
      else if length keys = 0 then Some im_empty
      else im_insert_all hash (zip keys values) (allocImmutable zk zv (length keys)))"

text \<open>The loop over the occupied lanes of a group, from the lowest.\<close>

function filled_slots :: "nat \<Rightarrow> 64 word \<Rightarrow> nat list" where
  "filled_slots base filled =
     (if filled = 0 then []
      else (base + TrailingZeros64 filled div 8) # filled_slots base (filled AND (filled - 1)))"
  by auto

termination filled_slots
  by (relation "measure (\<lambda>(base, filled). unat filled)") (auto intro: clear_lowest_less)

declare filled_slots.simps [simp del]

definition im_slots :: "('k, 'v) ImmutableMap \<Rightarrow> nat list" where
  "im_slots m =
     concat (map (\<lambda>(g, word). if word = allEmpty then [] else filled_slots (g * 8) (NOT word AND hiBits))
       (enumerate 0 (im_ctrl m)))"

definition im_All :: "('k, 'v) ImmutableMap \<Rightarrow> ('k \<times> 'v) option list" where
  "im_All m =
     map (\<lambda>slot. case (go_index (im_keys m) slot, go_index (im_vals m) slot) of
            (Some k, Some v) \<Rightarrow> Some (k, v) | _ \<Rightarrow> None) (im_slots m)"

definition im_Keys :: "('k, 'v) ImmutableMap \<Rightarrow> 'k option list" where
  "im_Keys m = map (go_index (im_keys m)) (im_slots m)"

definition im_Values :: "('k, 'v) ImmutableMap \<Rightarrow> 'v option list" where
  "im_Values m = map (go_index (im_vals m)) (im_slots m)"

subsection \<open>Lanes of a group word\<close>

text \<open>The eight control bytes of a group, and the lanes whose top bit a mask has set.\<close>

definition lane :: "64 word \<Rightarrow> nat \<Rightarrow> 64 word" where
  "lane w i = take_bit 8 (drop_bit (8 * i) w)"

definition high :: "64 word \<Rightarrow> nat \<Rightarrow> bool" where
  "high w i = bit w (8 * i + 7)"

definition lanes :: "64 word \<Rightarrow> nat list" where
  "lanes w = filter (high w) [0..<8]"

lemma bit_lane: "bit (lane w i) n \<longleftrightarrow> n < 8 \<and> bit w (8 * i + n)"
  by (simp add: lane_def bit_take_bit_iff bit_drop_bit_eq)

lemma unat_lane: "unat (lane w i) = unat w div 2 ^ (8 * i) mod 256"
proof -
  have "unat w < 2 ^ 64" using unsigned_less [of w] by simp
  then show ?thesis
    unfolding lane_def unsigned_take_bit_eq unsigned_drop_bit_eq by (simp add: take_bit_eq_mod drop_bit_eq_div)
qed

lemma uint_lane: "uint (lane w i) = uint w div 2 ^ (8 * i) mod 256"
  using uint_bounded [of w] unfolding lane_def unsigned_take_bit_eq unsigned_drop_bit_eq
  by (simp add: take_bit_eq_mod drop_bit_eq_div mod_pos_pos_trivial)

lemma lane_eqI: "(\<And>n. n < 8 \<Longrightarrow> bit v (8 * i + n) = bit w (8 * j + n)) \<Longrightarrow> lane v i = lane w j"
  by (rule bit_eqI) (auto simp: bit_lane)

lemma bit_hiBits: "bit hiBits n \<longleftrightarrow> n < 64 \<and> n mod 8 = 7"
proof -
  have "\<forall>n \<in> set [0..<64]. bit hiBits n \<longleftrightarrow> n mod 8 = 7" by (simp add: hiBits_def upt_rec)
  then show ?thesis using bit_imp_le_length [of hiBits n] by auto
qed

lemma less_8_cases: "i < (8::nat) \<Longrightarrow> i \<in> {0, 1, 2, 3, 4, 5, 6, 7}"
  by auto

lemma TrailingZeros64_set:
  assumes "w \<noteq> 0"
  shows "bit w (TrailingZeros64 w)" "TrailingZeros64 w < 64" "n < TrailingZeros64 w \<Longrightarrow> \<not> bit w n"
proof -
  let ?P = "\<lambda>n. \<not> bit w n"
  obtain k where k: "bit w k" using assms by (auto simp: bit_eq_iff)
  then have "k < 64" using bit_imp_le_length [of w k] by simp
  with k have "takeWhile ?P [0..<64] \<noteq> [0..<64]" by (auto simp: takeWhile_eq_all_conv)
  then have "length (takeWhile ?P [0..<64]) \<noteq> 64"
    by (metis diff_zero length_upt takeWhile_eq_take take_all_iff order_refl)
  then show lt: "TrailingZeros64 w < 64"
    using length_takeWhile_le [of ?P "[0..<64]"] by (simp add: TrailingZeros64_def)
  show "bit w (TrailingZeros64 w)"
    using nth_length_takeWhile [of ?P "[0..<64]"] lt by (simp add: TrailingZeros64_def)
  show "\<not> bit w n" if "n < TrailingZeros64 w"
    using takeWhile_nth [of n ?P "[0..<64]"] nth_mem [of n "takeWhile ?P [0..<64]"] that lt
    by (auto simp: TrailingZeros64_def dest: set_takeWhileD)
qed

lemma clear_lowest_bit:
  fixes w :: "64 word"
  assumes "w \<noteq> 0"
  shows "bit (w AND (w - 1)) n \<longleftrightarrow> bit w n \<and> n \<noteq> TrailingZeros64 w"
proof -
  let ?t = "TrailingZeros64 w"
  define hi where "hi = w AND NOT (mask (Suc ?t))"
  have "w = hi OR push_bit ?t 1"
    using TrailingZeros64_set [OF assms]
    by (intro bit_eqI) (auto simp: hi_def bit_simps not_less less_Suc_eq_le le_less intro: linorder_neqE_nat)
  also have "\<dots> = hi + push_bit ?t 1"
    by (rule disjunctive_add [symmetric]) (auto simp: hi_def bit_simps)
  finally have "w - 1 = hi + mask ?t"
    by (simp add: mask_eq_decr_exp push_bit_eq_mult algebra_simps)
  also have "\<dots> = hi OR mask ?t"
    by (rule disjunctive_add) (auto simp: hi_def bit_simps)
  finally have "bit (w - 1) n \<longleftrightarrow> (bit w n \<and> ?t < n) \<or> n < ?t"
    using TrailingZeros64_set(2) [OF assms] bit_imp_le_length [of w n]
    by (auto simp: hi_def bit_simps)
  then show ?thesis
    using TrailingZeros64_set(3) [OF assms] linorder_neqE_nat by (auto simp: bit_and_iff)
qed

lemma lanes_Nil_iff: "w AND hiBits = w \<Longrightarrow> lanes w = [] \<longleftrightarrow> w = 0"
proof
  assume sub: "w AND hiBits = w" and "lanes w = []"
  then have no: "\<not> bit w (8 * i + 7)" if "i < 8" for i
    using that by (auto simp: lanes_def filter_empty_conv high_def)
  have "\<not> bit w n" for n
  proof
    assume "bit w n"
    then have "bit (w AND hiBits) n" using sub by simp
    then have "n mod 8 = 7" "n < 64" by (simp_all add: bit_and_iff bit_hiBits)
    then have "n = 8 * (n div 8) + 7" "n div 8 < 8" using div_mult_mod_eq [of n 8] by simp_all
    then show False using no [of "n div 8"] \<open>bit w n\<close> by metis
  qed
  then show "w = 0" by (simp add: bit_eq_iff)
qed (simp add: lanes_def high_def)

lemma lanes_step:
  assumes "w AND hiBits = w" and "w \<noteq> 0"
  shows "lanes w = (TrailingZeros64 w div 8) # lanes (w AND (w - 1))" and "(w AND (w - 1)) AND hiBits = w AND (w - 1)"
proof -
  let ?t = "TrailingZeros64 w"
  note t = TrailingZeros64_set [OF assms(2)]
  show "(w AND (w - 1)) AND hiBits = w AND (w - 1)" using assms(1) by (metis and.assoc and.commute)
  have "?t mod 8 = 7"
    using t(1) assms(1) by (metis bit_and_iff bit_hiBits)
  then obtain i where i: "?t = 8 * i + 7" "i < 8"
    using t(2) div_mult_mod_eq [of ?t 8] that [of "?t div 8"] by simp
  have high: "high (w AND (w - 1)) j \<longleftrightarrow> high w j \<and> j \<noteq> i" for j
    using clear_lowest_bit [OF assms(2), of "8 * j + 7"] i(1) by (simp add: high_def)
  have before: "\<not> high w j" if "j < i" for j
    using t(3) [of "8 * j + 7"] i(1) that by (simp add: high_def)
  have split: "[0..<8] = [0..<i] @ i # [Suc i..<8]"
    using i(2) upt_add_eq_append [of 0 i "8 - i"] by (simp add: upt_conv_Cons)
  have "filter (high w) [0..<i] = []" "filter (high (w AND (w - 1))) [0..<i] = []"
    using before high by (auto simp: filter_empty_conv)
  moreover have "filter (high (w AND (w - 1))) [Suc i..<8] = filter (high w) [Suc i..<8]"
    by (rule filter_cong) (auto simp: high)
  moreover have "high w i" "\<not> high (w AND (w - 1)) i" using t(1) i(1) high by (auto simp: high_def)
  ultimately show "lanes w = (?t div 8) # lanes (w AND (w - 1))"
    using i(1) unfolding lanes_def split by simp
qed


subsection \<open>What the group scans find\<close>

lemma lane_arith:
  fixes x :: nat
  assumes "b < c" and "x < 256"
  shows "(b + (a * 256 + x) * c) div c mod 256 = x"
  using assms by simp

text \<open>Around the one in lane \<open>i\<close>, \<^verbatim>\<open>loBits\<close> has a part below the lane and a part above it.\<close>

lemma loBits_split:
  assumes "i < 8"
  shows "(0x0101010101010101 :: nat) =
      0x0101010101010101 mod 2 ^ (8 * i) + (0x0101010101010101 div 2 ^ (8 * i + 8) * 256 + 1) * 2 ^ (8 * i)"
    and "(0x0101010101010101 :: nat) mod 2 ^ (8 * i) * 255 < 2 ^ (8 * i)"
  using less_8_cases [OF assms] by auto

lemma broadcast_lane:
  assumes "i < 8"
  shows "lane (ucast needle * loBits) i = ucast (needle :: 8 word)"
proof -
  define x where "x = unat needle"
  let ?b = "0x0101010101010101 mod 2 ^ (8 * i) :: nat" and ?a = "0x0101010101010101 div 2 ^ (8 * i + 8) :: nat"
  have x: "x < 256" using unsigned_less [of needle] by (simp add: x_def)
  have ux: "unat (ucast needle * loBits :: 64 word) = x * 0x0101010101010101"
    using x by (simp add: x_def loBits_def unat_word_ariths unsigned_ucast_eq take_bit_nat_eq_self)
  have "x * 0x0101010101010101 = x * ?b + ((x * ?a) * 256 + x) * 2 ^ (8 * i)"
    by (subst loBits_split(1) [OF assms]) (simp add: algebra_simps)
  moreover have "x * ?b < 2 ^ (8 * i)"
    by (rule le_less_trans [OF mult_le_mono1 [of x 255 ?b]])
      (use x loBits_split(2) [OF assms] in \<open>simp_all add: mult.commute\<close>)
  ultimately have "x * 0x0101010101010101 div 2 ^ (8 * i) mod 256 = x"
    using lane_arith [of "x * ?b" "2 ^ (8 * i)" x "x * ?a"] x by simp
  then have "unat (lane (ucast needle * loBits) i) = x"
    by (simp add: unat_lane ux)
  then show ?thesis
    by (intro word_unat_eq_iff [THEN iffD2]) (use x in \<open>simp add: x_def unsigned_ucast_eq take_bit_nat_eq_self\<close>)
qed

lemma borrow_bit:
  fixes d lo c :: int
  assumes "d = a * (256 * c) + b" and "0 \<le> b" "b < c" and "lo = k1 * (256 * c) + c + k0" and "0 \<le> k0" "k0 < c"
  shows "odd ((d - lo) div (128 * c))"
proof -
  define q where "q = (a - k1 - 1) * 2 + 1"
  have "d - lo = (127 * c + b - k0) + q * (128 * c)"
    using assms by (simp add: q_def algebra_simps)
  moreover have "128 * c \<noteq> 0" using assms(2,3) by simp
  ultimately have "(d - lo) div (128 * c) = q + (127 * c + b - k0) div (128 * c)"
    by (metis div_mult_self1)
  moreover have "(127 * c + b - k0) div (128 * c) = 0"
    using assms by (intro div_pos_pos_trivial) auto
  moreover have "odd q" by (simp add: q_def)
  ultimately show ?thesis by simp
qed

lemma bit_minus_loBits:
  assumes "i < 8" and "lane d i = 0"
  shows "bit (d - loBits) (8 * i + 7)"
proof -
  let ?c = "2 ^ (8 * i) :: int" and ?lo = "0x0101010101010101 :: int"
  have "uint d div ?c mod 256 = 0" using assms(2) uint_lane [of d i] by simp
  then have low: "uint d mod (256 * ?c) = uint d mod ?c"
    by (simp add: mult.commute [of 256] zmod_zmult2_eq)
  have d: "uint d = uint d div (256 * ?c) * (256 * ?c) + uint d mod ?c"
    by (simp only: div_mult_mod_eq flip: low)
  have lo: "?lo = ?lo div (256 * ?c) * (256 * ?c) + ?c + ?lo mod ?c" "0 \<le> ?lo mod ?c" "?lo mod ?c < ?c"
    using less_8_cases [OF assms(1)] by auto
  have "odd ((uint d - ?lo) div (128 * ?c))"
    by (rule borrow_bit [OF d _ _ lo]) simp_all
  then have "bit (uint d - ?lo) (8 * i + 7)"
    by (simp add: bit_iff_odd power_add mult.commute)
  then have "bit (word_of_int (uint d - ?lo) :: 64 word) (8 * i + 7)"
    using assms(1) unfolding bit_word_of_int_iff by simp
  moreover have "(word_of_int (uint d - ?lo) :: 64 word) = d - loBits"
    by (simp add: loBits_def)
  ultimately show ?thesis by simp
qed

lemma mask_hiBits [simp]:
  "matchByte w needle AND hiBits = matchByte w needle" "matchEmpty w AND hiBits = matchEmpty w"
  by (simp_all add: matchByte_def matchEmpty_def Let_def and.assoc)

lemma matchByte_hit:
  assumes "i < 8" and "lane w i = ucast needle"
  shows "high (matchByte w needle) i"
proof -
  let ?d = "w XOR (ucast needle * loBits)"
  have "lane ?d i = 0"
    using assms broadcast_lane [OF assms(1), of needle]
    by (simp add: lane_def drop_bit_xor take_bit_xor)
  then have "bit (?d - loBits) (8 * i + 7)" "\<not> bit ?d (8 * i + 7)"
    using bit_minus_loBits [OF assms(1)] bit_lane [of ?d i 7] by simp_all
  then show ?thesis
    using assms(1) by (simp add: high_def matchByte_def Let_def bit_and_iff bit_not_iff bit_hiBits)
qed

lemma matchByte_occupied:
  assumes "i < 8" and "\<not> bit needle 7" and "high (matchByte w needle) i"
  shows "\<not> high w i"
proof -
  have "\<not> bit (ucast needle * loBits) (8 * i + 7)"
    using broadcast_lane [OF assms(1), of needle] assms(2) bit_lane [of "ucast needle * loBits" i 7]
    by (simp add: bit_ucast_iff)
  then show ?thesis
    using assms(3) by (auto simp: high_def matchByte_def Let_def bit_and_iff bit_not_iff bit_xor_iff)
qed

lemma high_matchEmpty: "i < 8 \<Longrightarrow> high (matchEmpty w) i \<longleftrightarrow> high w i \<and> \<not> bit w (8 * i + 6)"
  unfolding high_def matchEmpty_def bit_and_iff bit_not_iff bit_push_bit_iff by (auto simp: bit_hiBits add.commute)


lemma lanes_less: "i \<in> set (lanes w) \<longleftrightarrow> i < 8 \<and> high w i"
  by (auto simp: lanes_def)

lemma find_slot_spec:
  assumes "cand AND hiBits = cand" and "base + 8 \<le> length keys"
  shows "find_slot keys key base cand = Some (find (\<lambda>j. keys ! j = key) (map ((+) base) (lanes cand)))"
  using assms
proof (induction keys key base cand rule: find_slot.induct)
  case (1 keys key base cand)
  show ?case
  proof (cases "cand = 0")
    case True
    then show ?thesis using lanes_Nil_iff [OF "1.prems"(1)] by (simp add: find_slot.simps)
  next
    case False
    note step = lanes_step [OF "1.prems"(1) False]
    let ?j = "base + TrailingZeros64 cand div 8"
    have "TrailingZeros64 cand div 8 < 8" using step(1) lanes_less by (metis list.set_intros(1))
    then have at: "go_index keys ?j = Some (keys ! ?j)" using "1.prems"(2) by (simp add: go_index_def)
    show ?thesis
    proof (cases "keys ! ?j = key")
      case True
      then show ?thesis using False at step(1) by (simp add: find_slot.simps [of _ _ _ cand] Let_def)
    next
      case ne: False
      then show ?thesis
        using "1.IH" [OF False refl at ne step(2) "1.prems"(2)] False at step(1)
        by (simp add: find_slot.simps [of _ _ _ cand] Let_def)
    qed
  qed
qed

lemma filled_slots_spec: "w AND hiBits = w \<Longrightarrow> filled_slots base w = map ((+) base) (lanes w)"
proof (induction base w rule: filled_slots.induct)
  case (1 base w)
  then show ?case
    using lanes_Nil_iff [OF "1.prems"] lanes_step [OF "1.prems"] by (cases "w = 0") (simp_all add: filled_slots.simps)
qed

subsection \<open>The table as a map\<close>

definition occ :: "('k, 'v) ImmutableMap \<Rightarrow> nat \<Rightarrow> bool" where
  "occ m j = (j < 8 * length (im_ctrl m) \<and> \<not> high (im_ctrl m ! (j div 8)) (j mod 8))"

definition full_group :: "('k, 'v) ImmutableMap \<Rightarrow> nat \<Rightarrow> bool" where
  "full_group m g = (\<forall>i < 8. occ m (8 * g + i))"

definition entries :: "('k, 'v) ImmutableMap \<Rightarrow> ('k \<times> 'v) list" where
  "entries m = map (\<lambda>j. (im_keys m ! j, im_vals m ! j)) (filter (occ m) [0..<8 * length (im_ctrl m)])"

text \<open>Slot \<open>j\<close> is reachable from group \<open>h\<close>: every group the probe visits before it is full.\<close>

definition reach :: "('k, 'v) ImmutableMap \<Rightarrow> nat \<Rightarrow> nat \<Rightarrow> nat \<Rightarrow> bool" where
  "reach m n h j =
     (\<exists>t < n. (h + t) mod length (im_ctrl m) = j div 8
        \<and> (\<forall>s < t. full_group m ((h + s) mod length (im_ctrl m))))"

definition im_shape :: "('k, 'v) ImmutableMap \<Rightarrow> bool" where
  "im_shape m =
     (0 < length (im_ctrl m) \<and> unat (im_groups m) = length (im_ctrl m)
      \<and> length (im_keys m) = 8 * length (im_ctrl m) \<and> length (im_vals m) = 8 * length (im_ctrl m))"

definition im_ok :: "('k \<Rightarrow> 64 word) \<Rightarrow> ('k, 'v) ImmutableMap \<Rightarrow> bool" where
  "im_ok hash m =
     (im_shape m
      \<and> (\<forall>g < length (im_ctrl m). \<forall>i < 8. high (im_ctrl m ! g) i \<longrightarrow> lane (im_ctrl m ! g) i = 0x80)
      \<and> (\<forall>j. occ m j \<longrightarrow> lane (im_ctrl m ! (j div 8)) (j mod 8) = ucast (h2 (hash (im_keys m ! j))))
      \<and> (\<forall>j j'. occ m j \<longrightarrow> occ m j' \<longrightarrow> im_keys m ! j = im_keys m ! j' \<longrightarrow> j = j')
      \<and> (\<forall>j. occ m j \<longrightarrow> reach m (length (im_ctrl m)) (unat (h1 m (hash (im_keys m ! j)))) j)
      \<and> im_len m = card {j. occ m j})"

lemma im_okD:
  assumes "im_ok hash m"
  shows "im_shape m"
    and "g < length (im_ctrl m) \<Longrightarrow> i < 8 \<Longrightarrow> high (im_ctrl m ! g) i \<Longrightarrow> lane (im_ctrl m ! g) i = 0x80"
    and "occ m j \<Longrightarrow> lane (im_ctrl m ! (j div 8)) (j mod 8) = ucast (h2 (hash (im_keys m ! j)))"
    and "occ m j \<Longrightarrow> occ m j' \<Longrightarrow> im_keys m ! j = im_keys m ! j' \<Longrightarrow> j = j'"
    and "occ m j \<Longrightarrow> reach m (length (im_ctrl m)) (unat (h1 m (hash (im_keys m ! j)))) j"
    and "im_len m = card {j. occ m j}"
  using assms unfolding im_ok_def by blast+

lemma h2_low: "\<not> bit (h2 h) 7"
  by (simp add: h2_def h2Mask_def bit_and_iff bit_ucast_iff)

lemma occ_slot: "g < length (im_ctrl m) \<Longrightarrow> i < 8 \<Longrightarrow> occ m (8 * g + i) \<longleftrightarrow> \<not> high (im_ctrl m ! g) i"
  by (simp add: occ_def)

lemma occ_split: "occ m j \<Longrightarrow> j div 8 < length (im_ctrl m)"
  by (simp add: occ_def less_mult_imp_div_less mult.commute)

text \<open>A scan of group \<open>g\<close> finds the key exactly when the group holds it.\<close>

lemma scan_group:
  assumes "im_ok hash m" and "g < length (im_ctrl m)"
  obtains x where "find_slot (im_keys m) key (g * 8) (matchByte (im_ctrl m ! g) (h2 (hash key))) = Some x"
    and "\<And>j. x = Some j \<longleftrightarrow> j div 8 = g \<and> occ m j \<and> im_keys m ! j = key"
proof -
  let ?w = "im_ctrl m ! g" and ?nd = "h2 (hash key)"
  let ?L = "map ((+) (g * 8)) (lanes (matchByte ?w ?nd))"
  let ?x = "find (\<lambda>j. im_keys m ! j = key) ?L"
  have len: "g * 8 + 8 \<le> length (im_keys m)"
    using assms im_okD(1) [OF assms(1)] by (simp add: im_shape_def)
  have occL: "occ m j \<and> j div 8 = g" if "j \<in> set ?L" for j
    using that occ_slot [OF assms(2)] matchByte_occupied [OF _ h2_low]
    by (auto simp: lanes_less mult.commute)
  have inL: "j \<in> set ?L" if "j div 8 = g" "occ m j" "im_keys m ! j = key" for j
  proof -
    have "high (matchByte ?w ?nd) (j mod 8)"
      using im_okD(3) [OF assms(1) that(2)] that by (intro matchByte_hit) simp_all
    moreover have "j = g * 8 + j mod 8" using that(1) by (metis div_mult_mod_eq)
    ultimately show ?thesis by (auto simp: lanes_less)
  qed
  have "?x = Some j \<longleftrightarrow> j div 8 = g \<and> occ m j \<and> im_keys m ! j = key" for j
  proof
    assume "?x = Some j"
    then have "j \<in> set ?L" "im_keys m ! j = key" by (auto simp: find_Some_iff)
    then show "j div 8 = g \<and> occ m j \<and> im_keys m ! j = key" using occL by blast
  next
    assume j: "j div 8 = g \<and> occ m j \<and> im_keys m ! j = key"
    then obtain j' where j': "?x = Some j'" using inL [of j] by (cases ?x) (auto simp: find_None_iff)
    then have "j' \<in> set ?L" "im_keys m ! j' = key" by (auto simp: find_Some_iff)
    then have "j' = j" using occL im_okD(4) [OF assms(1)] j by blast
    then show "?x = Some j" using j' by simp
  qed
  then show thesis using that find_slot_spec [OF mask_hiBits(1) len] by blast
qed

lemma matchEmpty_full:
  assumes "im_ok hash m" and "g < length (im_ctrl m)"
  shows "matchEmpty (im_ctrl m ! g) = 0 \<longleftrightarrow> full_group m g"
    and "i < 8 \<Longrightarrow> high (matchEmpty (im_ctrl m ! g)) i \<longleftrightarrow> \<not> occ m (8 * g + i)"
proof -
  show *: "high (matchEmpty (im_ctrl m ! g)) i \<longleftrightarrow> \<not> occ m (8 * g + i)" if "i < 8" for i
  proof -
    have "\<not> bit (im_ctrl m ! g) (8 * i + 6)" if "high (im_ctrl m ! g) i"
      using im_okD(2) [OF assms \<open>i < 8\<close> that] bit_lane [of "im_ctrl m ! g" i 6] by simp
    then show ?thesis using high_matchEmpty [OF that] occ_slot [OF assms(2) that] by blast
  qed
  show "matchEmpty (im_ctrl m ! g) = 0 \<longleftrightarrow> full_group m g"
    using * lanes_Nil_iff [OF mask_hiBits(2), of "im_ctrl m ! g"]
    by (auto simp: full_group_def lanes_def filter_empty_conv)
qed


subsection \<open>Probing\<close>

lemma next_group_mod:
  assumes "im_shape m" and "unat grp < length (im_ctrl m)"
  shows "unat (next_group m grp) = (unat grp + 1) mod length (im_ctrl m)"
proof -
  let ?G = "length (im_ctrl m)"
  have G: "unat (im_groups m) = ?G" using assms(1) by (simp add: im_shape_def)
  have "unat (im_groups m) < 2 ^ 64" using unsigned_less [of "im_groups m"] by simp
  then have "?G < 2 ^ 64" by (simp add: G)
  then have "unat (grp + 1) = unat grp + 1" using assms(2) by (simp add: unat_word_ariths)
  then show ?thesis
    using assms(2) G by (cases "unat grp + 1 = ?G") (auto simp: next_group_def Let_def word_le_nat_alt)
qed

lemma reach_step:
  assumes "reach m (Suc n) h j" and "h < length (im_ctrl m)" and "j div 8 \<noteq> h"
  shows "full_group m h" and "reach m n ((h + 1) mod length (im_ctrl m)) j"
proof -
  let ?G = "length (im_ctrl m)"
  obtain t where t: "t < Suc n" "(h + t) mod ?G = j div 8" "\<And>s. s < t \<Longrightarrow> full_group m ((h + s) mod ?G)"
    using assms(1) by (auto simp: reach_def)
  then obtain u where u: "t = Suc u" using assms(2,3) by (cases t) auto
  show "full_group m h" using t(3) [of 0] u assms(2) by simp
  have shift: "((h + 1) mod ?G + s) mod ?G = (h + Suc s) mod ?G" for s by (simp add: mod_add_left_eq)
  then show "reach m n ((h + 1) mod ?G) j"
    using t(1,2) t(3) [of "Suc _"] u unfolding reach_def shift by (intro exI [of _ u]) auto
qed

lemma reach_here: "0 < n \<Longrightarrow> j div 8 < length (im_ctrl m) \<Longrightarrow> reach m n (j div 8) j"
  unfolding reach_def by (intro exI [of _ 0]) simp

lemma scan_found:
  assumes "im_ok hash m" and "occ m j" "im_keys m ! j = key" and "unat grp < length (im_ctrl m)"
    and "reach m (Suc n) (unat grp) j"
  shows "find_slot (im_keys m) key (unat grp * 8) (matchByte (im_ctrl m ! unat grp) (h2 (hash key)))
      = Some (if j div 8 = unat grp then Some j else None)"
    and "j div 8 \<noteq> unat grp \<Longrightarrow> matchEmpty (im_ctrl m ! unat grp) = 0"
    and "j div 8 \<noteq> unat grp \<Longrightarrow> unat (next_group m grp) < length (im_ctrl m) \<and> reach m n (unat (next_group m grp)) j"
proof -
  note sh = im_okD(1) [OF assms(1)]
  obtain x where x: "find_slot (im_keys m) key (unat grp * 8) (matchByte (im_ctrl m ! unat grp) (h2 (hash key))) = Some x"
    "\<And>j. x = Some j \<longleftrightarrow> j div 8 = unat grp \<and> occ m j \<and> im_keys m ! j = key"
    using scan_group [OF assms(1,4)] by blast
  have "x = (if j div 8 = unat grp then Some j else None)"
  proof (cases x)
    case None
    then show ?thesis using x(2) [of j] assms(2,3) by auto
  next
    case (Some j')
    then have "j' = j" using x(2) [of j'] im_okD(4) [OF assms(1,2), of j'] assms(3) by auto
    then show ?thesis using Some x(2) [of j] by auto
  qed
  then show "find_slot (im_keys m) key (unat grp * 8) (matchByte (im_ctrl m ! unat grp) (h2 (hash key)))
      = Some (if j div 8 = unat grp then Some j else None)" using x(1) by simp
  assume ne: "j div 8 \<noteq> unat grp"
  show "matchEmpty (im_ctrl m ! unat grp) = 0"
    using reach_step(1) [OF assms(5,4) ne] matchEmpty_full(1) [OF assms(1,4)] by simp
  show "unat (next_group m grp) < length (im_ctrl m) \<and> reach m n (unat (next_group m grp)) j"
    using reach_step(2) [OF assms(5,4) ne] next_group_mod [OF sh assms(4)] sh by (simp add: im_shape_def)
qed

lemma scan_absent:
  assumes "im_ok hash m" and "\<And>j. occ m j \<Longrightarrow> im_keys m ! j \<noteq> key" and "unat grp < length (im_ctrl m)"
  shows "find_slot (im_keys m) key (unat grp * 8) (matchByte (im_ctrl m ! unat grp) (h2 (hash key))) = Some None"
  using scan_group [OF assms(1,3), of key] assms(2) by (metis option.exhaust)

lemma get_loop_found:
  assumes "im_ok hash m" and "occ m j" "im_keys m ! j = key"
  shows "unat grp < length (im_ctrl m) \<Longrightarrow> reach m n (unat grp) j
     \<Longrightarrow> get_loop m key (h2 (hash key)) n grp = Some (Some (im_vals m ! j))"
proof (induction n arbitrary: grp)
  case (Suc n)
  have "go_index (im_vals m) j = Some (im_vals m ! j)"
    using assms(2) im_okD(1) [OF assms(1)] by (simp add: go_index_def occ_def im_shape_def)
  then show ?case
    using scan_found [OF assms Suc.prems] Suc.IH Suc.prems(1) by (cases "j div 8 = unat grp") (simp_all add: go_index_def)
qed (simp add: reach_def)

lemma get_loop_absent:
  assumes "im_ok hash m" and "\<And>j. occ m j \<Longrightarrow> im_keys m ! j \<noteq> key"
  shows "unat grp < length (im_ctrl m) \<Longrightarrow> get_loop m key (h2 (hash key)) n grp = Some None"
proof (induction n arbitrary: grp)
  case (Suc n)
  note sh = im_okD(1) [OF assms(1)]
  have "get_loop m key (h2 (hash key)) n (next_group m grp) = Some None"
    using Suc.IH next_group_mod [OF sh Suc.prems] sh by (simp add: im_shape_def)
  then show ?case using Suc.prems scan_absent [OF assms Suc.prems] by (simp add: go_index_def)
qed simp

lemma insert_loop_found:
  assumes "im_ok hash m" and "occ m j" "im_keys m ! j = key"
  shows "unat grp < length (im_ctrl m) \<Longrightarrow> reach m n (unat grp) j
     \<Longrightarrow> insert_loop m key v (h2 (hash key)) n grp = Some (m\<lparr>im_vals := (im_vals m)[j := v]\<rparr>)"
proof (induction n arbitrary: grp)
  case (Suc n)
  have "go_store (im_vals m) j v = Some ((im_vals m)[j := v])"
    using assms(2) im_okD(1) [OF assms(1)] by (simp add: go_store_def occ_def im_shape_def)
  then show ?case
    using scan_found [OF assms Suc.prems] Suc.IH Suc.prems(1) by (cases "j div 8 = unat grp") (simp_all add: go_index_def)
qed (simp add: reach_def)

text \<open>Without the key, the insertion ends in the first group of the probe with an empty slot.\<close>

lemma insert_loop_absent:
  assumes "im_ok hash m" and "\<And>j. occ m j \<Longrightarrow> im_keys m ! j \<noteq> key" and "g < length (im_ctrl m)" "\<not> full_group m g"
  shows "unat grp < length (im_ctrl m) \<Longrightarrow> reach m n (unat grp) (8 * g)
     \<Longrightarrow> \<exists>grp'. unat grp' = g \<and> insert_loop m key v (h2 (hash key)) n grp
            = place m key v (h2 (hash key)) grp' (im_ctrl m ! g)"
proof (induction n arbitrary: grp)
  case 0
  then show ?case by (simp add: reach_def)
next
  case (Suc n)
  note sh = im_okD(1) [OF assms(1)]
  note none = scan_absent [OF assms(1,2) Suc.prems(1)]
  show ?case
  proof (cases "unat grp = g")
    case True
    then have "matchEmpty (im_ctrl m ! unat grp) \<noteq> 0"
      using matchEmpty_full(1) [OF assms(1) Suc.prems(1)] assms(4) by simp
    then show ?thesis using none True Suc.prems(1) by (auto simp: go_index_def)
  next
    case False
    then have ne: "8 * g div 8 \<noteq> unat grp" by simp
    have "matchEmpty (im_ctrl m ! unat grp) = 0"
      using reach_step(1) [OF Suc.prems(2,1) ne] matchEmpty_full(1) [OF assms(1) Suc.prems(1)] by simp
    moreover have "\<exists>grp'. unat grp' = g \<and> insert_loop m key v (h2 (hash key)) n (next_group m grp)
        = place m key v (h2 (hash key)) grp' (im_ctrl m ! g)"
      using Suc.IH reach_step(2) [OF Suc.prems(2,1) ne] next_group_mod [OF sh Suc.prems(1)] sh
      by (simp add: im_shape_def)
    ultimately show ?thesis using none Suc.prems(1) by (simp add: go_index_def)
  qed
qed

subsection \<open>Insertion keeps the table and updates the map\<close>

lemma placed_lane:
  fixes w :: "64 word"
  assumes "p < 8" "i < 8"
  shows "lane ((w AND NOT (push_bit (p * 8) byteMask)) OR push_bit (p * 8) (ucast (needle :: 8 word))) i
      = (if i = p then ucast needle else lane w i)"
proof (rule bit_eqI)
  fix n :: nat
  have bm: "byteMask = mask 8" by (simp add: byteMask_def mask_eq_exp_minus_1)
  have mk: "bit byteMask k \<longleftrightarrow> k < 8" for k unfolding bm bit_mask_iff by auto
  show "bit (lane ((w AND NOT (push_bit (p * 8) byteMask)) OR push_bit (p * 8) (ucast needle)) i) n
      = bit (if i = p then ucast needle else lane w i) n"
    using assms by (cases i p rule: linorder_cases)
      (auto simp: bit_lane bit_or_iff bit_and_iff bit_not_iff bit_push_bit_iff mk bit_ucast_iff
        dest: bit_imp_le_length)
qed

lemma high_lane: "high w i = bit (lane w i) 7"
  by (simp add: high_def bit_lane)

lemma lane_split: "j div 8 = j' div 8 \<Longrightarrow> j mod 8 = j' mod 8 \<Longrightarrow> j = (j' :: nat)"
  by (metis div_mult_mod_eq)

text \<open>The table after \<^verbatim>\<open>place\<close>: one empty slot of a reachable group is now occupied.\<close>

lemma placed_ok:
  fixes m :: "('k, 'v) ImmutableMap"
  assumes ok: "im_ok hash m" and g: "g < length (im_ctrl m)" and p: "p < 8" "\<not> occ m (8 * g + p)"
    and absent: "\<And>j. occ m j \<Longrightarrow> im_keys m ! j \<noteq> key"
    and reach: "reach m (length (im_ctrl m)) (unat (h1 m (hash key))) (8 * g)"
    and w: "\<And>i. i < 8 \<Longrightarrow> lane w i = (if i = p then ucast (h2 (hash key)) else lane (im_ctrl m ! g) i)"
    and m': "m' = m\<lparr>im_ctrl := (im_ctrl m)[g := w], im_keys := (im_keys m)[8 * g + p := key],
                   im_vals := (im_vals m)[8 * g + p := v], im_len := im_len m + 1\<rparr>"
  shows "im_ok hash m'" and "occ m' j \<longleftrightarrow> occ m j \<or> j = 8 * g + p"
proof -
  let ?s = "8 * g + p" and ?G = "length (im_ctrl m)"
  note sh = im_okD(1) [OF ok, unfolded im_shape_def]
  have s: "?s < 8 * ?G" "?s div 8 = g" "?s mod 8 = p" using g p(1) by auto
  have nd: "\<not> bit (ucast (h2 (hash key)) :: 64 word) 7" by (simp add: bit_ucast_iff h2_low)
  have lane': "lane (im_ctrl m' ! (j div 8)) (j mod 8)
      = (if j = ?s then ucast (h2 (hash key)) else lane (im_ctrl m ! (j div 8)) (j mod 8))" for j
  proof (cases "j div 8 = g")
    case True
    then have "j = ?s \<longleftrightarrow> j mod 8 = p" using s lane_split [of j ?s] by metis
    then show ?thesis using True g w [of "j mod 8"] by (simp add: m')
  next
    case False
    then have "j \<noteq> ?s" using s(2) by blast
    then show ?thesis using False by (simp add: m')
  qed
  show occ': "occ m' j \<longleftrightarrow> occ m j \<or> j = ?s" for j
    using lane' [of j] s nd by (auto simp: occ_def high_lane m')
  have keys': "im_keys m' ! j = (if j = ?s then key else im_keys m ! j)" if "occ m' j" for j
    using that s sh by (simp add: m' nth_list_update)
  have full': "full_group m' h" if "full_group m h" for h
    using that by (simp add: full_group_def occ')
  have reach': "reach m' n h j" if "reach m n h j" for n h j
    using that full' by (auto simp: reach_def m')
  have h1': "h1 m' x = h1 m x" for x by (simp add: h1_def m')
  have "reach m' ?G (unat (h1 m (hash key))) ?s"
    using reach' [OF reach] s by (simp add: reach_def)
  then have r: "reach m' ?G (unat (h1 m' (hash (im_keys m' ! j)))) j" if "occ m' j" for j
    using that occ' reach' [OF im_okD(5) [OF ok, of j]] keys' h1' by auto
  have c: "card {j. occ m' j} = card {j. occ m j} + 1"
  proof -
    have "{j. occ m' j} = insert ?s {j. occ m j}" by (auto simp: occ')
    moreover have "finite {j. occ m j}" by (rule finite_subset [of _ "{..<8 * ?G}"]) (auto simp: occ_def)
    ultimately show ?thesis using p(2) by simp
  qed
  have e: "lane (im_ctrl m' ! h) i = 0x80" if "h < ?G" "i < 8" "high (im_ctrl m' ! h) i" for h i
    using that im_okD(2) [OF ok, of h i] lane' [of "8 * h + i"] nd by (auto simp: high_lane split: if_splits)
  have ln: "lane (im_ctrl m' ! (j div 8)) (j mod 8) = ucast (h2 (hash (im_keys m' ! j)))" if "occ m' j" for j
    using that occ' [of j] lane' [of j] keys' im_okD(3) [OF ok, of j] s by (auto simp: occ_def)
  have inj: "j = j'" if "occ m' j" "occ m' j'" "im_keys m' ! j = im_keys m' ! j'" for j j'
    using that occ' keys' absent im_okD(4) [OF ok, of j j'] by (auto split: if_splits)
  show "im_ok hash m'"
    unfolding im_ok_def using e ln inj r c im_okD(6) [OF ok] sh by (auto simp: im_shape_def m')
qed


definition im_map :: "('k, 'v) ImmutableMap \<Rightarrow> 'k \<Rightarrow> 'v option" where
  "im_map m = map_of (entries m)"

lemma set_entries: "set (entries m) = {(im_keys m ! j, im_vals m ! j) | j. occ m j}"
  by (auto simp: entries_def occ_def)

lemma distinct_entries: "im_ok hash m \<Longrightarrow> distinct (map fst (entries m))"
  using im_okD(4) [of hash m] by (auto simp: entries_def distinct_map comp_def inj_on_def)

lemma im_map_Some: "im_ok hash m \<Longrightarrow> im_map m k = Some v \<longleftrightarrow> (\<exists>j. occ m j \<and> im_keys m ! j = k \<and> im_vals m ! j = v)"
  using distinct_entries [of hash m] by (auto simp: im_map_def set_entries)

lemma im_map_None: "im_map m k = None \<longleftrightarrow> (\<forall>j. occ m j \<longrightarrow> im_keys m ! j \<noteq> k)"
  by (auto simp: im_map_def map_of_eq_None_iff set_entries image_def)

lemma im_map_update:
  assumes "im_ok hash m" "im_ok hash m'"
    and "\<And>k' v'. (\<exists>j. occ m' j \<and> im_keys m' ! j = k' \<and> im_vals m' ! j = v') \<longleftrightarrow>
           (if k' = k then v' = v else \<exists>j. occ m j \<and> im_keys m ! j = k' \<and> im_vals m ! j = v')"
  shows "im_map m' = (im_map m)(k \<mapsto> v)"
proof
  fix k'
  have "im_map m' k' = Some v' \<longleftrightarrow> ((im_map m)(k \<mapsto> v)) k' = Some v'" for v'
    using assms(3) [of k' v'] im_map_Some [OF assms(1), of k' v'] im_map_Some [OF assms(2), of k' v'] by auto
  then show "im_map m' k' = ((im_map m)(k \<mapsto> v)) k'" by (metis option.exhaust)
qed

lemma h1_less: "im_shape m \<Longrightarrow> unat (h1 m h) < length (im_ctrl m)"
  by (simp add: h1_def im_shape_def unat_mod_distrib)

lemma first_open_group:
  assumes "im_shape m" and "h < length (im_ctrl m)" and "card {j. occ m j} < 8 * length (im_ctrl m)"
  obtains g where "g < length (im_ctrl m)" "\<not> full_group m g" "reach m (length (im_ctrl m)) h (8 * g)"
proof -
  let ?G = "length (im_ctrl m)"
  have "\<exists>j < 8 * ?G. \<not> occ m j"
  proof (rule ccontr)
    assume "\<not> ?thesis"
    then have "{j. occ m j} = {..<8 * ?G}" by (auto simp: occ_def)
    then show False using assms(3) by simp
  qed
  then obtain j where j: "j < 8 * ?G" "\<not> occ m j" by blast
  define t0 where "t0 = (j div 8 + ?G - h) mod ?G"
  have jg: "j div 8 < ?G" using j(1) by (simp add: less_mult_imp_div_less mult.commute)
  have "(h + t0) mod ?G = (h + (j div 8 + ?G - h)) mod ?G" by (simp add: t0_def mod_add_right_eq)
  also have "\<dots> = j div 8" using jg assms(2) by simp
  finally have open0: "\<not> full_group m ((h + t0) mod ?G)"
    using j(2) unfolding full_group_def by (metis mod_less_divisor mult_div_mod_eq zero_less_numeral)
  define t where "t = (LEAST t. \<not> full_group m ((h + t) mod ?G))"
  have t: "\<not> full_group m ((h + t) mod ?G)" "t \<le> t0"
    unfolding t_def using open0 by (rule LeastI, rule Least_le)
  have before: "full_group m ((h + s) mod ?G)" if "s < t" for s
    using not_less_Least [of s "\<lambda>t. \<not> full_group m ((h + t) mod ?G)"] that by (simp add: t_def)
  have "t < ?G" using t(2) assms(2) by (simp add: t0_def) (metis mod_less_divisor le_less_trans not_less_zero gr0I)
  then have "reach m ?G h (8 * ((h + t) mod ?G))" using before by (auto simp: reach_def)
  moreover have "(h + t) mod ?G < ?G" using assms(2) by (intro mod_less_divisor) auto
  ultimately show thesis using that t(1) by blast
qed

lemma im_Get_spec:
  assumes "im_ok hash m"
  shows "im_Get hash m key = Some (im_map m key)"
proof (cases "\<exists>j. occ m j \<and> im_keys m ! j = key")
  case True
  then obtain j where j: "occ m j" "im_keys m ! j = key" by blast
  have "finite {j. occ m j}" by (rule finite_subset [of _ "{..<8 * length (im_ctrl m)}"]) (auto simp: occ_def)
  then have "im_len m \<noteq> 0" using j(1) im_okD(6) [OF assms] by auto
  moreover have "reach m (unat (im_groups m)) (unat (h1 m (hash key))) j"
    using im_okD(1,5) [OF assms] j by (auto simp: im_shape_def)
  moreover have "im_map m key = Some (im_vals m ! j)" using im_map_Some [OF assms] j by blast
  ultimately show ?thesis
    using get_loop_found [OF assms j h1_less [OF im_okD(1) [OF assms]]] by (simp add: im_Get_def)
next
  case False
  then show ?thesis
    using get_loop_absent [OF assms _ h1_less [OF im_okD(1) [OF assms]], of key] im_map_None [of m key]
    by (simp add: im_Get_def)
qed

lemma place_spec:
  assumes "im_ok hash m" and "g < length (im_ctrl m)" "\<not> full_group m g" and "unat grp = g"
    and "\<And>j. occ m j \<Longrightarrow> im_keys m ! j \<noteq> key"
    and "reach m (length (im_ctrl m)) (unat (h1 m (hash key))) (8 * g)"
  shows "\<exists>m'. place m key v (h2 (hash key)) grp (im_ctrl m ! g) = Some m' \<and> im_ok hash m'
      \<and> im_map m' = (im_map m)(key \<mapsto> v) \<and> length (im_ctrl m') = length (im_ctrl m) \<and> im_len m' = im_len m + 1"
proof -
  let ?w = "im_ctrl m ! g" and ?nd = "ucast (h2 (hash key)) :: 64 word"
  let ?p = "TrailingZeros64 (matchEmpty ?w) div 8"
  let ?w' = "(?w AND NOT (push_bit (?p * 8) byteMask)) OR push_bit (?p * 8) ?nd"
  let ?m' = "m\<lparr>im_ctrl := (im_ctrl m)[g := ?w'], im_keys := (im_keys m)[8 * g + ?p := key],
               im_vals := (im_vals m)[8 * g + ?p := v], im_len := im_len m + 1\<rparr>"
  note sh = im_okD(1) [OF assms(1), unfolded im_shape_def]
  have "matchEmpty ?w \<noteq> 0" using matchEmpty_full(1) [OF assms(1,2)] assms(3) by simp
  then have "?p \<in> set (lanes (matchEmpty ?w))" using lanes_step(1) [OF mask_hiBits(2)] by (metis list.set_intros(1))
  then have p: "?p < 8" "\<not> occ m (8 * g + ?p)"
    using matchEmpty_full(2) [OF assms(1,2)] by (auto simp: lanes_less)
  have s: "8 * g + ?p < 8 * length (im_ctrl m)" using p(1) assms(2) by simp
  note ok' = placed_ok [OF assms(1,2) p assms(5,6) placed_lane [OF p(1)] refl]
  have "place m key v (h2 (hash key)) grp ?w = Some ?m'"
    using s assms(2,4) sh by (simp add: place_def Let_def go_store_def mult.commute)
  moreover have "im_map ?m' = (im_map m)(key \<mapsto> v)"
    using ok'(2) assms(5) p(2) s sh
    by (intro im_map_update [OF assms(1) ok'(1)]) (auto simp: nth_list_update, metis+)
  ultimately show ?thesis using ok'(1) by auto
qed

lemma overwrite_spec:
  assumes "im_ok hash m" and "occ m j" "im_keys m ! j = key"
  shows "im_ok hash (m\<lparr>im_vals := (im_vals m)[j := v]\<rparr>)"
    and "im_map (m\<lparr>im_vals := (im_vals m)[j := v]\<rparr>) = (im_map m)(key \<mapsto> v)"
proof -
  let ?m' = "m\<lparr>im_vals := (im_vals m)[j := v]\<rparr>"
  have same: "occ ?m' = occ m" "reach ?m' = reach m" "h1 ?m' = h1 m"
    by (simp_all add: fun_eq_iff occ_def reach_def full_group_def h1_def)
  show ok': "im_ok hash ?m'" using assms(1) by (simp add: im_ok_def im_shape_def same)
  have "j < length (im_vals m)"
    using assms(2) im_okD(1) [OF assms(1)] by (simp add: occ_def im_shape_def)
  then have at: "(im_vals m)[j := v] ! j' = (if j' = j then v else im_vals m ! j')" for j'
    by (simp add: nth_list_update)
  have uniq: "j' = j" if "occ m j'" "im_keys m ! j' = key" for j'
    using im_okD(4) [OF assms(1) that(1) assms(2)] that(2) assms(3) by simp
  have "(\<exists>j'. occ m j' \<and> im_keys m ! j' = k' \<and> (im_vals m)[j := v] ! j' = v') \<longleftrightarrow>
      (if k' = key then v' = v else \<exists>j'. occ m j' \<and> im_keys m ! j' = k' \<and> im_vals m ! j' = v')" for k' v'
    unfolding at using uniq assms(2,3) by (cases "k' = key") (metis, metis)
  then show "im_map ?m' = (im_map m)(key \<mapsto> v)"
    by (intro im_map_update [OF assms(1) ok']) (simp add: same)
qed

lemma im_insert_spec:
  assumes "im_ok hash m" and "im_len m < 8 * length (im_ctrl m)"
  shows "\<exists>m'. im_insert hash key v m = Some m' \<and> im_ok hash m' \<and> im_map m' = (im_map m)(key \<mapsto> v)
      \<and> length (im_ctrl m') = length (im_ctrl m) \<and> im_len m' \<le> im_len m + 1"
proof (cases "\<exists>j. occ m j \<and> im_keys m ! j = key")
  case True
  then obtain j where j: "occ m j" "im_keys m ! j = key" by blast
  have "reach m (unat (im_groups m)) (unat (h1 m (hash key))) j"
    using im_okD(1,5) [OF assms(1)] j by (auto simp: im_shape_def)
  then have "im_insert hash key v m = Some (m\<lparr>im_vals := (im_vals m)[j := v]\<rparr>)"
    using insert_loop_found [OF assms(1) j h1_less [OF im_okD(1) [OF assms(1)]]] by (simp add: im_insert_def)
  then show ?thesis using overwrite_spec [OF assms(1) j] by auto
next
  case False
  then have absent: "im_keys m ! j \<noteq> key" if "occ m j" for j using that by blast
  note sh = im_okD(1) [OF assms(1)] note h = h1_less [OF sh, of "hash key"]
  obtain g where g: "g < length (im_ctrl m)" "\<not> full_group m g"
    "reach m (length (im_ctrl m)) (unat (h1 m (hash key))) (8 * g)"
    using first_open_group [OF sh h] assms(2) im_okD(6) [OF assms(1)] by metis
  have "reach m (unat (im_groups m)) (unat (h1 m (hash key))) (8 * g)"
    using g(3) sh by (simp add: im_shape_def)
  then obtain grp where grp: "unat grp = g"
    "im_insert hash key v m = place m key v (h2 (hash key)) grp (im_ctrl m ! g)"
    using insert_loop_absent [OF assms(1) absent g(1,2) h] unfolding im_insert_def by blast
  then show ?thesis
    using place_spec [OF assms(1) g(1,2) grp(1) absent g(3), of v] by auto
qed


subsection \<open>Building a table\<close>

text \<open>
  The contract the constructors rely on: as long as the table has room, an insertion succeeds,
  keeps the table well formed and updates one key.
\<close>

locale bounded_table =
  fixes ok :: "'t \<Rightarrow> bool" and look :: "'t \<Rightarrow> 'k \<Rightarrow> 'v option" and used cap :: "'t \<Rightarrow> nat"
    and ins :: "'k \<Rightarrow> 'v \<Rightarrow> 't \<Rightarrow> 't option" and ins_all :: "('k \<times> 'v) list \<Rightarrow> 't \<Rightarrow> 't option"
  assumes ins_room: "ok t \<Longrightarrow> used t < cap t \<Longrightarrow>
      \<exists>t'. ins k v t = Some t' \<and> ok t' \<and> look t' = (look t)(k \<mapsto> v) \<and> cap t' = cap t \<and> used t' \<le> used t + 1"
    and ins_all_Nil: "ins_all [] t = Some t"
    and ins_all_Cons: "ins_all (kv # kvs) t =
      (case ins (fst kv) (snd kv) t of None \<Rightarrow> None | Some t1 \<Rightarrow> ins_all kvs t1)"
begin

lemma ins_all_room:
  "ok t \<Longrightarrow> used t + length kvs \<le> cap t \<Longrightarrow>
     \<exists>t'. ins_all kvs t = Some t' \<and> ok t' \<and> look t' = look t ++ map_of (rev kvs) \<and> used t' \<le> used t + length kvs"
proof (induction kvs arbitrary: t)
  case (Cons kv kvs)
  obtain t1 where t1: "ins (fst kv) (snd kv) t = Some t1" "ok t1" "look t1 = (look t)(fst kv \<mapsto> snd kv)"
    "cap t1 = cap t" "used t1 \<le> used t + 1"
    using ins_room [OF Cons.prems(1), of "fst kv" "snd kv"] Cons.prems(2) by auto
  obtain t' where t': "ins_all kvs t1 = Some t'" "ok t'" "look t' = look t1 ++ map_of (rev kvs)"
    "used t' \<le> used t1 + length kvs"
    using Cons.IH [OF t1(2)] Cons.prems(2) t1(4,5) by auto
  have "look t1 ++ map_of (rev kvs) = look t ++ map_of (rev (kv # kvs))"
    by (simp add: t1(3) map_add_def fun_eq_iff split: option.split)
  then show ?case using t1 t' by (auto simp: ins_all_Cons)
qed (simp add: ins_all_Nil)

end

interpretation swiss: bounded_table "im_ok hash" im_map im_len "\<lambda>m. 8 * length (im_ctrl m)" "im_insert hash" "im_insert_all hash"
  for hash :: "'k \<Rightarrow> 64 word"
proof unfold_locales
  fix m :: "('k, 'v) ImmutableMap" and k v
  assume "im_ok hash m" "im_len m < 8 * length (im_ctrl m)"
  then show "\<exists>m'. im_insert hash k v m = Some m' \<and> im_ok hash m' \<and> im_map m' = (im_map m)(k \<mapsto> v)
      \<and> 8 * length (im_ctrl m') = 8 * length (im_ctrl m) \<and> im_len m' \<le> im_len m + 1"
    using im_insert_spec [of hash m k v] by auto
qed simp_all

lemma alloc_slots:
  assumes "n < 2 ^ 60"
  defines "s \<equiv> nextGroupMultiple (n * 8 div 7 + 1)"
  shows "n < s" "s = 8 * (s div 8)" "0 < s div 8" "s div 8 < 2 ^ 64"
proof -
  let ?x = "n * 8 div 7 + 1 + 7"
  have s: "s = 8 * (?x div 8)" unfolding s_def nextGroupMultiple_def by (rule minus_mod_eq_mult_div)
  have "?x mod 8 < 8" by simp
  then have "?x - 7 \<le> s" using mult_div_mod_eq [of 8 ?x] unfolding s by linarith
  moreover have "n \<le> n * 8 div 7" by simp
  ultimately show "n < s" by linarith
  then show "0 < s div 8" using s by (cases "s div 8") auto
  show "s = 8 * (s div 8)" using s by simp
  have "?x \<le> 2 * n + 8" by simp
  then show "s div 8 < 2 ^ 64" using assms(1) unfolding s by simp
qed

lemma im_alloc_ok:
  fixes zk :: 'k and zv :: 'v
  assumes "n < 2 ^ 60"
  shows "im_ok hash (allocImmutable zk zv n)" "im_map (allocImmutable zk zv n) = Map.empty"
    "im_len (allocImmutable zk zv n) + n \<le> 8 * length (im_ctrl (allocImmutable zk zv n))"
proof -
  let ?m = "allocImmutable zk zv n" and ?s = "nextGroupMultiple (n * 8 div 7 + 1)"
  note s = alloc_slots [OF assms]
  have m: "im_ctrl ?m = replicate (?s div 8) allEmpty" "im_keys ?m = replicate ?s zk" "im_vals ?m = replicate ?s zv"
    "im_len ?m = 0" "im_groups ?m = of_nat (?s div 8)"
    by (simp_all add: allocImmutable_def Let_def)
  have g: "unat (of_nat (?s div 8) :: 64 word) = ?s div 8"
    using s(4) by (simp add: unat_of_nat)
  have e: "lane allEmpty i = 0x80" "high allEmpty i" if "i < 8" for i
    using that less_8_cases [OF that] by (auto simp: lane_def allEmpty_def hiBits_def high_def)
  have none: "\<not> occ ?m j" for j
  proof
    assume "occ ?m j"
    then have "j div 8 < ?s div 8" "\<not> high (im_ctrl ?m ! (j div 8)) (j mod 8)"
      using occ_split [of ?m j] by (simp_all add: occ_def m)
    then show False using e(2) [of "j mod 8"] by (simp add: m)
  qed
  have "Collect (occ ?m) = {}" using none by auto
  then have c: "card (Collect (occ ?m)) = 0" by (simp only: card.empty)
  show "im_ok hash ?m"
    unfolding im_ok_def im_shape_def using none s g e c by (simp add: m)
  show "im_map ?m = Map.empty" using none by (auto simp: im_map_None fun_eq_iff)
  show "im_len ?m + n \<le> 8 * length (im_ctrl ?m)" using s(1,2) by (simp add: m)
qed

subsection \<open>Iteration\<close>

lemma upt_groups: "[0..<8 * n] = concat (map (\<lambda>g. map ((+) (g * 8)) [0..<8]) [0..<n])"
proof (induction n)
  case (Suc n)
  have "[0..<8 * Suc n] = [0..<8 * n] @ [8 * n..<8 * n + 8]"
    using upt_add_eq_append [of 0 "8 * n" 8] by (simp add: algebra_simps)
  moreover have "[8 * n..<8 * n + 8] = map ((+) (n * 8)) [0..<8]"
    using map_add_upt [of "8 * n" 8] by (simp add: add.commute mult.commute [of n] flip: map_add_upt [of "8 * n" 8])
  ultimately show ?case using Suc.IH by simp
qed simp

lemma im_slots_spec: "im_slots m = filter (occ m) [0..<8 * length (im_ctrl m)]"
proof -
  let ?G = "length (im_ctrl m)"
  let ?F = "\<lambda>g word. if word = allEmpty then [] else filled_slots (g * 8) (NOT word AND hiBits)"
  have one: "?F g w = map ((+) (g * 8)) (filter (\<lambda>i. \<not> high w i) [0..<8])" for g w
  proof -
    have "(NOT w AND hiBits) AND hiBits = NOT w AND hiBits" by (simp add: and.assoc)
    then have "filled_slots (g * 8) (NOT w AND hiBits) = map ((+) (g * 8)) (lanes (NOT w AND hiBits))"
      by (rule filled_slots_spec)
    moreover have "lanes (NOT w AND hiBits) = filter (\<lambda>i. \<not> high w i) [0..<8]"
      unfolding lanes_def by (rule filter_cong) (auto simp: high_def bit_and_iff bit_not_iff bit_hiBits)
    moreover have "high allEmpty i" if "i < 8" for i using that by (simp add: high_def allEmpty_def bit_hiBits)
    ultimately show ?thesis by (auto simp: filter_empty_conv)
  qed
  have "im_slots m = concat (map (\<lambda>g. ?F g (im_ctrl m ! g)) [0..<?G])"
    unfolding im_slots_def enumerate_eq_zip
    by (rule arg_cong [where f = concat]) (auto intro: nth_equalityI)
  also have "\<dots> = concat (map (\<lambda>g. filter (occ m) (map ((+) (g * 8)) [0..<8])) [0..<?G])"
  proof (intro arg_cong [where f = concat] map_cong refl)
    fix g assume "g \<in> set [0..<?G]"
    then have "occ m (g * 8 + i) \<longleftrightarrow> \<not> high (im_ctrl m ! g) i" if "i < 8" for i
      using occ_slot [of g m i] that by (simp add: mult.commute)
    then show "?F g (im_ctrl m ! g) = filter (occ m) (map ((+) (g * 8)) [0..<8])"
      unfolding one filter_map by (intro arg_cong [where f = "map ((+) (g * 8))"] filter_cong) auto
  qed
  also have "\<dots> = filter (occ m) [0..<8 * ?G]"
    unfolding upt_groups filter_concat by (simp add: comp_def)
  finally show ?thesis .
qed

lemma im_All_spec: "im_shape m \<Longrightarrow> im_All m = map Some (entries m)"
  by (auto simp: im_All_def im_slots_spec entries_def go_index_def im_shape_def)

lemma im_Keys_spec: "im_shape m \<Longrightarrow> im_Keys m = map (Some \<circ> fst) (entries m)"
  by (auto simp: im_Keys_def im_slots_spec entries_def go_index_def im_shape_def)

lemma im_Values_spec: "im_shape m \<Longrightarrow> im_Values m = map (Some \<circ> snd) (entries m)"
  by (auto simp: im_Values_def im_slots_spec entries_def go_index_def im_shape_def)

lemma im_Len_spec: "im_ok hash m \<Longrightarrow> im_Len m = card (dom (im_map m))"
proof -
  assume ok: "im_ok hash m"
  have "dom (im_map m) = (!) (im_keys m) ` {j. occ m j}"
    by (force simp: im_map_def dom_map_of_conv_image_fst set_entries)
  moreover have "inj_on ((!) (im_keys m)) {j. occ m j}" using im_okD(4) [OF ok] by (auto simp: inj_on_def)
  ultimately show ?thesis using im_okD(6) [OF ok] by (simp add: im_Len_def card_image)
qed


subsection \<open>Properties\<close>

lemma im_build_spec:
  fixes zk :: 'k and zv :: 'v
  assumes "length kvs < 2 ^ 60" and "kvs \<noteq> []"
  shows "\<exists>m. im_insert_all hash kvs (allocImmutable zk zv (length kvs)) = Some m \<and> im_ok hash m
      \<and> im_map m = map_of (rev kvs)"
proof -
  have "im_len (allocImmutable zk zv (length kvs)) + length kvs \<le> 8 * length (im_ctrl (allocImmutable zk zv (length kvs)))"
    by (rule im_alloc_ok(3) [OF assms(1)])
  from swiss.ins_all_room [OF im_alloc_ok(1) [OF assms(1)] this, of hash]
  show ?thesis by (auto simp: im_alloc_ok(2) [OF assms(1)])
qed

lemma im_empty_facts:
  "im_Get hash im_empty k = Some None" "im_All im_empty = []" "im_Keys im_empty = []" "im_Values im_empty = []"
  "im_Len im_empty = 0"
  by (simp_all add: im_empty_def im_Get_def im_All_def im_Keys_def im_Values_def im_slots_def im_Len_def)

text \<open>
  C34: a table built from parallel slices is the map of its entries. For any hash function and
  any slices of one length, the constructor does not panic; a lookup returns the last value
  given for the key and reports a missing key as missing; the length counts the different keys;
  and the iterators yield each key once, in one order, with the value a lookup returns. The
  constructor from a Go map builds the same table from the entries of the map.
\<close>

theorem immutable_map_is_its_entries:
  fixes hash :: "'k \<Rightarrow> 64 word" and keys :: "'k list" and vs :: "'v list"
  assumes "length keys = length vs" and "length keys < 2 ^ 60"
  shows "\<exists>m. NewImmutableMapFromEntries hash zk zv keys vs = Some m
      \<and> NewImmutableMap hash zk zv (zip keys vs) = Some m
      \<and> (\<forall>k. im_Get hash m k = Some (map_of (rev (zip keys vs)) k))
      \<and> (\<forall>k. im_Contains hash m k = Some (k \<in> set keys))
      \<and> im_Len m = card (set keys)
      \<and> (\<exists>es. im_All m = map Some es \<and> im_Keys m = map (Some \<circ> fst) es \<and> im_Values m = map (Some \<circ> snd) es
            \<and> distinct (map fst es) \<and> map_of es = map_of (rev (zip keys vs)))"
proof (cases "keys = []")
  case True
  then show ?thesis
    by (auto simp: NewImmutableMapFromEntries_def NewImmutableMap_def im_empty_facts im_Contains_def assms(1) [symmetric]
        intro!: exI [of _ im_empty])
next
  case False
  let ?kvs = "zip keys vs"
  have len: "length ?kvs = length keys" "?kvs \<noteq> []" using assms(1) False by auto
  obtain m where m: "im_insert_all hash ?kvs (allocImmutable zk zv (length keys)) = Some m" "im_ok hash m"
    "im_map m = map_of (rev ?kvs)"
    using im_build_spec [of ?kvs hash zk zv] len assms(2) by auto
  have dom: "dom (im_map m) = set keys"
    using assms(1) by (simp add: m(3) dom_map_of_conv_image_fst flip: set_map)
  have "im_Contains hash m k = Some (k \<in> set keys)" for k
    using im_Get_spec [OF m(2), of k] dom by (auto simp: im_Contains_def)
  moreover have "NewImmutableMapFromEntries hash zk zv keys vs = Some m"
    using assms(1) False m(1) by (cases vs) (auto simp: NewImmutableMapFromEntries_def)
  moreover have "NewImmutableMap hash zk zv ?kvs = Some m"
    using len m(1) by (simp add: NewImmutableMap_def)
  moreover have "distinct (map fst (entries m))" "map_of (entries m) = map_of (rev ?kvs)"
    using distinct_entries [OF m(2)] m(3) by (simp_all add: im_map_def)
  moreover note im_All_spec [OF im_okD(1) [OF m(2)]] im_Keys_spec [OF im_okD(1) [OF m(2)]] im_Values_spec [OF im_okD(1) [OF m(2)]]
  ultimately show ?thesis
    using im_Get_spec [OF m(2)] im_Len_spec [OF m(2)] dom m(3) by auto
qed

theorem immutable_map_is_its_entries_witness:
  "\<exists>m. NewImmutableMapFromEntries (\<lambda>k :: int. word_of_int k) 0 0 [1, 2, 1] [10, 20, 30 :: int] = Some m
     \<and> im_Get (\<lambda>k. word_of_int k) m 1 = Some (Some 30) \<and> im_Len m = 2"
proof -
  obtain m where m: "NewImmutableMapFromEntries (\<lambda>k :: int. word_of_int k) 0 0 [1, 2, 1] [10, 20, 30 :: int] = Some m"
    "\<forall>k. im_Get (\<lambda>k. word_of_int k) m k = Some (map_of (rev (zip [1, 2, 1] [10, 20, 30])) k)"
    "im_Len m = card (set [1, 2, 1 :: int])"
    using immutable_map_is_its_entries [of "[1, 2, 1 :: int]" "[10, 20, 30 :: int]" "\<lambda>k. word_of_int k" 0 0] by auto
  then show ?thesis by (intro exI [of _ m]) (simp add: card_insert_if)
qed

text \<open>
  C35: what the word-level scan of a group finds. A lane whose control byte is the fingerprint is
  always among the candidates, and with a fingerprint below \<open>0x80\<close> no empty lane ever is; a
  candidate may still be a different fingerprint, because a borrow crosses lanes. The scan for
  empty lanes is exact on control bytes, which are fingerprints or \<open>0x80\<close>.
\<close>

theorem group_scan_is_safe:
  assumes "i < 8"
  shows "(lane w i = ucast needle \<longrightarrow> high (matchByte w needle) i)
     \<and> (\<not> bit needle 7 \<and> high (matchByte w needle) i \<longrightarrow> \<not> high w i)
     \<and> ((high w i \<longrightarrow> lane w i = 0x80) \<longrightarrow> (high (matchEmpty w) i \<longleftrightarrow> lane w i = 0x80))
     \<and> (\<exists>w i. i < 8 \<and> lane w i \<noteq> 5 \<and> high (matchByte w 5) i)"
proof -
  have "high (matchEmpty w) i \<longleftrightarrow> lane w i = 0x80" if "high w i \<longrightarrow> lane w i = 0x80"
  proof (cases "lane w i = 0x80")
    case True
    then show ?thesis using high_matchEmpty [OF assms, of w] bit_lane [of w i 6] by (simp add: high_lane)
  next
    case False
    then show ?thesis using that high_matchEmpty [OF assms, of w] by auto
  qed
  moreover have "\<exists>w i. i < 8 \<and> lane w i \<noteq> 5 \<and> high (matchByte w 5) i"
  proof (intro exI conjI)
    have "matchByte 0x8080808080800405 5 = 0x8080" by code_simp
    then show "high (matchByte 0x8080808080800405 5) 1" by (simp add: high_def)
  qed (simp_all add: lane_def)
  ultimately show ?thesis using matchByte_hit [OF assms] matchByte_occupied [OF assms] by blast
qed

theorem group_scan_is_safe_witness: "high (matchByte 0x8080808080050480 5) 2"
  using group_scan_is_safe [of 2 "0x8080808080050480" 5] by (simp add: lane_def)

end
