(* ===== verification/Maps.thy ===== *)
theory Maps
  imports Atlas_Prelude "HOL-Library.Sublist"
begin

text \<open>
  The map helpers of \<^verbatim>\<open>src/core/collections/maps\<close>: \<^verbatim>\<open>maps.go\<close>, \<^verbatim>\<open>iter.go\<close>,
  \<^verbatim>\<open>merge_deep.go\<close> and \<^verbatim>\<open>flat.go\<close>.

  A Go map is the list of its entries in the order a \<^verbatim>\<open>range\<close> visits them, and an iterator the
  list of what it yields to a consumer that does not stop. A \<^verbatim>\<open>map[string]any\<close> is a Go map whose
  values are leaves or maps again; it is a tree, so no two paths share a map, and no map in it is
  nil. At the top the nil map and the empty map are both the empty list. \<open>leaves\<close> lists the leaves of a nested map with their paths; two
  nested maps without empty sub-maps that have the same leaves are the same map.
\<close>

subsection \<open>Flat maps (maps.go)\<close>

text \<open>\<^verbatim>\<open>maps.Copy(dst, src)\<close>\<close>

definition maps_Copy :: "('k, 'v) gomap \<Rightarrow> ('k, 'v) gomap \<Rightarrow> ('k, 'v) gomap" where
  "maps_Copy dst src = fold (\<lambda>(k, v). gm_put k v) src dst"

definition Merge :: "('k, 'v) gomap \<Rightarrow> ('k, 'v) gomap \<Rightarrow> ('k, 'v) gomap" where
  "Merge src dst =
     (if length src = 0 then if length dst = 0 then [] else maps_Copy [] dst
      else if length dst = 0 then maps_Copy [] src
      else maps_Copy (maps_Copy [] dst) src)"

definition map_Swap :: "('k, 'v) gomap \<Rightarrow> ('v, 'k) gomap" where
  "map_Swap src = (if length src = 0 then [] else fold (\<lambda>(key, v). gm_put v key) src [])"

definition FilterMap :: "('k, 'v) gomap \<Rightarrow> ('k \<Rightarrow> 'v \<Rightarrow> bool) \<Rightarrow> ('k, 'v) gomap" where
  "FilterMap collection predicate =
     (if length collection = 0 then []
      else fold (\<lambda>(key, v) result. if predicate key v then gm_put key v result else result) collection [])"

definition ConvertMap :: "('k1, 'v1) gomap \<Rightarrow> ('k1 \<Rightarrow> 'v1 \<Rightarrow> 'k2 \<times> 'v2) \<Rightarrow> ('k2, 'v2) gomap" where
  "ConvertMap collection f =
     (if length collection = 0 then []
      else fold (\<lambda>(key, v) result. let (newKey, newValue) = f key v in gm_put newKey newValue result) collection [])"

definition FromSlice :: "'a list \<Rightarrow> ('a \<Rightarrow> 'k) \<Rightarrow> ('k, 'a) gomap" where
  "FromSlice collection keyFn =
     (if length collection = 0 then [] else fold (\<lambda>item. gm_put (keyFn item) item) collection [])"

definition FromSliceWith :: "'a list \<Rightarrow> ('a \<Rightarrow> 'k \<times> 'v) \<Rightarrow> ('k, 'v) gomap" where
  "FromSliceWith collection fn =
     (if length collection = 0 then []
      else fold (\<lambda>item result. let (k, v) = fn item in gm_put k v result) collection [])"

definition MergeWith :: "('k, 'v) gomap \<Rightarrow> ('k, 'v) gomap \<Rightarrow> ('k \<Rightarrow> 'v \<Rightarrow> 'v \<Rightarrow> 'v) \<Rightarrow> ('k, 'v) gomap" where
  "MergeWith src dst resolve =
     (if length src = 0 then if length dst = 0 then [] else maps_Copy [] dst
      else if length dst = 0 then maps_Copy [] src
      else fold (\<lambda>(k, srcVal) result.
             case gm_get result k of
               Some dstVal \<Rightarrow> gm_put k (resolve k srcVal dstVal) result
             | None \<Rightarrow> gm_put k srcVal result) src (maps_Copy [] dst))"

definition MergeAll :: "('k, 'v) gomap list \<Rightarrow> ('k, 'v) gomap" where
  "MergeAll layers =
     (if sum_list (map length layers) = 0 then [] else fold (\<lambda>layer result. maps_Copy result layer) layers [])"

definition ToKeyValueSlice :: "('k \<Rightarrow> 'any) \<Rightarrow> ('v \<Rightarrow> 'any) \<Rightarrow> ('k, 'v) gomap \<Rightarrow> 'any list" where
  "ToKeyValueSlice boxk boxv m =
     (if length m = 0 then [] else fold (\<lambda>(key, v) slice. slice @ [boxk key, boxv v]) m [])"

text \<open>The lazy variants of \<^verbatim>\<open>iter.go\<close>\<close>

primrec maps_Filter :: "('k, 'v) gomap \<Rightarrow> ('k \<Rightarrow> 'v \<Rightarrow> bool) \<Rightarrow> ('k \<times> 'v) list" where
  "maps_Filter [] predicate = []"
| "maps_Filter (kv # m) predicate =
     (if predicate (fst kv) (snd kv) then kv # maps_Filter m predicate else maps_Filter m predicate)"

primrec maps_Map :: "('k1, 'v1) gomap \<Rightarrow> ('k1 \<Rightarrow> 'v1 \<Rightarrow> 'k2 \<times> 'v2) \<Rightarrow> ('k2 \<times> 'v2) list" where
  "maps_Map [] fn = []"
| "maps_Map (kv # m) fn = fn (fst kv) (snd kv) # maps_Map m fn"

subsection \<open>Nested maps (merge\_deep.go)\<close>

datatype 'a jany = JLeaf 'a | JMap "(string \<times> 'a jany) list"

type_synonym 'a jmap = "(string, 'a jany) gomap"

fun deepCopyMap :: "'a jmap \<Rightarrow> 'a jmap" where
  "deepCopyMap [] = []"
| "deepCopyMap ((k, v) # m) =
     (k, case v of JMap nested \<Rightarrow> JMap (deepCopyMap nested) | JLeaf a \<Rightarrow> JLeaf a) # deepCopyMap m"

text \<open>
  The two passes of \<^verbatim>\<open>MergeDeep\<close>: the entries only the destination has, then the entries of the
  source, merged where both sides hold a map.
\<close>

definition dst_only :: "'a jmap \<Rightarrow> 'a jmap \<Rightarrow> 'a jmap" where
  "dst_only src dst =
     fold (\<lambda>(k, v) result.
        case gm_get src k of
          Some _ \<Rightarrow> result
        | None \<Rightarrow> gm_put k (case v of JMap nested \<Rightarrow> JMap (deepCopyMap nested) | JLeaf a \<Rightarrow> JLeaf a) result) dst []"

function (sequential) MergeDeep :: "'a jmap \<Rightarrow> 'a jmap \<Rightarrow> 'a jmap"
  and merge_src :: "'a jmap \<Rightarrow> 'a jmap \<Rightarrow> 'a jmap \<Rightarrow> 'a jmap" where
  "MergeDeep src dst =
     (if length src = 0 \<and> length dst = 0 then []
      else if length src = 0 then deepCopyMap dst
      else if length dst = 0 then deepCopyMap src
      else merge_src src dst (dst_only src dst))"
| "merge_src [] dst result = result"
| "merge_src ((k, JLeaf a) # src) dst result = merge_src src dst (gm_put k (JLeaf a) result)"
| "merge_src ((k, JMap srcMap) # src) dst result =
     merge_src src dst
       (gm_put k (JMap (case gm_get dst k of
                          Some (JMap dstMap) \<Rightarrow> MergeDeep srcMap dstMap
                        | _ \<Rightarrow> deepCopyMap srcMap)) result)"
  by pat_completeness auto

termination MergeDeep
  by (relation "measure (case_sum (\<lambda>(src, dst). 2 * size (JMap src) + 1) (\<lambda>(src, dst, result). 2 * size (JMap src)))") auto

declare MergeDeep.simps [simp del]

subsection \<open>Flattening (flat.go)\<close>

function (sequential) flattenNested :: "(string \<Rightarrow> string) \<Rightarrow> 'a jmap \<Rightarrow> 'a jmap \<Rightarrow> string \<Rightarrow> 'a jmap" where
  "flattenNested keyMapper [] out pre = out"
| "flattenNested keyMapper ((key, value) # m) out pre =
     (let mappedKey = keyMapper key;
          fullKey = (if pre \<noteq> '''' then pre @ ''.'' @ mappedKey else mappedKey)
      in case value of
           JMap nestedMap \<Rightarrow> flattenNested keyMapper m (flattenNested keyMapper nestedMap out fullKey) pre
         | JLeaf a \<Rightarrow> flattenNested keyMapper m (gm_put fullKey (JLeaf a) out) pre)"
  by pat_completeness auto

termination flattenNested
  by (relation "measure (\<lambda>(keyMapper, m, out, pre). size (JMap m))") auto

definition ToFlatMap :: "'a jmap \<Rightarrow> (string \<Rightarrow> string) option \<Rightarrow> 'a jmap" where
  "ToFlatMap m keyMapper =
     (if length m = 0 then []
      else flattenNested (case keyMapper of None \<Rightarrow> (\<lambda>key. key) | Some f \<Rightarrow> f) m [] '''')"

text \<open>\<^verbatim>\<open>strings.IndexByte(s, '.')\<close> and the two parts around the dot.\<close>

definition split_dot :: "string \<Rightarrow> (string \<times> string) option" where
  "split_dot s =
     (if CHR ''.'' \<in> set s then Some (takeWhile (\<lambda>c. c \<noteq> CHR ''.'') s, tl (dropWhile (\<lambda>c. c \<noteq> CHR ''.'') s)) else None)"

lemma split_dot_length: "split_dot s = Some (seg, rest) \<Longrightarrow> length rest < length s"
proof -
  assume "split_dot s = Some (seg, rest)"
  then have d: "CHR ''.'' \<in> set s" "rest = tl (dropWhile (\<lambda>c. c \<noteq> CHR ''.'') s)"
    by (auto simp: split_dot_def split: if_splits)
  then have "dropWhile (\<lambda>c. c \<noteq> CHR ''.'') s \<noteq> []" by (auto simp: dropWhile_eq_Nil_conv)
  then show "length rest < length s"
    using d(2) length_dropWhile_le [of "\<lambda>c. c \<noteq> CHR ''.''" s]
    by (cases "dropWhile (\<lambda>c. c \<noteq> CHR ''.'') s") auto
qed

text \<open>
  One key of the flat map is written into the nested map. \<open>Inl\<close> is the value a segment of the
  path runs into; the maps made on the way are fresh then, so nothing has changed.
\<close>

function put_path :: "'a jmap \<Rightarrow> string \<Rightarrow> 'a jany \<Rightarrow> 'a jany + 'a jmap" where
  "put_path current remaining value =
     (case split_dot remaining of
        None \<Rightarrow> Inr (gm_put remaining value current)
      | Some (segment, rest) \<Rightarrow>
          (case gm_get current segment of
             Some (JMap nxt) \<Rightarrow> map_sum id (\<lambda>n. gm_put segment (JMap n) current) (put_path nxt rest value)
           | Some (JLeaf a) \<Rightarrow> Inl (JLeaf a)
           | None \<Rightarrow> map_sum id (\<lambda>n. gm_put segment (JMap n) current) (put_path [] rest value)))"
  by auto

termination put_path
  by (relation "measure (\<lambda>(current, remaining, value). length remaining)") (auto dest: split_dot_length)

declare put_path.simps [simp del]

definition from_flat_key ::
  "(string \<Rightarrow> 'a jany \<Rightarrow> 'w \<Rightarrow> 'w) option \<Rightarrow> string \<times> 'a jany \<Rightarrow> 'a jmap \<times> 'w \<Rightarrow> 'a jmap \<times> 'w" where
  "from_flat_key onConflict kv st =
     (let (key, value) = kv; (out, w) = st
      in if split_dot key = None then (gm_put key value out, w)
         else case put_path out key value of
                Inr out' \<Rightarrow> (out', w)
              | Inl existing \<Rightarrow> (out, case onConflict of None \<Rightarrow> w | Some f \<Rightarrow> f key existing w))"

definition FromFlatMapWithHandler ::
  "'a jmap \<Rightarrow> (string \<Rightarrow> 'a jany \<Rightarrow> 'w \<Rightarrow> 'w) option \<Rightarrow> 'w \<Rightarrow> 'a jmap \<times> 'w" where
  "FromFlatMapWithHandler m onConflict w =
     (if length m = 0 then ([], w) else fold (from_flat_key onConflict) m ([], w))"

definition FromFlatMap :: "'a jmap \<Rightarrow> 'a jmap" where
  "FromFlatMap m = fst (FromFlatMapWithHandler m (None :: (string \<Rightarrow> 'a jany \<Rightarrow> unit \<Rightarrow> unit) option) ())"


subsection \<open>Leaves of a nested map\<close>

fun leaves_of :: "'a jany \<Rightarrow> (string list \<times> 'a) list" where
  "leaves_of (JLeaf a) = [([], a)]"
| "leaves_of (JMap m) = concat (map (\<lambda>(k, v). map (\<lambda>(p, a). (k # p, a)) (leaves_of v)) m)"

abbreviation leaves :: "'a jmap \<Rightarrow> (string list \<times> 'a) list" where
  "leaves m \<equiv> leaves_of (JMap m)"

text \<open>Every map of the tree has distinct keys, and no map inside it is empty.\<close>

fun jtree :: "'a jany \<Rightarrow> bool" where
  "jtree (JLeaf a) = True"
| "jtree (JMap m) = (gm_wf m \<and> (\<forall>(k, v) \<in> set m. jtree v \<and> v \<noteq> JMap []))"

lemma jtree_entry: "jtree (JMap m) \<Longrightarrow> gm_get m k = Some v \<Longrightarrow> jtree v \<and> v \<noteq> JMap []"
  by (auto dest!: gm_get_in_set)

lemma jtreeI: "gm_wf m \<Longrightarrow> (\<And>k v. gm_get m k = Some v \<Longrightarrow> jtree v \<and> v \<noteq> JMap []) \<Longrightarrow> jtree (JMap m)"
  by (auto simp: gm_get_iff)

lemma leaves_Nil: "([], a) \<notin> set (leaves m)"
  by auto

lemma leaves_Cons: "gm_wf m \<Longrightarrow> (k # p, a) \<in> set (leaves m) \<longleftrightarrow> (\<exists>v. gm_get m k = Some v \<and> (p, a) \<in> set (leaves_of v))"
  by (force simp: gm_get_iff)

lemma jtree_has_leaf: "jtree v \<Longrightarrow> v \<noteq> JMap [] \<Longrightarrow> \<exists>p a. (p, a) \<in> set (leaves_of v)"
proof (induction v rule: leaves_of.induct)
  case (2 m)
  then obtain k v m' where m: "m = (k, v) # m'" by (cases m) auto
  then have "\<exists>p a. (p, a) \<in> set (leaves_of v)" using "2.IH" [of "(k, v)" k v] "2.prems" by auto
  then show ?case using m by force
qed auto

declare leaves_of.simps(2) [simp del]

lemma deepCopyMap_id [simp]: "deepCopyMap m = m"
  by (induction m rule: deepCopyMap.induct) (auto split: jany.split)

subsection \<open>Facts of the flat operations\<close>

lemma gm_get_Cons: "gm_get ((k, v) # m) k' = (if k' = k then Some v else gm_get m k')"
  by (simp add: gm_get_def)

lemma gm_get_fresh: "gm_wf ((k, v) # m) \<Longrightarrow> gm_get m k = None"
  by (simp add: gm_get_None_iff)

lemma copy_get: "gm_wf src \<Longrightarrow> gm_get (maps_Copy dst src) k = (case gm_get src k of Some v \<Rightarrow> Some v | None \<Rightarrow> gm_get dst k)"
  unfolding maps_Copy_def
proof (induction src arbitrary: dst)
  case (Cons kv src)
  obtain k' v' where kv: "kv = (k', v')" by (cases kv)
  show ?case
    using Cons.IH [of "gm_put k' v' dst"] Cons.prems gm_get_fresh [of k' v' src]
    by (auto simp: kv gm_get_Cons split: option.split)
qed simp

lemma copy_wf: "gm_wf dst \<Longrightarrow> gm_wf (maps_Copy dst src)"
  unfolding maps_Copy_def by (induction src arbitrary: dst) auto

lemma Merge_get: "gm_wf src \<Longrightarrow> gm_wf dst \<Longrightarrow>
    gm_get (Merge src dst) k = (case gm_get src k of Some v \<Rightarrow> Some v | None \<Rightarrow> gm_get dst k)"
  by (auto simp: Merge_def copy_get copy_wf split: option.split)

subsection \<open>Deep merge\<close>

definition merge_opt :: "'a jany option \<Rightarrow> 'a jany option \<Rightarrow> 'a jany option" where
  "merge_opt s d =
     (case (s, d) of
        (Some (JMap sm), Some (JMap dm)) \<Rightarrow> Some (JMap (MergeDeep sm dm))
      | (Some v, _) \<Rightarrow> Some v
      | (None, _) \<Rightarrow> d)"

lemma merge_src_Cons:
  "merge_src ((k, v) # src) dst result = merge_src src dst (gm_put k (the (merge_opt (Some v) (gm_get dst k))) result)"
  by (cases v) (auto simp: merge_opt_def split: option.split jany.split)

lemma merge_opt_Some: "merge_opt (Some v) d \<noteq> None"
  by (auto simp: merge_opt_def split: option.split jany.split)

lemma merge_src_get:
  "gm_wf src \<Longrightarrow> gm_get (merge_src src dst result) k
     = (case gm_get src k of None \<Rightarrow> gm_get result k | Some v \<Rightarrow> merge_opt (Some v) (gm_get dst k))"
proof (induction src arbitrary: result)
  case (Cons kv src)
  obtain k' v' where kv: "kv = (k', v')" by (cases kv)
  show ?case
    using Cons.IH Cons.prems gm_get_fresh [of k' v' src] merge_opt_Some [of v' "gm_get dst k'"]
    by (auto simp: kv merge_src_Cons gm_get_Cons split: option.split)
qed simp

lemma merge_src_wf: "gm_wf result \<Longrightarrow> gm_wf (merge_src src dst result)"
  by (induction src arbitrary: result) (auto simp: merge_src_Cons)

lemma dst_only_facts:
  "gm_wf dst \<Longrightarrow> gm_get (dst_only src dst) k = (if gm_get src k = None then gm_get dst k else None)"
  "gm_wf (dst_only src dst)"
proof -
  let ?f = "\<lambda>(k, v) result. case gm_get src k of Some _ \<Rightarrow> result
      | None \<Rightarrow> gm_put k (case v of JMap nested \<Rightarrow> JMap (deepCopyMap nested) | JLeaf a \<Rightarrow> JLeaf a) result"
  have same: "(case v of JMap nested \<Rightarrow> JMap (deepCopyMap nested) | JLeaf a \<Rightarrow> JLeaf a) = v" for v :: "'a jany"
    by (simp split: jany.split)
  have get: "gm_get (fold ?f dst result) k
      = (if gm_get src k = None then case gm_get dst k of Some v \<Rightarrow> Some v | None \<Rightarrow> gm_get result k else gm_get result k)"
    if "gm_wf dst" for result :: "'a jmap" and dst
    using that
  proof (induction dst arbitrary: result)
    case (Cons kv dst)
    obtain k' v' where kv: "kv = (k', v')" by (cases kv)
    show ?case
      using Cons.IH Cons.prems gm_get_fresh [of k' v' dst] by (auto simp: kv same gm_get_Cons split: option.split)
  qed simp
  show "gm_wf dst \<Longrightarrow> gm_get (dst_only src dst) k = (if gm_get src k = None then gm_get dst k else None)"
    using get [of dst "[]"] by (simp add: dst_only_def split: option.split)
  have "gm_wf result \<Longrightarrow> gm_wf (fold ?f dst result)" for result :: "'a jmap"
    by (induction dst arbitrary: result) (auto split: option.split)
  then show "gm_wf (dst_only src dst)" by (simp add: dst_only_def)
qed

lemma MergeDeep_get:
  assumes "gm_wf src" "gm_wf dst"
  shows "gm_get (MergeDeep src dst) k = merge_opt (gm_get src k) (gm_get dst k)" "gm_wf (MergeDeep src dst)"
proof -
  show "gm_wf (MergeDeep src dst)"
    using assms by (simp add: MergeDeep.simps merge_src_wf dst_only_facts(2))
  show "gm_get (MergeDeep src dst) k = merge_opt (gm_get src k) (gm_get dst k)"
    using assms by (cases "src = [] \<or> dst = []")
      (auto simp: MergeDeep.simps merge_src_get dst_only_facts(1) merge_opt_def split: option.split jany.split)
qed

lemma MergeDeep_tree: "jtree (JMap src) \<Longrightarrow> jtree (JMap dst) \<Longrightarrow> jtree (JMap (MergeDeep src dst))"
proof (induction "size (JMap src)" arbitrary: src dst rule: less_induct)
  case less
  have wf: "gm_wf src" "gm_wf dst" using less.prems by simp_all
  show ?case
  proof (rule jtreeI)
    show "gm_wf (MergeDeep src dst)" by (rule MergeDeep_get(2) [OF wf])
    fix k v assume "gm_get (MergeDeep src dst) k = Some v"
    then have v: "merge_opt (gm_get src k) (gm_get dst k) = Some v" using MergeDeep_get(1) [OF wf] by simp
    show "jtree v \<and> v \<noteq> JMap []"
    proof (cases "\<exists>sm dm. gm_get src k = Some (JMap sm) \<and> gm_get dst k = Some (JMap dm)")
      case True
      then obtain sm dm where sd: "gm_get src k = Some (JMap sm)" "gm_get dst k = Some (JMap dm)" by blast
      have "size (JMap sm) < size (JMap src)"
        using gm_get_in_set [OF sd(1)] by (induction src) auto
      then have "jtree (JMap (MergeDeep sm dm))"
        using less.hyps jtree_entry [OF less.prems(1) sd(1)] jtree_entry [OF less.prems(2) sd(2)] by blast
      moreover have "MergeDeep sm dm \<noteq> []"
      proof
        assume e: "MergeDeep sm dm = []"
        have t: "jtree (JMap sm)" "jtree (JMap dm)" "sm \<noteq> []"
          using jtree_entry [OF less.prems(1) sd(1)] jtree_entry [OF less.prems(2) sd(2)] by auto
        then obtain k' v' sm' where "sm = (k', v') # sm'" by (cases sm) auto
        then have "gm_get sm k' = Some v'" by (simp add: gm_get_Cons)
        then show False
          using MergeDeep_get(1) [of sm dm k'] t merge_opt_Some [of v' "gm_get dm k'"] e by simp
      qed
      ultimately show ?thesis using v sd by (auto simp: merge_opt_def)
    next
      case False
      then have "gm_get src k = Some v \<or> gm_get dst k = Some v"
        using v by (auto simp: merge_opt_def split: option.splits jany.splits)
      then show ?thesis using jtree_entry less.prems by blast
    qed
  qed
qed


lemma MergeDeep_leaf:
  assumes "jtree (JMap src)" "jtree (JMap dst)"
  shows "(p, a) \<in> set (leaves (MergeDeep src dst)) \<longleftrightarrow>
    (p, a) \<in> set (leaves src)
    \<or> ((p, a) \<in> set (leaves dst) \<and> (\<forall>(q, b) \<in> set (leaves src). \<not> prefix q p \<and> \<not> prefix p q))"
  using assms
proof (induction p arbitrary: src dst)
  case Nil
  show ?case by (simp add: leaves_Nil)
next
  case (Cons k p)
  have wf: "gm_wf src" "gm_wf dst" using Cons.prems by simp_all
  note out = leaves_Cons [OF MergeDeep_get(2) [OF wf], of k p a] MergeDeep_get(1) [OF wf, of k]
  note lv = leaves_Cons [OF wf(1)] leaves_Cons [OF wf(2)]
  have starts: "\<exists>j q'. q = j # q'" if "(q, b) \<in> set (leaves src)" for q b
    using that leaves_Nil by (metis list.exhaust)
  show ?case
  proof (cases "gm_get src k")
    case None
    then have free: "\<forall>(q, b) \<in> set (leaves src). \<not> prefix q (k # p) \<and> \<not> prefix (k # p) q"
      using starts lv(1) by fastforce
    then show ?thesis using None out lv(1,2) [of k p a] by (simp add: merge_opt_def)
  next
    case (Some v)
    show ?thesis
    proof (cases v)
      case (JLeaf b)
      then have "([k], b) \<in> set (leaves src)" using Some lv(1) [of k "[]" b] by simp
      then have "\<not> (\<forall>(q, b) \<in> set (leaves src). \<not> prefix q (k # p) \<and> \<not> prefix (k # p) q)" by fastforce
      then show ?thesis using Some JLeaf out lv(1) [of k p a] by (simp only: merge_opt_def) simp
    next
      case (JMap sm)
      note tree = jtree_entry [OF Cons.prems(1) Some]
      show ?thesis
      proof (cases "\<exists>dm. gm_get dst k = Some (JMap dm)")
        case True
        then obtain dm where dm: "gm_get dst k = Some (JMap dm)" by blast
        have "(\<forall>(q, b) \<in> set (leaves src). \<not> prefix q (k # p) \<and> \<not> prefix (k # p) q)
            \<longleftrightarrow> (\<forall>(q, b) \<in> set (leaves sm). \<not> prefix q p \<and> \<not> prefix p q)"
          using starts lv(1) Some JMap by fastforce
        then show ?thesis
          using Cons.IH [of sm dm] tree JMap jtree_entry [OF Cons.prems(2) dm] out lv Some dm
          by (simp add: merge_opt_def)
      next
        case False
        obtain q b where "(q, b) \<in> set (leaves sm)" using jtree_has_leaf tree JMap by blast
        then have "(k # q, b) \<in> set (leaves src)" using lv(1) Some JMap by blast
        moreover have "p = []" if leaf: "(k # p, a) \<in> set (leaves dst)"
        proof -
          obtain v where v: "gm_get dst k = Some v" "(p, a) \<in> set (leaves_of v)"
            using leaf lv(2) [of k p a] by auto
          then obtain c where "v = JLeaf c" using False by (cases v) auto
          then show ?thesis using v(2) by simp
        qed
        ultimately have "\<not> ((k # p, a) \<in> set (leaves dst)
            \<and> (\<forall>(q, b) \<in> set (leaves src). \<not> prefix q (k # p) \<and> \<not> prefix (k # p) q))" by fastforce
        moreover have "merge_opt (gm_get src k) (gm_get dst k) = Some (JMap sm)"
          using Some JMap False by (simp add: merge_opt_def split: option.splits jany.splits)
        ultimately show ?thesis using out lv(1) [of k p a] Some JMap by auto
      qed
    qed
  qed
qed


subsection \<open>Flattening and expanding\<close>

definition full_key :: "string \<Rightarrow> string \<Rightarrow> string" where
  "full_key pre k = (if pre \<noteq> '''' then pre @ ''.'' @ k else k)"

definition join_path :: "string \<Rightarrow> string list \<Rightarrow> string" where
  "join_path pre p = foldl full_key pre p"

lemma flattenNested_fold:
  "flattenNested (\<lambda>key. key) m out pre = fold (\<lambda>(p, a). gm_put (join_path pre p) (JLeaf a)) (leaves m) out"
proof (induction "\<lambda>key :: string. key" m out pre rule: flattenNested.induct)
  case (2 key v m out pre)
  have shift: "fold (\<lambda>(p, a). gm_put (join_path (full_key pre key) p) (JLeaf a)) ls out
      = fold (\<lambda>(p, a). gm_put (join_path pre p) (JLeaf a)) (map (\<lambda>(p, a). (key # p, a)) ls) out"
    for ls :: "(string list \<times> 'a) list" and out :: "'a jmap"
    by (induction ls arbitrary: out) (auto simp: join_path_def)
  show ?case
  proof (cases v)
    case (JLeaf a)
    then show ?thesis
      using "2.hyps"(1) [OF refl refl JLeaf]
      by (simp add: full_key_def [symmetric] join_path_def Let_def leaves_of.simps(2))
  next
    case (JMap nested)
    then show ?thesis
      using "2.hyps"(2) [OF refl refl JMap] "2.hyps"(3) [OF refl refl JMap] shift
      by (simp add: full_key_def [symmetric] Let_def leaves_of.simps(2))
  qed
qed (simp add: leaves_of.simps(2))

lemma fold_put_fresh:
  "distinct (map fst (out @ kvs)) \<Longrightarrow> fold (\<lambda>(k, v). gm_put k v) kvs out = out @ kvs"
proof (induction kvs arbitrary: out)
  case (Cons kv kvs)
  obtain k v where kv: "kv = (k, v)" by (cases kv)
  have "gm_put k v out = out @ [(k, v)]"
    using Cons.prems kv by (induction out) (auto simp: gm_put_def)
  then show ?case using Cons.IH [of "out @ [(k, v)]"] Cons.prems kv by simp
qed simp

text \<open>Segments the dot-separated notation can carry: not empty and without a dot.\<close>

definition key_ok :: "string \<Rightarrow> bool" where
  "key_ok k \<longleftrightarrow> k \<noteq> '''' \<and> CHR ''.'' \<notin> set k"

lemma join_path_Cons:
  assumes "key_ok k" and "\<forall>k \<in> set p. key_ok k"
  shows "join_path '''' (k # p) = (if p = [] then k else k @ ''.'' @ join_path '''' p)"
proof -
  have dots: "join_path pre ks = pre @ concat (map (\<lambda>k. ''.'' @ k) ks)" if "pre \<noteq> ''''" for pre ks
    using that by (induction ks arbitrary: pre) (auto simp: join_path_def full_key_def)
  have k: "k \<noteq> ''''" using assms(1) by (simp add: key_ok_def)
  show ?thesis
  proof (cases p)
    case (Cons j q)
    have "j \<noteq> ''''" using assms(2) Cons by (simp add: key_ok_def)
    then show ?thesis using Cons k dots [of k "j # q"] dots [of j q] by (simp add: join_path_def full_key_def)
  qed (simp add: join_path_def full_key_def)
qed

lemma split_dot_key: "key_ok k \<Longrightarrow> split_dot k = None" "key_ok k \<Longrightarrow> split_dot (k @ ''.'' @ s) = Some (k, s)"
proof -
  assume k: "key_ok k"
  then show "split_dot k = None" by (simp add: split_dot_def key_ok_def)
  have "takeWhile (\<lambda>c. c \<noteq> CHR ''.'') (k @ ''.'' @ s) = k" "dropWhile (\<lambda>c. c \<noteq> CHR ''.'') (k @ ''.'' @ s) = ''.'' @ s"
    using k by (auto simp: key_ok_def takeWhile_append dropWhile_append)
  then show "split_dot (k @ ''.'' @ s) = Some (k, s)" by (simp add: split_dot_def)
qed

lemma join_path_inj:
  assumes "p \<noteq> []" "q \<noteq> []" "\<forall>k \<in> set p. key_ok k" "\<forall>k \<in> set q. key_ok k" "join_path '''' p = join_path '''' q"
  shows "p = q"
  using assms
proof (induction p arbitrary: q)
  case (Cons k p)
  obtain j r where q: "q = j # r" using Cons.prems(2) by (cases q) auto
  have e: "(if p = [] then k else k @ ''.'' @ join_path '''' p) = (if r = [] then j else j @ ''.'' @ join_path '''' r)"
    using Cons.prems q join_path_Cons [of k p] join_path_Cons [of j r] by simp
  have d: "split_dot (if p = [] then k else k @ ''.'' @ join_path '''' p) = (if p = [] then None else Some (k, join_path '''' p))"
    "split_dot (if r = [] then j else j @ ''.'' @ join_path '''' r) = (if r = [] then None else Some (j, join_path '''' r))"
    using Cons.prems q split_dot_key by auto
  have s: "(if p = [] then None else Some (k, join_path '''' p)) = (if r = [] then None else Some (j, join_path '''' r))"
    using d(1) d(2) e by metis
  show ?case
  proof (cases "p = []")
    case True
    then have "r = []" using s by (simp split: if_splits)
    then show ?thesis using True e q by simp
  next
    case False
    then have r: "r \<noteq> []" "j = k" "join_path '''' p = join_path '''' r" using s by (simp_all split: if_splits)
    then show ?thesis using False Cons.IH [of r] Cons.prems q by simp
  qed
qed simp


text \<open>Writing a leaf at a list of segments, as \<open>put_path\<close> does at a joined key.\<close>

fun put_segs :: "'a jmap \<Rightarrow> string list \<Rightarrow> 'a jany \<Rightarrow> 'a jany + 'a jmap" where
  "put_segs current [] v = Inr current"
| "put_segs current [k] v = Inr (gm_put k v current)"
| "put_segs current (k # p) v =
     (case gm_get current k of
        Some (JMap nxt) \<Rightarrow> map_sum id (\<lambda>n. gm_put k (JMap n) current) (put_segs nxt p v)
      | Some (JLeaf a) \<Rightarrow> Inl (JLeaf a)
      | None \<Rightarrow> map_sum id (\<lambda>n. gm_put k (JMap n) current) (put_segs [] p v))"

lemma put_path_segs:
  "p \<noteq> [] \<Longrightarrow> \<forall>k \<in> set p. key_ok k \<Longrightarrow> put_path current (join_path '''' p) v = put_segs current p v"
proof (induction current p v rule: put_segs.induct)
  case (2 current k v)
  then show ?case using join_path_Cons [of k "[]"] split_dot_key(1) [of k] by (simp add: put_path.simps)
next
  case (3 current k k' p v)
  have "split_dot (join_path '''' (k # k' # p)) = Some (k, join_path '''' (k' # p))"
    using "3.prems" join_path_Cons [of k "k' # p"] split_dot_key(2) [of k] by simp
  then show ?case using "3.IH" "3.prems" by (simp add: put_path.simps [of current] split: option.split jany.split)
qed simp

lemma put_segs_leaf:
  assumes "p \<noteq> []" and "jtree (JMap cur)" and "\<forall>(q, b) \<in> set (leaves cur). \<not> prefix q p \<and> \<not> prefix p q"
  shows "\<exists>cur'. put_segs cur p (JLeaf a) = Inr cur' \<and> jtree (JMap cur') \<and> cur' \<noteq> []
      \<and> set (leaves cur') = insert (p, a) (set (leaves cur))"
proof -
  have upd: "jtree (JMap (gm_put k v cur)) \<and> gm_put k v cur \<noteq> []
      \<and> set (leaves (gm_put k v cur)) = insert (k # r, a) (set (leaves cur))"
    if wf: "jtree (JMap cur)" and v: "jtree v" "v \<noteq> JMap []"
      and lv: "\<And>q b. (q, b) \<in> set (leaves_of v) \<longleftrightarrow>
        (q, b) = (r, a) \<or> (\<exists>v0. gm_get cur k = Some v0 \<and> (q, b) \<in> set (leaves_of v0))"
    for k v r and cur :: "'a jmap"
  proof (intro conjI)
    have gw: "gm_wf cur" using wf by simp
    show "jtree (JMap (gm_put k v cur))"
      using wf v jtree_entry [OF wf] by (intro jtreeI) (auto split: if_splits)
    show "gm_put k v cur \<noteq> []" by (metis gm_get_Nil gm_get_put option.distinct(1))
    show "set (leaves (gm_put k v cur)) = insert (k # r, a) (set (leaves cur))"
    proof (rule set_eqI)
      fix x :: "string list \<times> 'a"
      obtain q b where x: "x = (q, b)" by (cases x)
      show "x \<in> set (leaves (gm_put k v cur)) \<longleftrightarrow> x \<in> insert (k # r, a) (set (leaves cur))"
      proof (cases q)
        case Nil
        then show ?thesis by (simp add: leaves_Nil x)
      next
        case (Cons j q')
        then show ?thesis
          using leaves_Cons [OF gm_wf_put [OF gw], of j q' b k v] leaves_Cons [OF gw, of j q' b] lv [of q' b] x
          by auto
      qed
    qed
  qed
  show ?thesis
    using assms
  proof (induction p arbitrary: cur)
    case (Cons k p)
    have gw: "gm_wf cur" using Cons.prems(2) by simp
    have below: "\<not> prefix q p \<and> \<not> prefix p q" if "gm_get cur k = Some v0" "(q, b) \<in> set (leaves_of v0)" for v0 q b
      using Cons.prems(3) leaves_Cons [OF gw, of k q b] that by fastforce
    show ?case
    proof (cases "p = []")
      case True
      have none: "gm_get cur k = None"
      proof (rule ccontr)
        assume "gm_get cur k \<noteq> None"
        then obtain v0 where v0: "gm_get cur k = Some v0" by blast
        then obtain q b where "(q, b) \<in> set (leaves_of v0)"
          using jtree_has_leaf jtree_entry [OF Cons.prems(2)] by blast
        then show False using below [OF v0] True by auto
      qed
      then show ?thesis using True upd [OF Cons.prems(2), of "JLeaf a" "[]" k] by auto
    next
      case False
      define n where "n = (case gm_get cur k of Some (JMap m) \<Rightarrow> m | _ \<Rightarrow> [])"
      have "gm_get cur k \<noteq> Some (JLeaf c)" for c using below [of "JLeaf c" "[]" c] by auto
      then have get: "gm_get cur k = None \<and> n = [] \<or> gm_get cur k = Some (JMap n)"
        by (auto simp: n_def split: option.splits jany.splits)
      have tn: "jtree (JMap n)" using get jtree_entry [OF Cons.prems(2), of k "JMap n"] by auto
      have lvn: "(q, b) \<in> set (leaves n) \<longleftrightarrow> (\<exists>v0. gm_get cur k = Some v0 \<and> (q, b) \<in> set (leaves_of v0))" for q b
        using get by (auto simp: leaves_of.simps(2) [of "[]"])
      have "\<forall>(q, b) \<in> set (leaves n). \<not> prefix q p \<and> \<not> prefix p q" using lvn below by blast
      then obtain n' where n': "put_segs n p (JLeaf a) = Inr n'" "jtree (JMap n')" "n' \<noteq> []"
        "set (leaves n') = insert (p, a) (set (leaves n))"
        using Cons.IH [OF False tn] by blast
      have "put_segs cur (k # p) (JLeaf a) = Inr (gm_put k (JMap n') cur)"
        using False get n'(1) by (cases p) auto
      then show ?thesis using upd [OF Cons.prems(2) n'(2), of p k] n'(3,4) lvn by auto
    qed
  qed simp
qed


lemma leaves_antichain:
  assumes "jtree v" and "(p, a) \<in> set (leaves_of v)" "(q, b) \<in> set (leaves_of v)" and "prefix p q"
  shows "p = q \<and> a = b"
  using assms
proof (induction p arbitrary: v q)
  case Nil
  then obtain c where "v = JLeaf c" by (cases v) (auto simp: leaves_Nil)
  then show ?case using Nil.prems by simp
next
  case (Cons k p)
  obtain m where m: "v = JMap m" using Cons.prems(2) by (cases v) auto
  obtain q' where q: "q = k # q'" "prefix p q'" using Cons.prems(4) by (auto simp: prefix_def)
  have gw: "gm_wf m" using Cons.prems(1) m by simp
  obtain v' where v': "gm_get m k = Some v'" "(p, a) \<in> set (leaves_of v')" "(q', b) \<in> set (leaves_of v')"
    using Cons.prems(2,3) q(1) m leaves_Cons [OF gw, of k p a] leaves_Cons [OF gw, of k q' b] by auto
  then show ?case using Cons.IH [of v' q'] jtree_entry [of m k v'] Cons.prems(1) m q by simp
qed

lemma leaves_distinct: "jtree v \<Longrightarrow> distinct (map fst (leaves_of v))"
proof (induction v rule: leaves_of.induct)
  case (2 m)
  have "distinct (map fst (leaves_of v))" if "(k, v) \<in> set m" for k v
    using "2.IH" [OF that refl] "2.prems" that by auto
  then have "distinct (map fst (concat (map (\<lambda>(k, v). map (\<lambda>(p, a). (k # p, a)) (leaves_of v)) m)))"
    using "2.prems" [simplified, THEN conjunct1]
  proof (induction m)
    case (Cons kv m)
    obtain k v where kv: "kv = (k, v)" by (cases kv)
    have "map fst (map (\<lambda>(p, a). (k # p, a)) (leaves_of v)) = map ((#) k) (map fst (leaves_of v))" by auto
    then have "distinct (map fst (map (\<lambda>(p, a). (k # p, a)) (leaves_of v)))"
      using Cons.prems(1) [of k v] kv by (simp add: distinct_map inj_on_def)
    moreover have "distinct (map fst (concat (map (\<lambda>(k, v). map (\<lambda>(p, a). (k # p, a)) (leaves_of v)) m)))"
      by (rule Cons.IH) (use Cons.prems in auto)
    moreover have "k \<notin> fst ` set m" using Cons.prems(2) kv by simp
    then have "set (map fst (map (\<lambda>(p, a). (k # p, a)) (leaves_of v)))
        \<inter> set (map fst (concat (map (\<lambda>(k, v). map (\<lambda>(p, a). (k # p, a)) (leaves_of v)) m))) = {}"
      by force
    ultimately show ?case
      unfolding kv list.map prod.case concat.simps map_append distinct_append by blast
  qed simp
  then show ?case by (simp add: leaves_of.simps(2))
qed simp

definition flat_entry :: "string list \<times> 'a \<Rightarrow> string \<times> 'a jany" where
  "flat_entry pa = (join_path '''' (fst pa), JLeaf (snd pa))"

lemma ToFlatMap_leaves:
  assumes "jtree (JMap m)" and "\<forall>(p, a) \<in> set (leaves m). \<forall>k \<in> set p. key_ok k"
  shows "ToFlatMap m None = map flat_entry (leaves m)"
proof -
  have put: "(\<lambda>(p, a). gm_put (join_path '''' p) (JLeaf a)) = (\<lambda>pa. (\<lambda>(k, v). gm_put k v) (flat_entry pa))"
    by (auto simp: flat_entry_def)
  have d: "distinct (leaves m)" "inj_on fst (set (leaves m))"
    using leaves_distinct [OF assms(1)] by (simp_all add: distinct_map)
  have "inj_on (fst \<circ> flat_entry) (set (leaves m))"
  proof (rule inj_onI)
    fix x y assume xy: "x \<in> set (leaves m)" "y \<in> set (leaves m)" "(fst \<circ> flat_entry) x = (fst \<circ> flat_entry) y"
    obtain p a q b where pq: "x = (p, a)" "y = (q, b)" by (cases x, cases y)
    then have "p \<noteq> []" "q \<noteq> []" using xy leaves_Nil [of a m] leaves_Nil [of b m] by auto
    then have "p = q" using assms(2) xy pq by (intro join_path_inj) (auto simp: flat_entry_def)
    then show "x = y" using inj_onD [OF d(2) _ xy(1,2)] pq by simp
  qed
  then have "distinct (map fst (map flat_entry (leaves m)))"
    using d(1) by (simp add: distinct_map)
  then have "fold (\<lambda>(p, a). gm_put (join_path '''' p) (JLeaf a)) (leaves m) [] = map flat_entry (leaves m)"
    using fold_put_fresh [of "[]" "map flat_entry (leaves m)"] by (simp add: put fold_map comp_def)
  then show ?thesis
    by (cases m) (simp_all add: ToFlatMap_def flattenNested_fold leaves_of.simps(2) [of "[]"] id_def)
qed

lemma from_flat_fold:
  assumes "\<forall>(p, a) \<in> set ls. p \<noteq> [] \<and> (\<forall>k \<in> set p. key_ok k)"
    and "sorted_wrt (\<lambda>x y. \<not> prefix (fst x) (fst y) \<and> \<not> prefix (fst y) (fst x)) ls"
    and "\<forall>(p, a) \<in> set ls. \<forall>(q, b) \<in> set (leaves cur). \<not> prefix q p \<and> \<not> prefix p q" and "jtree (JMap cur)"
  shows "\<exists>out. fold (from_flat_key h) (map flat_entry ls) (cur, w) = (out, w) \<and> jtree (JMap out)
      \<and> set (leaves out) = set (leaves cur) \<union> set ls"
  using assms
proof (induction ls arbitrary: cur)
  case (Cons x ls)
  obtain p a where x: "x = (p, a)" by (cases x)
  have p: "p \<noteq> []" "\<forall>k \<in> set p. key_ok k" "\<forall>(q, b) \<in> set (leaves cur). \<not> prefix q p \<and> \<not> prefix p q"
    using Cons.prems(1,3) x by auto
  obtain cur' where cur': "put_path cur (join_path '''' p) (JLeaf a) = Inr cur'" "jtree (JMap cur')"
    "set (leaves cur') = insert (p, a) (set (leaves cur))"
    using put_segs_leaf [OF p(1) Cons.prems(4) p(3)] put_path_segs [OF p(1,2)] by metis
  have step: "from_flat_key h (flat_entry x) (cur, w) = (cur', w)"
    using cur'(1) by (auto simp: from_flat_key_def flat_entry_def x put_path.simps [of cur "join_path '''' p"] split: option.splits)
  have "\<forall>(p', a') \<in> set ls. \<forall>(q, b) \<in> set (leaves cur'). \<not> prefix q p' \<and> \<not> prefix p' q"
    using Cons.prems(2,3) x cur'(3) by fastforce
  then show ?case using Cons.IH [of cur'] Cons.prems(1,2) cur'(2,3) step x by auto
qed simp

lemma map_perm:
  "mset ys = image_mset f (mset xs) \<Longrightarrow> \<exists>zs. mset zs = mset xs \<and> ys = map f zs"
proof (induction ys arbitrary: xs)
  case (Cons y ys)
  obtain M x where M: "mset xs = add_mset x M" "f x = y" "image_mset f M = mset ys"
    using msed_map_invR [of f "mset xs" y "mset ys"] Cons.prems by auto
  obtain xs' where xs': "mset xs' = M" using ex_mset by blast
  then obtain zs where "mset zs = mset xs'" "ys = map f zs" using Cons.IH [of xs'] M(3) by auto
  then show ?case using M xs' by (intro exI [of _ "x # zs"]) simp
qed simp


lemma MergeAll_get:
  assumes "\<forall>layer \<in> set layers. gm_wf layer"
  shows "gm_get (MergeAll layers) k = (if \<exists>layer \<in> set layers. gm_get layer k \<noteq> None
      then gm_get (last (filter (\<lambda>layer. gm_get layer k \<noteq> None) layers)) k else None)"
proof -
  have "gm_get (fold (\<lambda>layer result. maps_Copy result layer) layers base) k = (if \<exists>layer \<in> set layers. gm_get layer k \<noteq> None
      then gm_get (last (filter (\<lambda>layer. gm_get layer k \<noteq> None) layers)) k else gm_get base k)" for base
    using assms
  proof (induction layers arbitrary: base)
    case (Cons l ls)
    show ?case using Cons.IH [of "maps_Copy base l"] Cons.prems copy_get [of l base k]
      by (auto simp: filter_empty_conv split: option.splits)
  qed simp
  moreover have "sum_list (map length layers) = 0 \<Longrightarrow> \<forall>layer \<in> set layers. gm_get layer k = None" by auto
  ultimately show ?thesis by (auto simp: MergeAll_def)
qed

subsection \<open>Properties\<close>

text \<open>
  C37: \<^verbatim>\<open>MergeDeep\<close> overlays the source on the destination at the level of leaves. Every leaf of the
  source is in the result; a leaf of the destination survives exactly when no leaf of the source
  lies on its path, above it or below it; nothing else is in the result, and the result is again
  a map with distinct keys and without empty sub-maps.
\<close>

theorem MergeDeep_overlays_leaves:
  assumes "jtree (JMap src)" "jtree (JMap dst)"
  shows "set (leaves (MergeDeep src dst)) = set (leaves src)
      \<union> {(p, a) \<in> set (leaves dst). \<forall>(q, b) \<in> set (leaves src). \<not> prefix q p \<and> \<not> prefix p q}
    \<and> jtree (JMap (MergeDeep src dst))"
  using MergeDeep_leaf [OF assms] MergeDeep_tree [OF assms] by auto

theorem MergeDeep_overlays_leaves_witness:
  "([''db'', ''port''], 5432) \<in> set (leaves (MergeDeep [(''db'', JMap [(''host'', JLeaf 1)])]
     [(''db'', JMap [(''host'', JLeaf 0), (''port'', JLeaf (5432 :: int))]), (''log'', JLeaf 7)]))"
  using MergeDeep_overlays_leaves [of "[(''db'', JMap [(''host'', JLeaf (1 :: int))])]"
      "[(''db'', JMap [(''host'', JLeaf 0), (''port'', JLeaf (5432 :: int))]), (''log'', JLeaf 7)]"]
  by (simp add: leaves_of.simps)



end
