(* ===== verification/Idempotency.thy ===== *)
theory Idempotency
  imports Slices
begin

text \<open>
  Idempotency keys: the keys of \<^verbatim>\<open>src/core/encoding/keys/keys.go\<close> and
  \<^verbatim>\<open>src/data/idempotency/key.go\<close>, the in-memory storage
  \<^verbatim>\<open>src/data/idempotency/storages/memory\<close> with the sweep of \<^verbatim>\<open>src/data/internal/memcleanup\<close>,
  and the Keeper of \<^verbatim>\<open>src/data/idempotency/idempotency.go\<close>.

  A \<^verbatim>\<open>[]byte\<close> is an optional string, \<open>None\<close> being the nil slice. Every storage method takes the
  mutex for its whole body, so it is one step on the map; the instants its calls of
  \<^verbatim>\<open>time.Now\<close> return are arguments, in the order of the calls. The Keeper calls a storage through
  its interface, a record of operations on a world; \<open>others\<close> is what the rest of the process does
  to the world between the two storage calls of one attempt. The serializer, the nonce and the
  callbacks of the options are parameters. Metrics and logging are left out.
\<close>

subsection \<open>Composed keys\<close>

definition Compose :: "string list \<Rightarrow> string" where
  "Compose parts = concat (map (\<lambda>part. nat_digits (length part) @ '':'' @ part) parts)"

definition ComposeKey :: "string list \<Rightarrow> string" where
  "ComposeKey parts = ''idk:v2:'' @ Compose parts"

subsection \<open>Bytes and errors\<close>

type_synonym gobytes = "string option"

definition bytes_of :: "gobytes \<Rightarrow> string" where
  "bytes_of b = (case b of None \<Rightarrow> [] | Some s \<Rightarrow> s)"

definition bytes_Equal :: "gobytes \<Rightarrow> gobytes \<Rightarrow> bool" where
  "bytes_Equal a b \<longleftrightarrow> bytes_of a = bytes_of b"

definition bytes_len :: "gobytes \<Rightarrow> nat" where
  "bytes_len b = length (bytes_of b)"

definition ErrEmptyKey :: goerr where
  "ErrEmptyKey = Sentinel ''ErrEmptyKey'' ''idempotency: empty key'' []"

definition ErrLockStolen :: goerr where
  "ErrLockStolen = Sentinel ''ErrLockStolen'' ''idempotency: lock stolen by another holder'' []"

definition ErrMissingLockState :: goerr where
  "ErrMissingLockState = Sentinel ''ErrMissingLockState'' ''idempotency: missing lock state'' []"

definition ErrFingerprintMismatch :: goerr where
  "ErrFingerprintMismatch =
     Sentinel ''ErrFingerprintMismatch'' ''idempotency: key reused with a different request'' []"

definition ErrOwnerMismatch :: goerr where
  "ErrOwnerMismatch = Sentinel ''ErrOwnerMismatch'' ''idempotency: key belongs to another owner'' []"

subsection \<open>The in-memory storage\<close>

record entry =
  e_key :: string
  e_value :: gobytes
  e_expiresAt :: gotime

type_synonym idem_store = "(string, entry) gomap"

definition expired :: "entry \<Rightarrow> gotime \<Rightarrow> bool" where
  "expired e now \<longleftrightarrow> e_expiresAt e \<noteq> 0 \<and> \<not> now < e_expiresAt e"

definition ks_AttemptLockWithTTL ::
  "duration \<Rightarrow> string \<Rightarrow> gobytes \<Rightarrow> duration \<Rightarrow> gotime \<Rightarrow> gotime \<Rightarrow> idem_store
     \<Rightarrow> (goerr + bool \<times> gobytes \<times> gobytes) \<times> idem_store" where
  "ks_AttemptLockWithTTL optTtl key val lockTtl now1 now2 s =
     (if key = '''' then (Inl ErrEmptyKey, s)
      else let ttl = (if lockTtl > 0 then lockTtl else optTtl);
               fresh = \<lparr> e_key = key, e_value = val, e_expiresAt = (if ttl > 0 then now2 + ttl else 0) \<rparr>
           in case gm_get s key of
                Some e \<Rightarrow>
                  (if e_expiresAt e \<noteq> 0 \<and> now1 > e_expiresAt e
                   then (Inr (True, None, val), gm_put key fresh (gm_del key s))
                   else (Inr (False, e_value e, None), s))
              | None \<Rightarrow> (Inr (True, None, val), gm_put key fresh s))"

definition ks_AttemptLock ::
  "duration \<Rightarrow> string \<Rightarrow> gobytes \<Rightarrow> gotime \<Rightarrow> gotime \<Rightarrow> idem_store
     \<Rightarrow> (goerr + bool \<times> gobytes \<times> gobytes) \<times> idem_store" where
  "ks_AttemptLock optTtl key val now1 now2 s = ks_AttemptLockWithTTL optTtl key val 0 now1 now2 s"

definition ks_Complete ::
  "duration \<Rightarrow> string \<Rightarrow> gobytes \<Rightarrow> gobytes \<Rightarrow> gotime \<Rightarrow> gotime \<Rightarrow> idem_store \<Rightarrow> goerr option \<times> idem_store" where
  "ks_Complete optTtl key val lockToken now1 now2 s =
     (if key = '''' then (Some ErrEmptyKey, s)
      else case gm_get s key of
        None \<Rightarrow> (Some ErrLockStolen, s)
      | Some e \<Rightarrow>
          (if expired e now1 then (Some ErrLockStolen, s)
           else if lockToken \<noteq> None \<and> \<not> bytes_Equal (e_value e) lockToken then (Some ErrLockStolen, s)
           else (None, gm_put key (e\<lparr>e_value := val, e_expiresAt := (if optTtl > 0 then now2 + optTtl else 0)\<rparr>) s)))"

definition ks_Steal ::
  "duration \<Rightarrow> string \<Rightarrow> gobytes \<Rightarrow> gobytes \<Rightarrow> gotime \<Rightarrow> gotime \<Rightarrow> idem_store \<Rightarrow> (goerr + gobytes) \<times> idem_store" where
  "ks_Steal optTtl key expectedVal newVal now1 now2 s =
     (if key = '''' then (Inl ErrEmptyKey, s)
      else case gm_get s key of
        None \<Rightarrow> (Inl ErrLockStolen, s)
      | Some e \<Rightarrow>
          (if expired e now1 then (Inl ErrLockStolen, s)
           else if \<not> bytes_Equal (e_value e) expectedVal then (Inl ErrLockStolen, s)
           else (Inr newVal,
                 gm_put key (e\<lparr>e_value := newVal,
                               e_expiresAt := (if optTtl > 0 then now2 + optTtl else e_expiresAt e)\<rparr>) s)))"

definition ks_Delete :: "string \<Rightarrow> idem_store \<Rightarrow> goerr option \<times> idem_store" where
  "ks_Delete key s = (if key = '''' then (Some ErrEmptyKey, s) else (None, gm_del key s))"

definition ks_Release :: "string \<Rightarrow> gobytes \<Rightarrow> gotime \<Rightarrow> idem_store \<Rightarrow> goerr option \<times> idem_store" where
  "ks_Release key lockToken now s =
     (if key = '''' then (Some ErrEmptyKey, s)
      else if bytes_len lockToken = 0 then (Some ErrMissingLockState, s)
      else case gm_get s key of
        None \<Rightarrow> (Some ErrLockStolen, s)
      | Some e \<Rightarrow>
          (if \<not> bytes_Equal (e_value e) lockToken \<or> expired e now then (Some ErrLockStolen, s)
           else (None, gm_del key s)))"

text \<open>
  The sweep: the keys expired in the map \<open>s1\<close> seen under the read lock are deleted from the map
  \<open>s2\<close> found under the write lock, if they are expired there too.
\<close>

definition sweep_collect :: "('v \<Rightarrow> bool) \<Rightarrow> ('k, 'v) gomap \<Rightarrow> 'k list" where
  "sweep_collect isExpired s1 = fold (\<lambda>(k, v) ks. AppendIf ks (isExpired v) [k]) s1 []"

definition sweep_delete :: "('v \<Rightarrow> bool) \<Rightarrow> 'k list \<Rightarrow> ('k, 'v) gomap \<Rightarrow> ('k, 'v) gomap" where
  "sweep_delete isExpired ks s2 =
     fold (\<lambda>k s. case gm_get s k of Some v \<Rightarrow> (if isExpired v then gm_del k s else s) | None \<Rightarrow> s) ks s2"

definition Sweep :: "('v \<Rightarrow> bool) \<Rightarrow> ('k, 'v) gomap \<Rightarrow> ('k, 'v) gomap \<Rightarrow> ('k, 'v) gomap" where
  "Sweep isExpired s1 s2 =
     (let ks = sweep_collect isExpired s1 in if length ks = 0 then s2 else sweep_delete isExpired ks s2)"

definition runCleanupCycle :: "gotime \<Rightarrow> idem_store \<Rightarrow> idem_store \<Rightarrow> idem_store" where
  "runCleanupCycle now s1 s2 = Sweep (\<lambda>e. expired e now) s1 s2"

subsection \<open>The Keeper\<close>

text \<open>The wire form of a record, the state handed to callers, and the options.\<close>

definition StatusInProgress :: string where
  "StatusInProgress = ''IN_PROGRESS''"

definition StatusSuccess :: string where
  "StatusSuccess = ''SUCCESS''"

record 'd serializedState =
  ws_Status :: string
  ws_Data :: "'d option"
  ws_Nonce :: string
  ws_LockedAt :: gotime
  ws_Fingerprint :: gobytes
  ws_Owner :: string

record 'd State =
  st_Status :: string
  st_Data :: "'d option"
  st_lockToken :: gobytes
  st_fingerprint :: gobytes
  st_owner :: string

record AttemptLockOpts =
  al_LockTTL :: duration
  al_MaxLockDuration :: duration
  al_Fingerprint :: gobytes

record 'w idem_storage =
  is_AttemptLockWithTTL :: "string \<Rightarrow> gobytes \<Rightarrow> duration \<Rightarrow> 'w \<Rightarrow> (goerr + bool \<times> gobytes \<times> gobytes) \<times> 'w"
  is_Complete :: "string \<Rightarrow> gobytes \<Rightarrow> gobytes \<Rightarrow> 'w \<Rightarrow> goerr option \<times> 'w"
  is_Steal :: "string \<Rightarrow> gobytes \<Rightarrow> gobytes \<Rightarrow> 'w \<Rightarrow> (goerr + gobytes) \<times> 'w"
  is_Release :: "string \<Rightarrow> gobytes \<Rightarrow> 'w \<Rightarrow> goerr option \<times> 'w"
  is_Delete :: "string \<Rightarrow> 'w \<Rightarrow> goerr option \<times> 'w"

record ('c, 'd, 'w) Keeper =
  kp_storage :: "'w idem_storage"
  kp_serialize :: "'d serializedState \<Rightarrow> goerr + gobytes"
  kp_deserialize :: "gobytes \<Rightarrow> goerr + 'd serializedState"
  kp_maxLockDuration :: duration
  kp_keyNamespace :: "('c \<Rightarrow> string) option"
  kp_owner :: "('c \<Rightarrow> string) option"
  kp_replayAuthorizer :: "('c \<Rightarrow> string \<Rightarrow> goerr option) option"
  kp_now :: "'w \<Rightarrow> gotime \<times> 'w"
  kp_uuid :: "'w \<Rightarrow> string \<times> 'w"

definition DefaultMaxLockDuration :: duration where
  "DefaultMaxLockDuration = 5 * 60 * 10 ^ 9"

text \<open>\<^verbatim>\<open>New\<close> replaces a zero threshold by the default.\<close>

definition keeper_New :: "('c, 'd, 'w) Keeper \<Rightarrow> ('c, 'd, 'w) Keeper" where
  "keeper_New opts =
     (if kp_maxLockDuration opts = 0 then opts\<lparr>kp_maxLockDuration := DefaultMaxLockDuration\<rparr> else opts)"

definition LockToken :: "'d State option \<Rightarrow> gobytes" where
  "LockToken s = (case s of None \<Rightarrow> None | Some st \<Rightarrow> st_lockToken st)"

definition State_Fingerprint :: "'d State option \<Rightarrow> gobytes" where
  "State_Fingerprint s = (case s of None \<Rightarrow> None | Some st \<Rightarrow> st_fingerprint st)"

definition State_Owner :: "'d State option \<Rightarrow> string" where
  "State_Owner s = (case s of None \<Rightarrow> '''' | Some st \<Rightarrow> st_owner st)"

definition effectiveKey :: "('c, 'd, 'w) Keeper \<Rightarrow> 'c \<Rightarrow> string \<Rightarrow> string" where
  "effectiveKey kp c key =
     (let ns = (case kp_keyNamespace kp of None \<Rightarrow> '''' | Some f \<Rightarrow> f c) in ComposeKey [''namespace'', ns, key])"

definition heldState :: "gobytes \<Rightarrow> gobytes \<Rightarrow> string \<Rightarrow> 'd State" where
  "heldState lockToken fingerprint owner =
     \<lparr> st_Status = StatusInProgress, st_Data = None, st_lockToken = lockToken, st_fingerprint = fingerprint,
       st_owner = owner \<rparr>"

definition mayTakeOver :: "('c, 'd, 'w) Keeper \<Rightarrow> 'd serializedState \<Rightarrow> string \<Rightarrow> bool" where
  "mayTakeOver kp existing owner \<longleftrightarrow> kp_owner kp = None \<or> ws_Owner existing = '''' \<or> ws_Owner existing = owner"

definition ownerOf :: "('c, 'd, 'w) Keeper \<Rightarrow> 'c \<Rightarrow> string" where
  "ownerOf kp c = (case kp_owner kp of None \<Rightarrow> '''' | Some f \<Rightarrow> f c)"

definition checkReplay ::
  "('c, 'd, 'w) Keeper \<Rightarrow> 'c \<Rightarrow> 'd serializedState \<Rightarrow> string \<Rightarrow> gobytes \<Rightarrow> goerr option" where
  "checkReplay kp c existing owner fingerprint =
     (let fp = (if bytes_len fingerprint > 0 \<and> bytes_len (ws_Fingerprint existing) > 0
                   \<and> \<not> bytes_Equal fingerprint (ws_Fingerprint existing)
                then Some ErrFingerprintMismatch else None)
      in case kp_replayAuthorizer kp of
           Some authorize \<Rightarrow>
             (case authorize c (ws_Owner existing) of
                Some e \<Rightarrow> Some (Errorf (err_text ErrOwnerMismatch @ '': '' @ err_text e) [ErrOwnerMismatch, e])
              | None \<Rightarrow> fp)
         | None \<Rightarrow>
             (if kp_owner kp \<noteq> None \<and> ws_Owner existing \<noteq> '''' \<and> ws_Owner existing \<noteq> owner
              then Some ErrOwnerMismatch else fp))"

definition resolveMaxLockDuration :: "('c, 'd, 'w) Keeper \<Rightarrow> AttemptLockOpts \<Rightarrow> duration" where
  "resolveMaxLockDuration kp opts =
     (if al_MaxLockDuration opts > 0 then al_MaxLockDuration opts else kp_maxLockDuration kp)"

definition newWire ::
  "('c, 'd, 'w) Keeper \<Rightarrow> 'c \<Rightarrow> AttemptLockOpts \<Rightarrow> 'w \<Rightarrow> 'd serializedState \<times> 'w" where
  "newWire kp c opts w =
     (let (nonce, w1) = kp_uuid kp w; (now, w2) = kp_now kp w1
      in (\<lparr> ws_Status = StatusInProgress, ws_Data = None, ws_Nonce = nonce, ws_LockedAt = now,
            ws_Fingerprint = al_Fingerprint opts, ws_Owner = ownerOf kp c \<rparr>, w2))"

text \<open>What a caller gets who is denied the lock: the state of the record, without a token.\<close>

definition deniedState :: "'d serializedState \<Rightarrow> 'd State" where
  "deniedState existing =
     \<lparr> st_Status = ws_Status existing, st_Data = ws_Data existing, st_lockToken = None,
       st_fingerprint = ws_Fingerprint existing, st_owner = ws_Owner existing \<rparr>"

text \<open>Whether the record is an orphaned lock the caller may take over.\<close>

definition orphaned ::
  "('c, 'd, 'w) Keeper \<Rightarrow> AttemptLockOpts \<Rightarrow> 'd serializedState \<Rightarrow> string \<Rightarrow> 'w \<Rightarrow> bool \<times> 'w" where
  "orphaned kp opts existing owner w =
     (if ws_Status existing = StatusInProgress \<and> mayTakeOver kp existing owner
         \<and> resolveMaxLockDuration kp opts > 0 \<and> ws_LockedAt existing \<noteq> 0
      then (let (now, w1) = kp_now kp w in (now - ws_LockedAt existing > resolveMaxLockDuration kp opts, w1))
      else (False, w))"

definition takeOver :: "'d serializedState \<Rightarrow> 'd serializedState \<Rightarrow> 'd serializedState" where
  "takeOver existing wire =
     wire\<lparr>ws_Fingerprint := (if bytes_len (ws_Fingerprint existing) > 0 then ws_Fingerprint existing
                               else ws_Fingerprint wire),
          ws_Owner := (if ws_Owner existing \<noteq> '''' then ws_Owner existing else ws_Owner wire)\<rparr>"

definition attempt_existing ::
  "('c, 'd, 'w) Keeper \<Rightarrow> ('w \<Rightarrow> 'w) \<Rightarrow> 'c \<Rightarrow> string \<Rightarrow> AttemptLockOpts \<Rightarrow> 'd serializedState \<Rightarrow> gobytes \<Rightarrow> 'w
     \<Rightarrow> (bool \<times> 'd State option \<times> goerr option) \<times> 'w" where
  "attempt_existing kp others c ek opts wire existingVal w =
     (case kp_deserialize kp existingVal of
        Inl e \<Rightarrow> ((False, None, WrapOperation (Some e) ''deserialize existing state''), w)
      | Inr existing \<Rightarrow>
          (case checkReplay kp c existing (ownerOf kp c) (al_Fingerprint opts) of
             Some e \<Rightarrow> ((False, None, Some e), w)
           | None \<Rightarrow>
               (case orphaned kp opts existing (ownerOf kp c) w of
                  (False, w1) \<Rightarrow> ((False, Some (deniedState existing), None), w1)
                | (True, w1) \<Rightarrow>
                    (let wire' = takeOver existing wire
                     in case kp_serialize kp wire' of
                          Inl e \<Rightarrow> ((False, None, WrapOperation (Some e) ''serialize state''), w1)
                        | Inr stealVal \<Rightarrow>
                            (case is_Steal (kp_storage kp) ek existingVal stealVal (others w1) of
                               (Inr newToken, w2) \<Rightarrow>
                                 ((True, Some (heldState newToken (ws_Fingerprint wire') (ws_Owner wire')), None), w2)
                             | (Inl e, w2) \<Rightarrow>
                                 (if err_is e ''ErrLockStolen''
                                  then ((False, Some (deniedState existing), None), w2)
                                  else ((False, None, Some e), w2)))))))"

definition AttemptLockWithOpts ::
  "('c, 'd, 'w) Keeper \<Rightarrow> ('w \<Rightarrow> 'w) \<Rightarrow> 'c \<Rightarrow> string \<Rightarrow> AttemptLockOpts \<Rightarrow> 'w
     \<Rightarrow> (bool \<times> 'd State option \<times> goerr option) \<times> 'w" where
  "AttemptLockWithOpts kp others c key opts w =
     (if key = '''' then ((False, None, Some ErrEmptyKey), w)
      else let ek = effectiveKey kp c key; (wire, w1) = newWire kp c opts w
           in case kp_serialize kp wire of
                Inl e \<Rightarrow> ((False, None, WrapOperation (Some e) ''serialize state''), w1)
              | Inr val \<Rightarrow>
                  (case is_AttemptLockWithTTL (kp_storage kp) ek val (al_LockTTL opts) w1 of
                     (Inl e, w2) \<Rightarrow> ((False, None, Some e), w2)
                   | (Inr (True, existingVal, lockToken), w2) \<Rightarrow>
                       ((True, Some (heldState lockToken (ws_Fingerprint wire) (ownerOf kp c)), None), w2)
                   | (Inr (False, existingVal, lockToken), w2) \<Rightarrow>
                       attempt_existing kp others c ek opts wire existingVal w2))"

definition AttemptLock ::
  "('c, 'd, 'w) Keeper \<Rightarrow> ('w \<Rightarrow> 'w) \<Rightarrow> 'c \<Rightarrow> string \<Rightarrow> 'w \<Rightarrow> (bool \<times> 'd State option \<times> goerr option) \<times> 'w" where
  "AttemptLock kp others c key w =
     AttemptLockWithOpts kp others c key \<lparr> al_LockTTL = 0, al_MaxLockDuration = 0, al_Fingerprint = None \<rparr> w"

definition keeper_Complete ::
  "('c, 'd, 'w) Keeper \<Rightarrow> 'c \<Rightarrow> string \<Rightarrow> 'd option \<Rightarrow> 'd State option \<Rightarrow> 'w \<Rightarrow> goerr option \<times> 'w" where
  "keeper_Complete kp c key data lockState w =
     (if key = '''' then (Some ErrEmptyKey, w)
      else if bytes_len (LockToken lockState) = 0 then (Some ErrMissingLockState, w)
      else case kp_serialize kp
                  \<lparr> ws_Status = StatusSuccess, ws_Data = data, ws_Nonce = '''', ws_LockedAt = 0,
                    ws_Fingerprint = State_Fingerprint lockState, ws_Owner = State_Owner lockState \<rparr> of
             Inl e \<Rightarrow> (WrapOperation (Some e) ''serialize state'', w)
           | Inr val \<Rightarrow> is_Complete (kp_storage kp) (effectiveKey kp c key) val (LockToken lockState) w)"

definition keeper_Delete :: "('c, 'd, 'w) Keeper \<Rightarrow> 'c \<Rightarrow> string \<Rightarrow> 'w \<Rightarrow> goerr option \<times> 'w" where
  "keeper_Delete kp c key w =
     (if key = '''' then (Some ErrEmptyKey, w) else is_Delete (kp_storage kp) (effectiveKey kp c key) w)"

definition keeper_Release ::
  "('c, 'd, 'w) Keeper \<Rightarrow> 'c \<Rightarrow> string \<Rightarrow> 'd State option \<Rightarrow> 'w \<Rightarrow> goerr option \<times> 'w" where
  "keeper_Release kp c key lockState w =
     (if key = '''' then (Some ErrEmptyKey, w)
      else if bytes_len (LockToken lockState) = 0 then (Some ErrMissingLockState, w)
      else is_Release (kp_storage kp) (effectiveKey kp c key) (LockToken lockState) w)"

text \<open>The in-memory storage behind the interface: the map and the clock \<open>now\<close> of the process.\<close>

definition idem_memory :: "duration \<Rightarrow> ('x \<Rightarrow> gotime \<times> 'x) \<Rightarrow> (idem_store \<times> 'x) idem_storage" where
  "idem_memory ttl now =
     \<lparr> is_AttemptLockWithTTL = (\<lambda>key val lockTtl (s, x).
         let (n1, x1) = now x; (n2, x2) = now x1; (r, s') = ks_AttemptLockWithTTL ttl key val lockTtl n1 n2 s
         in (r, s', x2)),
       is_Complete = (\<lambda>key val token (s, x).
         let (n1, x1) = now x; (n2, x2) = now x1; (r, s') = ks_Complete ttl key val token n1 n2 s in (r, s', x2)),
       is_Steal = (\<lambda>key expectedVal newVal (s, x).
         let (n1, x1) = now x; (n2, x2) = now x1; (r, s') = ks_Steal ttl key expectedVal newVal n1 n2 s
         in (r, s', x2)),
       is_Release = (\<lambda>key token (s, x). let (n, x1) = now x; (r, s') = ks_Release key token n s in (r, s', x1)),
       is_Delete = (\<lambda>key (s, x). let (r, s') = ks_Delete key s in (r, s', x)) \<rparr>"

subsection \<open>Keys of different tuples differ\<close>

lemma nat_digits_not_Nil: "nat_digits n \<noteq> []"
  by (subst nat_digits.simps) simp

lemma Compose_inject: "Compose ps = Compose qs \<longleftrightarrow> ps = qs"
proof (induction ps arbitrary: qs)
  case Nil
  then show ?case by (cases qs) (auto simp: Compose_def nat_digits_not_Nil)
next
  case (Cons p ps)
  show ?case
  proof (cases qs)
    case Nil
    then show ?thesis by (auto simp: Compose_def nat_digits_not_Nil)
  next
    case (Cons q qs')
    then show ?thesis
      using framed_inject [of p "Compose ps" q "Compose qs'"] Cons.IH [of qs'] by (auto simp: Compose_def)
  qed
qed

lemma ComposeKey_inject: "ComposeKey ps = ComposeKey qs \<longleftrightarrow> ps = qs"
  by (simp add: ComposeKey_def Compose_inject)

definition namespace_of :: "('c, 'd, 'w) Keeper \<Rightarrow> 'c \<Rightarrow> string" where
  "namespace_of kp c = (case kp_keyNamespace kp of None \<Rightarrow> '''' | Some f \<Rightarrow> f c)"

lemma effectiveKey_eq_iff:
  "effectiveKey kp c key = effectiveKey kp c' key' \<longleftrightarrow> namespace_of kp c = namespace_of kp c' \<and> key = key'"
  by (simp add: effectiveKey_def namespace_of_def ComposeKey_inject Let_def)

lemma effectiveKey_not_empty [simp]: "effectiveKey kp c key \<noteq> ''''"
  by (simp add: effectiveKey_def ComposeKey_def Let_def)

subsection \<open>Sequences of storage calls\<close>

text \<open>
  One call on the storage, with the instants its clock readings return. The keys a sweep deletes
  were collected earlier; any list of keys is allowed.
\<close>

datatype idem_op =
    OpAttempt string gobytes duration gotime gotime
  | OpComplete string gobytes gobytes gotime gotime
  | OpSteal string gobytes gobytes gotime gotime
  | OpRelease string gobytes gotime
  | OpDelete string
  | OpSweep gotime "string list"

fun op_step :: "duration \<Rightarrow> idem_op \<Rightarrow> idem_store \<Rightarrow> idem_store" where
  "op_step ttl (OpAttempt key val lockTtl n1 n2) s = snd (ks_AttemptLockWithTTL ttl key val lockTtl n1 n2 s)"
| "op_step ttl (OpComplete key val token n1 n2) s = snd (ks_Complete ttl key val token n1 n2 s)"
| "op_step ttl (OpSteal key expectedVal newVal n1 n2) s = snd (ks_Steal ttl key expectedVal newVal n1 n2 s)"
| "op_step ttl (OpRelease key token n) s = snd (ks_Release key token n s)"
| "op_step ttl (OpDelete key) s = snd (ks_Delete key s)"
| "op_step ttl (OpSweep now ks) s = sweep_delete (\<lambda>e. expired e now) ks s"

text \<open>Whether a call took effect on a key: it won the lock, completed, released or deleted it.\<close>

fun op_took :: "duration \<Rightarrow> idem_op \<Rightarrow> idem_store \<Rightarrow> string \<Rightarrow> bool" where
  "op_took ttl (OpAttempt key val lockTtl n1 n2) s k \<longleftrightarrow>
     key = k \<and> (case fst (ks_AttemptLockWithTTL ttl key val lockTtl n1 n2 s) of Inr (ok, _) \<Rightarrow> ok | Inl _ \<Rightarrow> False)"
| "op_took ttl (OpComplete key val token n1 n2) s k \<longleftrightarrow>
     key = k \<and> fst (ks_Complete ttl key val token n1 n2 s) = None"
| "op_took ttl (OpSteal key expectedVal newVal n1 n2) s k \<longleftrightarrow>
     key = k \<and> (case fst (ks_Steal ttl key expectedVal newVal n1 n2 s) of Inr _ \<Rightarrow> True | Inl _ \<Rightarrow> False)"
| "op_took ttl (OpRelease key token n) s k \<longleftrightarrow> key = k \<and> fst (ks_Release key token n s) = None"
| "op_took ttl (OpDelete key) s k \<longleftrightarrow> key = k \<and> fst (ks_Delete key s) = None"
| "op_took ttl (OpSweep now ks) s k \<longleftrightarrow> False"

fun op_writes :: "idem_op \<Rightarrow> gobytes option" where
  "op_writes (OpAttempt key val lockTtl n1 n2) = Some val"
| "op_writes (OpComplete key val token n1 n2) = Some val"
| "op_writes (OpSteal key expectedVal newVal n1 n2) = Some newVal"
| "op_writes op = None"

text \<open>The bytes stored under a key, whether they have expired or not.\<close>

definition held_by :: "idem_store \<Rightarrow> string \<Rightarrow> string \<Rightarrow> bool" where
  "held_by s k tok \<longleftrightarrow> (\<exists>e. gm_get s k = Some e \<and> bytes_of (e_value e) = tok)"

lemma sweep_delete_get:
  "gm_get (sweep_delete P ks s) k = Some v \<Longrightarrow> gm_get s k = Some v"
proof (induction ks arbitrary: s)
  case (Cons j ks)
  let ?s = "case gm_get s j of Some v \<Rightarrow> (if P v then gm_del j s else s) | None \<Rightarrow> s"
  have "gm_get ?s k = Some v"
    using Cons.IH [of ?s] Cons.prems by (simp add: sweep_delete_def)
  then show ?case by (simp split: option.splits if_splits)
qed (simp add: sweep_delete_def)

lemma op_step_not_held:
  assumes "\<not> held_by s k tok" and "\<And>b. op_writes op = Some b \<Longrightarrow> bytes_of b \<noteq> tok"
  shows "\<not> held_by (op_step ttl op s) k tok"
proof (cases op)
  case (OpSweep now ks)
  then show ?thesis using assms(1) sweep_delete_get by (fastforce simp: held_by_def)
qed (use assms in \<open>auto simp: held_by_def ks_AttemptLockWithTTL_def ks_Complete_def ks_Steal_def ks_Release_def
      ks_Delete_def Let_def split: option.splits if_splits\<close>)

lemma op_took_not_held:
  assumes "op_took ttl op s k" and "\<And>b. op_writes op = Some b \<Longrightarrow> bytes_of b \<noteq> tok"
  shows "\<not> held_by (op_step ttl op s) k tok"
  using assms by (cases op)
    (auto simp: held_by_def ks_AttemptLockWithTTL_def ks_Complete_def ks_Steal_def ks_Release_def
      ks_Delete_def Let_def split: option.splits if_splits)

lemma ops_not_held:
  assumes "\<not> held_by s k tok" and "\<And>op b. op \<in> set ops \<Longrightarrow> op_writes op = Some b \<Longrightarrow> bytes_of b \<noteq> tok"
  shows "\<not> held_by (fold (op_step ttl) ops s) k tok"
  using assms
proof (induction ops arbitrary: s)
  case (Cons op ops)
  have "\<not> held_by (op_step ttl op s) k tok"
    by (rule op_step_not_held [OF Cons.prems(1)]) (rule Cons.prems(2), auto)
  moreover have "\<And>op b. op \<in> set ops \<Longrightarrow> op_writes op = Some b \<Longrightarrow> bytes_of b \<noteq> tok"
    by (rule Cons.prems(2)) auto
  ultimately show ?case using Cons.IH by simp
qed simp

lemma not_held_stolen:
  assumes "\<not> held_by s k (bytes_of token)" and "k \<noteq> ''''" and "bytes_len token \<noteq> 0"
  shows "ks_Complete ttl k val token n1 n2 s = (Some ErrLockStolen, s)"
    and "ks_Release k token n s = (Some ErrLockStolen, s)"
  using assms by (auto simp: ks_Complete_def ks_Release_def held_by_def bytes_Equal_def bytes_len_def bytes_of_def
      split: option.splits)

subsection \<open>The Keeper on the in-memory storage\<close>

definition keeper_on_memory ::
  "duration \<Rightarrow> ('x \<Rightarrow> gotime \<times> 'x) \<Rightarrow> ('x \<Rightarrow> string \<times> 'x) \<Rightarrow> ('c, 'd, idem_store \<times> 'x) Keeper \<Rightarrow> bool" where
  "keeper_on_memory ttl now uuid kp \<longleftrightarrow>
     kp_storage kp = idem_memory ttl now
     \<and> (\<forall>s x. kp_now kp (s, x) = (fst (now x), s, snd (now x)))
     \<and> (\<forall>s x. kp_uuid kp (s, x) = (fst (uuid x), s, snd (uuid x)))"

text \<open>Different records have different bytes.\<close>

definition serializer_inj :: "('c, 'd, 'w) Keeper \<Rightarrow> bool" where
  "serializer_inj kp \<longleftrightarrow>
     (\<forall>a b x y. kp_serialize kp a = Inr x \<and> kp_serialize kp b = Inr y \<and> bytes_of x = bytes_of y \<longrightarrow> a = b)"

text \<open>
  C21: a lock that was lost cannot be completed or released. A caller holds the token it got for
  its record \<open>wire\<close>. Once any later call takes effect on the key (another attempt wins after the
  time to live, a takeover, a completion, also the caller's own, a release or a delete) then,
  whatever storage calls follow, with records of other nonces, the caller's Complete and Release
  fail and leave the storage as it is. So of all calls with one token at most one succeeds.
\<close>

theorem lost_lock_cannot_complete:
  assumes "keeper_on_memory ttl now uuid kp" and "serializer_inj kp"
    and "kp_serialize kp wire = Inr (st_lockToken st)" and "bytes_len (st_lockToken st) \<noteq> 0"
    and "op_took ttl op s (effectiveKey kp c key)"
    and "\<forall>o' \<in> set (op # ops). \<forall>b. op_writes o' = Some b \<longrightarrow>
           (\<exists>wire'. kp_serialize kp wire' = Inr b \<and> ws_Nonce wire' \<noteq> ws_Nonce wire)"
    and "s' = fold (op_step ttl) (op # ops) s"
  shows "\<exists>e e'. fst (keeper_Complete kp c key data (Some st) (s', x)) = Some e
     \<and> fst (snd (keeper_Complete kp c key data (Some st) (s', x))) = s'
     \<and> fst (keeper_Release kp c key (Some st) (s', x)) = Some e'
     \<and> fst (snd (keeper_Release kp c key (Some st) (s', x))) = s'"
proof -
  let ?tok = "bytes_of (st_lockToken st)" and ?k = "effectiveKey kp c key"
  have fresh: "bytes_of b \<noteq> ?tok" if "o' \<in> set (op # ops)" "op_writes o' = Some b" for o' b
    using assms(2,3,6) that unfolding serializer_inj_def by metis
  have "\<not> held_by (op_step ttl op s) ?k ?tok"
    by (rule op_took_not_held [OF assms(5)]) (rule fresh [of op], auto)
  then have "\<not> held_by s' ?k ?tok"
    unfolding assms(7) fold_simps by (rule ops_not_held) (rule fresh, auto)
  note stolen = not_held_stolen [OF this effectiveKey_not_empty assms(4)]
  have st: "kp_storage kp = idem_memory ttl now" using assms(1) by (simp add: keeper_on_memory_def)
  show ?thesis
    unfolding keeper_Complete_def keeper_Release_def st
    by (auto simp: LockToken_def idem_memory_def stolen assms(4) WrapOperation_def Wrap_def Let_def
        split: sum.splits prod.splits)
qed

text \<open>The record a completion writes for the state of the lock.\<close>

definition completed :: "'d option \<Rightarrow> 'd State \<Rightarrow> 'd serializedState" where
  "completed data st =
     \<lparr> ws_Status = StatusSuccess, ws_Data = data, ws_Nonce = '''', ws_LockedAt = 0,
       ws_Fingerprint = st_fingerprint st, ws_Owner = st_owner st \<rparr>"

lemma keeper_Complete_memory:
  assumes "keeper_on_memory ttl now uuid kp" and "keeper_Complete kp c key data (Some st) (s, x) = (None, s1, x1)"
  shows "\<exists>b e. kp_serialize kp (completed data st) = Inr b
    \<and> gm_get s1 (effectiveKey kp c key) = Some e \<and> e_value e = b
    \<and> e_expiresAt e = (if ttl > 0 then fst (now (snd (now x))) + ttl else 0)"
  using assms
  by (auto simp: keeper_Complete_def keeper_on_memory_def completed_def idem_memory_def ks_Complete_def Let_def
      LockToken_def State_Fingerprint_def State_Owner_def WrapOperation_def wrap_with_def
      split: if_splits sum.splits option.splits prod.splits)

lemma AttemptLock_denied:
  assumes "keeper_on_memory ttl now uuid kp" and "key \<noteq> ''''"
    and "kp_serialize kp (fst (newWire kp c opts (s, x))) = Inr val"
    and "gm_get s (effectiveKey kp c key) = Some e"
    and "e_expiresAt e = 0 \<or> fst (now (snd (now (snd (uuid x))))) \<le> e_expiresAt e"
  shows "\<exists>y wire. AttemptLockWithOpts kp others c key opts (s, x)
    = attempt_existing kp others c (effectiveKey kp c key) opts wire (e_value e) (s, y)
    \<and> wire = fst (newWire kp c opts (s, x))"
  using assms
  by (auto simp: AttemptLockWithOpts_def keeper_on_memory_def newWire_def idem_memory_def ks_AttemptLockWithTTL_def
      Let_def split: prod.splits)

text \<open>
  C22: a completed request is replayed. After a completion, every attempt on the same key of the
  same namespace, made before the record expires, is denied the lock and leaves the storage as it
  is: it gets the error of the owner or fingerprint check, or else the data of the completion,
  without a token that could complete again.
\<close>

theorem completed_request_replays:
  assumes "keeper_on_memory ttl now uuid kp"
    and "keeper_Complete kp c key data (Some st) (s, x) = (None, s1, x1)"
    and "gm_get s2 (effectiveKey kp c key) = gm_get s1 (effectiveKey kp c key)"
    and "namespace_of kp c' = namespace_of kp c"
    and "0 < ttl \<longrightarrow> fst (now (snd (now (snd (uuid x2))))) \<le> fst (now (snd (now x))) + ttl"
    and "kp_serialize kp (fst (newWire kp c' opts (s2, x2))) = Inr val"
    and "\<And>b. kp_serialize kp (completed data st) = Inr b \<Longrightarrow> kp_deserialize kp b = Inr (completed data st)"
  shows "\<exists>x3. AttemptLockWithOpts kp others c' key opts (s2, x2) =
    ((False, case checkReplay kp c' (completed data st) (ownerOf kp c') (al_Fingerprint opts) of
               Some e \<Rightarrow> (None, Some e)
             | None \<Rightarrow> (Some \<lparr> st_Status = StatusSuccess, st_Data = data, st_lockToken = None,
                               st_fingerprint = st_fingerprint st, st_owner = st_owner st \<rparr>, None)), s2, x3)"
proof -
  obtain b e where be: "kp_serialize kp (completed data st) = Inr b" "gm_get s1 (effectiveKey kp c key) = Some e"
    "e_value e = b" "e_expiresAt e = (if ttl > 0 then fst (now (snd (now x))) + ttl else 0)"
    using keeper_Complete_memory [OF assms(1,2)] by blast
  have ek: "effectiveKey kp c' key = effectiveKey kp c key" using assms(4) by (simp add: effectiveKey_eq_iff)
  have ne: "key \<noteq> ''''" using assms(2) by (auto simp: keeper_Complete_def)
  have get: "gm_get s2 (effectiveKey kp c' key) = Some e" using be(2) assms(3) ek by simp
  have "e_expiresAt e = 0 \<or> fst (now (snd (now (snd (uuid x2))))) \<le> e_expiresAt e" using be(4) assms(5) by simp
  from AttemptLock_denied [OF assms(1) ne assms(6) get this, of others]
  obtain y wire where run: "AttemptLockWithOpts kp others c' key opts (s2, x2)
      = attempt_existing kp others c' (effectiveKey kp c' key) opts wire b (s2, y)"
    using be(3) by blast
  show ?thesis
    unfolding run attempt_existing_def assms(7) [OF be(1)]
    by (auto simp: orphaned_def deniedState_def completed_def StatusSuccess_def StatusInProgress_def
        split: option.splits)
qed

text \<open>
  C23: an abandoned lock is taken over. If the record under a key is a lock older than the
  threshold, the caller may see it and take it over, and nobody else touches the record meanwhile,
  then the attempt succeeds, and the caller can complete the request with the state it got. The
  clock stays within the life of the records during the two calls.
\<close>

theorem abandoned_lock_is_taken_over:
  fixes kp :: "('c, 'd, idem_store \<times> 'x) Keeper"
  assumes "keeper_on_memory ttl now uuid kp" and "key \<noteq> ''''"
    and "gm_get s (effectiveKey kp c key) = Some e" and "kp_deserialize kp (e_value e) = Inr old"
    and "ws_Status old = StatusInProgress" and "ws_LockedAt old \<noteq> 0"
    and "0 < resolveMaxLockDuration kp opts" and "mayTakeOver kp old (ownerOf kp c)"
    and "checkReplay kp c old (ownerOf kp c) (al_Fingerprint opts) = None"
    and "\<And>y. ws_LockedAt old + resolveMaxLockDuration kp opts < fst (now y)"
    and "\<And>y. e_expiresAt e = 0 \<or> fst (now y) < e_expiresAt e"
    and "\<And>y z. 0 < ttl \<Longrightarrow> fst (now y) < fst (now z) + ttl"
    and "\<And>ws. \<exists>b. kp_serialize kp ws = Inr b \<and> bytes_len b \<noteq> 0"
    and "\<And>w. gm_get (fst (others w)) (effectiveKey kp c key) = gm_get (fst w) (effectiveKey kp c key)"
  shows "\<exists>st w w'. AttemptLockWithOpts kp others c key opts (s, x) = ((True, Some st, None), w)
    \<and> keeper_Complete kp c key data (Some st) w = (None, w')"
proof -
  let ?k = "effectiveKey kp c key"
  obtain val where val: "kp_serialize kp (fst (newWire kp c opts (s, x))) = Inr val" using assms(13) by blast
  obtain y wire where run: "AttemptLockWithOpts kp others c key opts (s, x)
      = attempt_existing kp others c ?k opts wire (e_value e) (s, y)"
    using AttemptLock_denied [OF assms(1,2) val assms(3), of others] assms(11) less_imp_le by blast
  obtain b where b: "kp_serialize kp (takeOver old wire) = Inr b" "bytes_len b \<noteq> 0" using assms(13) by blast
  obtain y1 where orph: "orphaned kp opts old (ownerOf kp c) (s, y) = (True, s, y1)"
    using assms(1,5-8) assms(10) [of y] by (auto simp: orphaned_def keeper_on_memory_def)
  obtain s2 y2 where oth: "others (s, y1) = (s2, y2)" by fastforce
  then have e2: "gm_get s2 ?k = Some e" using assms(14) [of "(s, y1)"] assms(3) by simp
  define e' where "e' = e\<lparr>e_value := b,
    e_expiresAt := (if ttl > 0 then fst (now (snd (now y2))) + ttl else e_expiresAt e)\<rparr>"
  have mem: "kp_storage kp = idem_memory ttl now" using assms(1) by (simp add: keeper_on_memory_def)
  have val': "e_value e' = b" by (simp add: e'_def)
  have live: "\<not> expired e (fst (now z))" "\<not> expired e' (fst (now z))" for z
    using assms(11) [of z] assms(12) [of z "snd (now y2)"] by (auto simp: expired_def e'_def)
  have "is_Steal (kp_storage kp) ?k (e_value e) b (s2, y2)
      = (Inr b, gm_put ?k e' s2, snd (now (snd (now y2))))"
    using e2 live(1) [of y2] by (auto simp: mem idem_memory_def ks_Steal_def bytes_Equal_def e'_def split: prod.splits)
  then have att: "AttemptLockWithOpts kp others c key opts (s, x)
      = ((True, Some (heldState b (ws_Fingerprint (takeOver old wire)) (ws_Owner (takeOver old wire))), None),
         gm_put ?k e' s2, snd (now (snd (now y2))))"
    unfolding run attempt_existing_def by (simp add: assms(4,9) orph b oth Let_def)
  define st where "st = (heldState b (ws_Fingerprint (takeOver old wire)) (ws_Owner (takeOver old wire)) :: 'd State)"
  obtain d where d: "kp_serialize kp (completed data st) = Inr d" using assms(13) by blast
  have "\<exists>w'. keeper_Complete kp c key data (Some st) (gm_put ?k e' s2, z) = (None, w')" for z
    using assms(2) b(2) d live(2) [of z] val'
    by (auto simp: keeper_Complete_def LockToken_def State_Fingerprint_def State_Owner_def mem idem_memory_def
        ks_Complete_def bytes_Equal_def completed_def st_def heldState_def split: prod.splits)
  then show ?thesis using att unfolding st_def by blast
qed

lemma ks_frame:
  assumes "j \<noteq> k"
  shows "gm_get (snd (ks_AttemptLockWithTTL ttl k val lockTtl n1 n2 s)) j = gm_get s j"
    and "gm_get (snd (ks_Complete ttl k val token n1 n2 s)) j = gm_get s j"
    and "gm_get (snd (ks_Steal ttl k expectedVal newVal n1 n2 s)) j = gm_get s j"
    and "gm_get (snd (ks_Release k token n s)) j = gm_get s j"
    and "gm_get (snd (ks_Delete k s)) j = gm_get s j"
  using assms
  by (auto simp: ks_AttemptLockWithTTL_def ks_Complete_def ks_Steal_def ks_Release_def ks_Delete_def Let_def
      split: option.splits)

lemma idem_memory_frame:
  assumes "j \<noteq> k"
  shows "gm_get (fst (snd (is_AttemptLockWithTTL (idem_memory ttl now) k val lockTtl w))) j = gm_get (fst w) j"
    and "gm_get (fst (snd (is_Complete (idem_memory ttl now) k val token w))) j = gm_get (fst w) j"
    and "gm_get (fst (snd (is_Steal (idem_memory ttl now) k expectedVal newVal w))) j = gm_get (fst w) j"
    and "gm_get (fst (snd (is_Release (idem_memory ttl now) k token w))) j = gm_get (fst w) j"
    and "gm_get (fst (snd (is_Delete (idem_memory ttl now) k w))) j = gm_get (fst w) j"
  by (cases w; use ks_frame [OF assms] in \<open>auto simp: idem_memory_def Let_def split: prod.splits\<close>; metis snd_conv)+

lemma AttemptLockWithOpts_frame:
  assumes mem: "keeper_on_memory ttl now uuid kp" and ne: "j \<noteq> effectiveKey kp c key"
    and oth: "\<And>w. gm_get (fst (others w)) j = gm_get (fst w) j"
  shows "gm_get (fst (snd (AttemptLockWithOpts kp others c key opts w))) j = gm_get (fst w) j"
proof -
  let ?k = "effectiveKey kp c key"
  have st: "kp_storage kp = idem_memory ttl now" using mem by (simp add: keeper_on_memory_def)
  have wire: "fst (snd (newWire kp c opts w)) = fst w" for w
    using mem by (cases w) (simp add: newWire_def keeper_on_memory_def)
  have orph: "fst (snd (orphaned kp opts old owner w)) = fst w" for old owner w
    using mem by (cases w) (simp add: orphaned_def keeper_on_memory_def)
  have existing: "gm_get (fst (snd (attempt_existing kp others c ?k opts wr b w))) j = gm_get (fst w) j" for wr b w
  proof -
    have "gm_get (fst w2) j = gm_get (fst w1) j"
      if "is_Steal (idem_memory ttl now) ?k b v (others w1) = (r, w2)" for v w1 r w2
      using idem_memory_frame(3) [OF ne, of ttl now b v "others w1"] oth [of w1] that by simp
    moreover have "fst w1 = fst w" if "orphaned kp opts old (ownerOf kp c) w = (r, w1)" for old r w1
      using orph [of old "ownerOf kp c" w] that by simp
    ultimately show ?thesis
      unfolding attempt_existing_def st Let_def
      by (fastforce split: sum.split option.split prod.split bool.split)
  qed
  obtain wr w1 where w1: "newWire kp c opts w = (wr, w1)" by (metis surj_pair)
  then have "fst w1 = fst w" using wire [of w] by simp
  moreover have "gm_get (fst w2) j = gm_get (fst w1) j"
    if "is_AttemptLockWithTTL (idem_memory ttl now) ?k v t w1 = (r, w2)" for v t r w2
    using idem_memory_frame(1) [OF ne, of ttl now v t w1] that by simp
  ultimately show ?thesis
    unfolding AttemptLockWithOpts_def st Let_def w1
    by (auto simp: existing split: sum.split prod.split bool.split)
qed

text \<open>
  C24: namespaces are isolated. Two calls use the same storage key only if both the namespace and
  the key are the same, whatever bytes they hold; and no call of the Keeper changes the record of
  another namespace or another key.
\<close>

theorem namespaces_are_isolated:
  assumes "keeper_on_memory ttl now uuid kp"
    and "namespace_of kp c \<noteq> namespace_of kp c' \<or> key \<noteq> key'" and "j = effectiveKey kp c' key'"
    and "\<And>w. gm_get (fst (others w)) j = gm_get (fst w) j"
  shows "effectiveKey kp c key \<noteq> j
    \<and> gm_get (fst (snd (AttemptLockWithOpts kp others c key opts w))) j = gm_get (fst w) j
    \<and> gm_get (fst (snd (keeper_Complete kp c key data st w))) j = gm_get (fst w) j
    \<and> gm_get (fst (snd (keeper_Release kp c key st w))) j = gm_get (fst w) j
    \<and> gm_get (fst (snd (keeper_Delete kp c key w))) j = gm_get (fst w) j"
proof -
  have ne: "j \<noteq> effectiveKey kp c key" using assms(2,3) by (auto simp: effectiveKey_eq_iff)
  have st: "kp_storage kp = idem_memory ttl now" using assms(1) by (simp add: keeper_on_memory_def)
  show ?thesis
    using AttemptLockWithOpts_frame [OF assms(1) ne assms(4)]
    by (simp add: keeper_Complete_def keeper_Release_def keeper_Delete_def st ne [symmetric] idem_memory_frame [OF ne]
        split: sum.split)
qed

subsection \<open>A Keeper to compute with\<close>

text \<open>The tenant is the context; a clock that counts up; records framed like the keys.\<close>

definition idemo_text :: "string option \<Rightarrow> string" where
  "idemo_text v = (case v of None \<Rightarrow> '''' | Some t \<Rightarrow> ''='' @ t)"

definition idemo_wire :: "string serializedState \<Rightarrow> string" where
  "idemo_wire ws =
     Compose [ws_Status ws, idemo_text (ws_Data ws), ws_Nonce ws, idemo_text (ws_Fingerprint ws), ws_Owner ws,
              (if ws_LockedAt ws < 0 then ''-'' else '''') , nat_digits (nat \<bar>ws_LockedAt ws\<bar>)]"

lemma idemo_wire_inj: "idemo_wire a = idemo_wire b \<Longrightarrow> a = b"
proof -
  assume "idemo_wire a = idemo_wire b"
  then have eq: "ws_Status a = ws_Status b" "idemo_text (ws_Data a) = idemo_text (ws_Data b)"
    "ws_Nonce a = ws_Nonce b" "idemo_text (ws_Fingerprint a) = idemo_text (ws_Fingerprint b)"
    "ws_Owner a = ws_Owner b" "ws_LockedAt a < 0 \<longleftrightarrow> ws_LockedAt b < 0"
    "nat_digits (nat \<bar>ws_LockedAt a\<bar>) = nat_digits (nat \<bar>ws_LockedAt b\<bar>)"
    unfolding idemo_wire_def Compose_inject by (auto split: if_splits)
  have "ws_LockedAt a = ws_LockedAt b" using nat_digits_inj [OF eq(7)] eq(6) by auto
  then show "a = b"
    using eq by (auto intro: serializedState.equality simp: idemo_text_def split: option.splits)
qed

definition idemo_keeper :: "(string, string, idem_store \<times> nat) Keeper" where
  "idemo_keeper =
     \<lparr> kp_storage = idem_memory 100 (\<lambda>n. (50, Suc n)), kp_serialize = (\<lambda>ws. Inr (Some (idemo_wire ws))),
       kp_deserialize = (\<lambda>b. if b = Some (idemo_wire (completed (Some ''42'') (heldState None None '''')))
                             then Inr (completed (Some ''42'') (heldState None None ''''))
                             else Inr \<lparr> ws_Status = StatusInProgress, ws_Data = None, ws_Nonce = ''u'', ws_LockedAt = 1,
                                        ws_Fingerprint = None, ws_Owner = '''' \<rparr>),
       kp_maxLockDuration = 10, kp_keyNamespace = Some (\<lambda>tenant. tenant), kp_owner = None,
       kp_replayAuthorizer = None, kp_now = (\<lambda>(s, n). (50, s, Suc n)), kp_uuid = (\<lambda>(s, n). (nat_digits n, s, Suc n)) \<rparr>"

lemma idemo_facts:
  "keeper_on_memory 100 (\<lambda>n. (50, Suc n)) (\<lambda>n. (nat_digits n, Suc n)) idemo_keeper" "serializer_inj idemo_keeper"
  "kp_serialize idemo_keeper ws = Inr (Some (idemo_wire ws))" "bytes_len (Some (idemo_wire ws)) \<noteq> 0"
  by (auto simp: keeper_on_memory_def serializer_inj_def idemo_keeper_def bytes_of_def bytes_len_def idemo_wire_inj)
    (simp add: idemo_wire_def Compose_def nat_digits_not_Nil)

definition idemo_key :: string where
  "idemo_key = effectiveKey idemo_keeper ''tenant'' ''order''"

definition idemo_store :: "gobytes \<Rightarrow> gotime \<Rightarrow> idem_store" where
  "idemo_store v t = [(idemo_key, \<lparr> e_key = idemo_key, e_value = v, e_expiresAt = t \<rparr>)]"

definition idemo_lock :: "string \<Rightarrow> string serializedState" where
  "idemo_lock nonce = \<lparr> ws_Status = StatusInProgress, ws_Data = None, ws_Nonce = nonce, ws_LockedAt = 1,
     ws_Fingerprint = None, ws_Owner = '''' \<rparr>"

lemma idemo_get: "gm_get (idemo_store v t) idemo_key = Some \<lparr> e_key = idemo_key, e_value = v, e_expiresAt = t \<rparr>"
  by (simp add: idemo_store_def gm_get_def)

lemma idemo_key_ne: "idemo_key \<noteq> ''''" "effectiveKey idemo_keeper ''tenant'' ''order'' = idemo_key"
  by (simp_all add: idemo_key_def)

theorem lost_lock_cannot_complete_witness:
  "\<exists>e. fst (keeper_Complete idemo_keeper ''tenant'' ''order'' (Some ''42'')
     (Some (heldState (Some (idemo_wire (idemo_lock ''a''))) None ''''))
     (op_step 100 (OpAttempt idemo_key (Some (idemo_wire (idemo_lock ''b''))) 0 50 50)
        (idemo_store (Some (idemo_wire (idemo_lock ''a''))) 40), 0)) = Some e"
proof -
  let ?st = "heldState (Some (idemo_wire (idemo_lock ''a''))) None '''' :: string State"
  let ?op = "OpAttempt idemo_key (Some (idemo_wire (idemo_lock ''b''))) 0 50 50"
  let ?s = "idemo_store (Some (idemo_wire (idemo_lock ''a''))) 40"
  have token: "kp_serialize idemo_keeper (idemo_lock ''a'') = Inr (st_lockToken ?st)" "bytes_len (st_lockToken ?st) \<noteq> 0"
    using idemo_facts(4) [of "idemo_lock ''a''"] by (simp_all add: idemo_facts(3) heldState_def)
  have took: "op_took 100 ?op ?s (effectiveKey idemo_keeper ''tenant'' ''order'')"
    by (simp add: idemo_key_ne idemo_get ks_AttemptLockWithTTL_def)
  have other: "\<forall>o' \<in> set (?op # []). \<forall>b. op_writes o' = Some b \<longrightarrow>
      (\<exists>wire'. kp_serialize idemo_keeper wire' = Inr b \<and> ws_Nonce wire' \<noteq> ws_Nonce (idemo_lock ''a''))"
    by (auto simp: idemo_facts(3) idemo_lock_def)
  show ?thesis
    using lost_lock_cannot_complete [OF idemo_facts(1,2) token took other refl, of "Some ''42''" 0] by auto
qed

theorem completed_request_replays_witness:
  "\<exists>s1 x1 x3. keeper_Complete idemo_keeper ''tenant'' ''order'' (Some ''42'') (Some (heldState (Some ''tok'') None ''''))
        (idemo_store (Some ''tok'') 0, 0) = (None, s1, x1)
     \<and> AttemptLock idemo_keeper id ''tenant'' ''order'' (s1, x1) =
        ((False, Some \<lparr> st_Status = StatusSuccess, st_Data = Some ''42'', st_lockToken = None, st_fingerprint = None,
                        st_owner = '''' \<rparr>, None), s1, x3)"
proof -
  let ?st = "heldState (Some ''tok'') None '''' :: string State"
  obtain s1 x1 where run: "keeper_Complete idemo_keeper ''tenant'' ''order'' (Some ''42'') (Some ?st)
      (idemo_store (Some ''tok'') 0, 0) = (None, s1, x1)"
    by (simp add: keeper_Complete_def idemo_key_ne LockToken_def heldState_def bytes_len_def bytes_of_def
        idemo_facts(3) idemo_keeper_def [THEN arg_cong [where f = kp_storage]] idem_memory_def ks_Complete_def
        idemo_get expired_def bytes_Equal_def)
  have chk: "checkReplay idemo_keeper ''tenant'' old o' None = None" for old o'
    by (simp add: checkReplay_def idemo_keeper_def bytes_len_def bytes_of_def)
  show ?thesis
    using completed_request_replays [OF idemo_facts(1) run refl refl, of x1
        "\<lparr> al_LockTTL = 0, al_MaxLockDuration = 0, al_Fingerprint = None \<rparr>" _ id] run
    by (auto simp: idemo_facts(3) AttemptLock_def chk idemo_keeper_def [THEN arg_cong [where f = kp_deserialize]] completed_def heldState_def)
qed

theorem abandoned_lock_is_taken_over_witness:
  "\<exists>st w w'. AttemptLock idemo_keeper id ''tenant'' ''order'' (idemo_store (Some ''x'') 60, 0) = ((True, Some st, None), w)
     \<and> keeper_Complete idemo_keeper ''tenant'' ''order'' (Some ''42'') (Some st) w = (None, w')"
proof -
  let ?opts = "\<lparr> al_LockTTL = 0, al_MaxLockDuration = 0, al_Fingerprint = None \<rparr>"
  have "''x'' \<noteq> idemo_wire ws" for ws
    by (simp add: idemo_wire_def Compose_def)
  then have "kp_deserialize idemo_keeper (Some ''x'') = Inr (idemo_lock ''u'')"
    by (simp add: idemo_keeper_def idemo_lock_def)
  moreover have "mayTakeOver idemo_keeper (idemo_lock ''u'') o'" "resolveMaxLockDuration idemo_keeper ?opts = 10"
    "checkReplay idemo_keeper ''tenant'' (idemo_lock ''u'') o' None = None" for o'
    by (simp_all add: mayTakeOver_def resolveMaxLockDuration_def checkReplay_def idemo_keeper_def bytes_len_def bytes_of_def)
  moreover have "ws_Status (idemo_lock ''u'') = StatusInProgress" "ws_LockedAt (idemo_lock ''u'') = 1"
    by (simp_all add: idemo_lock_def)
  ultimately show ?thesis
    using abandoned_lock_is_taken_over [OF idemo_facts(1), of "''order''" "idemo_store (Some ''x'') 60" "''tenant''" _
        "idemo_lock ''u''" ?opts id 0 "Some ''42''"] idemo_facts(4)
    by (auto simp: idemo_facts(3) AttemptLock_def idemo_key_ne idemo_get)
qed

theorem namespaces_are_isolated_witness:
  "effectiveKey idemo_keeper ''a'' ''b'' \<noteq> effectiveKey idemo_keeper ''ab'' ''''"
  using namespaces_are_isolated [OF idemo_facts(1), of "''a''" "''ab''" "''b''" "''''" _ id]
  by (simp add: namespace_of_def idemo_keeper_def)

end
