(* ===== verification/Depgraph.thy ===== *)
theory Depgraph
  imports Slices
begin

text \<open>
  The ordering of middlewares and interceptors by their declared dependencies:
  \<^verbatim>\<open>src/transport/internal/depgraph/depgraph.go\<close>.

  An item type comes with its methods: the name, and the two lists of dependencies, \<open>None\<close> when
  the item does not implement the interface. The graph has the four maps of the code. \<open>visit\<close> is
  the order in which a \<^verbatim>\<open>range\<close> over the nodes visits them, any permutation. \<open>zero\<close> is the zero
  value of the item type, which a read of a missing key returns. The logger is left out.
\<close>

subsection \<open>The graph\<close>

record 'a methods =
  nm_Name :: "'a \<Rightarrow> string"
  nm_RequiredDependencies :: "'a \<Rightarrow> string list option"
  nm_Dependencies :: "'a \<Rightarrow> string list option"

record 'a Graph =
  g_nodes :: "(string, 'a) gomap"
  g_edges :: "(string, string list) gomap"
  g_inDegree :: "(string, int) gomap"
  g_order :: "(string, int) gomap"

definition ErrEmptyName :: goerr where
  "ErrEmptyName = Sentinel ''ErrEmptyName'' ''depgraph: item has no name'' []"

definition ErrDuplicateName :: goerr where
  "ErrDuplicateName = Sentinel ''ErrDuplicateName'' ''depgraph: duplicate item name'' []"

definition ErrMissingDependency :: goerr where
  "ErrMissingDependency =
     Sentinel ''ErrMissingDependency'' ''depgraph: required dependency not registered'' []"

definition ErrCyclicDependency :: goerr where
  "ErrCyclicDependency = Sentinel ''ErrCyclicDependency'' ''depgraph: circular dependency'' []"

text \<open>Reading a key of a map with the zero value for a missing key.\<close>

definition int_at :: "(string, int) gomap \<Rightarrow> string \<Rightarrow> int" where
  "int_at m k = (case gm_get m k of Some n \<Rightarrow> n | None \<Rightarrow> 0)"

definition list_at :: "(string, string list) gomap \<Rightarrow> string \<Rightarrow> string list" where
  "list_at m k = (case gm_get m k of Some xs \<Rightarrow> xs | None \<Rightarrow> [])"

definition node_at :: "'a \<Rightarrow> 'a Graph \<Rightarrow> string \<Rightarrow> 'a" where
  "node_at zero g k = (case gm_get (g_nodes g) k of Some x \<Rightarrow> x | None \<Rightarrow> zero)"

definition dg_New :: "'a Graph" where
  "dg_New = \<lparr> g_nodes = [], g_edges = [], g_inDegree = [], g_order = [] \<rparr>"

definition HasNode :: "'a Graph \<Rightarrow> string \<Rightarrow> bool" where
  "HasNode g name \<longleftrightarrow> gm_get (g_nodes g) name \<noteq> None"

definition AddNode :: "string \<Rightarrow> 'a \<Rightarrow> 'a Graph \<Rightarrow> 'a Graph" where
  "AddNode name item g =
     (if \<not> HasNode g name
      then g\<lparr>g_order := gm_put name (int (length (g_nodes g))) (g_order g),
             g_nodes := gm_put name item (g_nodes g), g_inDegree := gm_put name 0 (g_inDegree g)\<rparr>
      else g)"

definition AddEdge :: "string \<Rightarrow> string \<Rightarrow> 'a Graph \<Rightarrow> 'a Graph" where
  "AddEdge dep dependent g =
     g\<lparr>g_edges := gm_put dep (list_at (g_edges g) dep @ [dependent]) (g_edges g),
       g_inDegree := gm_put dependent (int_at (g_inDegree g) dependent + 1) (g_inDegree g)\<rparr>"

fun dedupe_loop :: "'a methods \<Rightarrow> 'a list \<Rightarrow> string list \<Rightarrow> 'a list \<Rightarrow> 'a list" where
  "dedupe_loop m [] seen out = out"
| "dedupe_loop m (item # items) seen out =
     (let name = nm_Name m item
      in if name \<noteq> ''''
         then (if name \<in> set seen then dedupe_loop m items seen out
               else dedupe_loop m items (name # seen) (out @ [item]))
         else dedupe_loop m items seen (out @ [item]))"

definition Dedupe :: "'a methods \<Rightarrow> 'a list \<Rightarrow> 'a list" where
  "Dedupe m items = (if length items < 2 then items else dedupe_loop m items [] [])"

subsection \<open>Kahn's algorithm\<close>

text \<open>The loop over the dependents of a node: the degrees and the nodes that became free.\<close>

fun relax :: "string list \<Rightarrow> (string, int) gomap \<Rightarrow> string list \<Rightarrow> (string, int) gomap \<times> string list" where
  "relax [] inDegree newZero = (inDegree, newZero)"
| "relax (dep # dependents) inDegree newZero =
     (let inDegree' = gm_put dep (int_at inDegree dep - 1) inDegree
      in relax dependents inDegree' (AppendIf newZero (int_at inDegree' dep = 0) [dep]))"

definition positives :: "(string, int) gomap \<Rightarrow> nat" where
  "positives d = length (filter (\<lambda>(k, n). 0 < n) d)"

lemma positives_put_le: "n \<le> int_at d k \<Longrightarrow> positives (gm_put k n d) \<le> positives d"
  by (induction d) (auto simp: positives_def int_at_def gm_put_def gm_get_def split: if_splits)

lemma positives_put_zero: "0 < int_at d k \<Longrightarrow> Suc (positives (gm_put k 0 d)) = positives d"
  by (induction d) (auto simp: positives_def int_at_def gm_put_def gm_get_def split: if_splits)

lemma relax_measure:
  "relax ds d z = (d', z') \<Longrightarrow> length z' + positives d' \<le> length z + positives d"
proof (induction ds d z rule: relax.induct)
  case (2 dep ds d z)
  let ?d = "gm_put dep (int_at d dep - 1) d"
  have "length z' + positives d' \<le> length (AppendIf z (int_at ?d dep = 0) [dep]) + positives ?d"
    using 2 by (simp add: Let_def)
  moreover have "length (AppendIf z (int_at ?d dep = 0) [dep]) + positives ?d \<le> length z + positives d"
    using positives_put_le [of "int_at d dep - 1" d dep] positives_put_zero [of d dep]
    by (auto simp: AppendIf_def int_at_def)
  ultimately show ?case by simp
qed simp

definition by_order :: "'a Graph \<Rightarrow> string list \<Rightarrow> string list" where
  "by_order g names = sort_key (int_at (g_order g)) names"

function kahn ::
  "'a \<Rightarrow> 'a Graph \<Rightarrow> string list \<Rightarrow> 'a list \<Rightarrow> (string, int) gomap \<Rightarrow> 'a list \<times> (string, int) gomap" where
  "kahn zero g [] result inDegree = (result, inDegree)"
| "kahn zero g (name # queue) result inDegree =
     (let (inDegree', newZero) = relax (list_at (g_edges g) name) inDegree [];
          queue' = (if length newZero > 0 then by_order g (queue @ newZero) else queue)
      in kahn zero g queue' (result @ [node_at zero g name]) inDegree')"
  by pat_completeness auto

termination kahn
proof (relation "measure (\<lambda>(zero, g, queue, result, d). length queue + positives d)", goal_cases)
  case (2 zero g name queue result d rl d' z q)
  then have "length z + positives d' \<le> positives d" using relax_measure [of _ d "[]" d' z] by simp
  then show ?case using 2 by (simp add: by_order_def)
qed simp

definition join_blank :: "string list \<Rightarrow> string" where
  "join_blank xs = (case xs of [] \<Rightarrow> '''' | y # ys \<Rightarrow> y @ concat (map (\<lambda>s. '' '' @ s) ys))"

definition TopologicalSort ::
  "'a \<Rightarrow> ((string \<times> 'a) list \<Rightarrow> (string \<times> 'a) list) \<Rightarrow> 'a Graph \<Rightarrow> goerr + 'a list" where
  "TopologicalSort zero visit g =
     (if length (g_nodes g) = 0 then Inr []
      else let names = map fst (visit (g_nodes g));
               queue = fold (\<lambda>name q. AppendIf q (int_at (g_inDegree g) name = 0) [name]) names [];
               (result, inDegree) = kahn zero g (by_order g queue) [] (g_inDegree g)
           in if length result \<noteq> length (g_nodes g)
              then Inl (the (Wrapf (Some ErrCyclicDependency)
                          (''involving: ['' @ join_blank
                             (fold (\<lambda>name q. AppendIf q (int_at inDegree name > 0) [name]) names []) @ '']'')))
              else Inr result)"

subsection \<open>Building and ordering\<close>

fun add_nodes :: "'a methods \<Rightarrow> nat \<Rightarrow> 'a list \<Rightarrow> 'a Graph \<Rightarrow> goerr + 'a Graph" where
  "add_nodes m i [] g = Inr g"
| "add_nodes m i (item # items) g =
     (let name = nm_Name m item
      in if name = '''' then Inl (the (Wrapf (Some ErrEmptyName) (''item at index '' @ Itoa (int i))))
         else if HasNode g name
         then Inl (the (Wrapf (Some ErrDuplicateName) (quoted name @ '' is registered more than once'')))
         else add_nodes m (Suc i) items (AddNode name item g))"

fun add_required :: "string \<Rightarrow> string list \<Rightarrow> string list \<Rightarrow> 'a Graph \<Rightarrow> goerr + string list \<times> 'a Graph" where
  "add_required name [] added g = Inr (added, g)"
| "add_required name (dep # deps) added g =
     (if \<not> HasNode g dep
      then Inl (the (Wrapf (Some ErrMissingDependency)
                  (''item '' @ quoted name @ '' requires dependency '' @ quoted dep @ '' which is not registered'')))
      else add_required name deps (dep # added) (AddEdge dep name g))"

fun add_optional :: "string \<Rightarrow> string list \<Rightarrow> string list \<Rightarrow> 'a Graph \<Rightarrow> 'a Graph" where
  "add_optional name [] added g = g"
| "add_optional name (dep # deps) added g =
     (if dep \<in> set added then add_optional name deps added g
      else if HasNode g dep then add_optional name deps added (AddEdge dep name g)
      else add_optional name deps added g)"

fun add_edges :: "'a methods \<Rightarrow> 'a list \<Rightarrow> 'a Graph \<Rightarrow> goerr + 'a Graph" where
  "add_edges m [] g = Inr g"
| "add_edges m (item # items) g =
     (let name = nm_Name m item
      in case (case nm_RequiredDependencies m item of
                 Some deps \<Rightarrow> add_required name deps [] g | None \<Rightarrow> Inr ([], g)) of
           Inl e \<Rightarrow> Inl e
         | Inr (added, g1) \<Rightarrow>
             add_edges m items
               (case nm_Dependencies m item of Some deps \<Rightarrow> add_optional name deps added g1 | None \<Rightarrow> g1))"

definition dg_Build ::
  "'a methods \<Rightarrow> 'a \<Rightarrow> ((string \<times> 'a) list \<Rightarrow> (string \<times> 'a) list) \<Rightarrow> 'a list \<Rightarrow> goerr + 'a list" where
  "dg_Build m zero visit items =
     (if length items = 0 then Inr items
      else case add_nodes m 0 items dg_New of
        Inl e \<Rightarrow> Inl e
      | Inr g \<Rightarrow>
          (case add_edges m items g of
             Inl e \<Rightarrow> Inl e
           | Inr g1 \<Rightarrow>
               (case TopologicalSort zero visit g1 of
                  Inl e \<Rightarrow> Inl (the (Wrap (Some e) ''dependency ordering failed''))
                | Inr items' \<Rightarrow> Inr items')))"

subsection \<open>One round of the loop\<close>

lemma int_at_put: "int_at (gm_put k n d) j = (if j = k then n else int_at d j)"
  by (simp add: int_at_def)

lemma list_at_put: "list_at (gm_put k xs d) j = (if j = k then xs else list_at d j)"
  by (simp add: list_at_def)

text \<open>
  A round lowers the degree of each dependent by the number of its edges and collects those whose
  degree reaches zero on the way, each once.
\<close>

lemma relax_degree: "int_at (fst (relax ds d z)) v = int_at d v - int (count_list ds v)"
  by (induction ds d z rule: relax.induct) (auto simp: Let_def int_at_put)

lemma relax_zero:
  "v \<in> set (snd (relax ds d z)) \<longleftrightarrow> v \<in> set z \<or> (1 \<le> int_at d v \<and> int_at d v \<le> int (count_list ds v))"
  by (induction ds d z rule: relax.induct) (auto simp: Let_def int_at_put AppendIf_def)

lemma relax_distinct:
  "distinct z \<Longrightarrow> \<forall>v \<in> set z. int_at d v \<le> 0 \<Longrightarrow> distinct (snd (relax ds d z))"
proof (induction ds d z rule: relax.induct)
  case (2 dep ds d z)
  let ?d = "gm_put dep (int_at d dep - 1) d" and ?z = "AppendIf z (int_at (gm_put dep (int_at d dep - 1) d) dep = 0) [dep]"
  have "distinct ?z" "\<forall>v \<in> set ?z. int_at ?d v \<le> 0"
    using 2(2,3) by (auto simp: AppendIf_def int_at_put)
  then show ?case using 2(1) by (simp add: Let_def)
qed simp

subsection \<open>The loop invariant\<close>

abbreviation names_of :: "'a Graph \<Rightarrow> string set" where
  "names_of g \<equiv> fst ` set (g_nodes g)"

definition edge_count :: "'a Graph \<Rightarrow> string set \<Rightarrow> string \<Rightarrow> int" where
  "edge_count g us v = (\<Sum>u \<in> us. int (count_list (list_at (g_edges g) u) v))"

definition dg_edges :: "'a Graph \<Rightarrow> (string \<times> string) set" where
  "dg_edges g = {(u, v). v \<in> set (list_at (g_edges g) u)}"

text \<open>A graph built by adding nodes and then edges between them.\<close>

definition dg_ok :: "'a Graph \<Rightarrow> bool" where
  "dg_ok g \<longleftrightarrow> gm_wf (g_nodes g) \<and> dg_edges g \<subseteq> names_of g \<times> names_of g
     \<and> (\<forall>v \<in> names_of g. int_at (g_inDegree g) v = edge_count g (names_of g) v)
     \<and> inj_on (int_at (g_order g)) (names_of g)"

text \<open>
  \<open>placed\<close> are the names of the nodes already in the result. The degree of a node counts its edges from nodes not yet
  placed; the nodes of degree zero are the placed and the queued ones; and what a placed node
  depends on was placed before it.
\<close>

definition kahn_inv :: "'a Graph \<Rightarrow> string list \<Rightarrow> string list \<Rightarrow> (string, int) gomap \<Rightarrow> bool" where
  "kahn_inv g placed queue d \<longleftrightarrow>
     distinct (placed @ queue) \<and> set (placed @ queue) \<subseteq> names_of g
     \<and> (\<forall>v \<in> names_of g. int_at d v = edge_count g (names_of g - set placed) v)
     \<and> (\<forall>v \<in> names_of g. v \<in> set (placed @ queue) \<longleftrightarrow> int_at d v = 0)
     \<and> (\<forall>i < length placed. \<forall>u. (u, placed ! i) \<in> dg_edges g \<longrightarrow> u \<in> set (take i placed))"

lemma kahn_invD:
  assumes "kahn_inv g placed queue d"
  shows "distinct (placed @ queue)" and "set (placed @ queue) \<subseteq> names_of g"
    and "v \<in> names_of g \<Longrightarrow> int_at d v = edge_count g (names_of g - set placed) v"
    and "v \<in> names_of g \<Longrightarrow> v \<in> set (placed @ queue) \<longleftrightarrow> int_at d v = 0"
    and "i < length placed \<Longrightarrow> (u, placed ! i) \<in> dg_edges g \<Longrightarrow> u \<in> set (take i placed)"
  using assms unfolding kahn_inv_def by blast+

lemma edge_count_nonneg: "0 \<le> edge_count g us v"
  by (simp add: edge_count_def sum_nonneg)

lemma edge_count_zero: "finite us \<Longrightarrow> edge_count g us v = 0 \<longleftrightarrow> (\<forall>u \<in> us. (u, v) \<notin> dg_edges g)"
  by (simp add: edge_count_def dg_edges_def sum_nonneg_eq_0_iff count_list_0_iff)

lemma edge_count_remove:
  "finite us \<Longrightarrow> u \<in> us \<Longrightarrow> edge_count g (us - {u}) v = edge_count g us v - int (count_list (list_at (g_edges g) u) v)"
  by (simp add: edge_count_def sum_diff1)

lemma kahn_inv_step:
  assumes ok: "dg_ok g" and inv: "kahn_inv g placed (name # queue) d"
    and rl: "relax (list_at (g_edges g) name) d [] = (d', z)" and q: "mset queue' = mset (queue @ z)"
  shows "kahn_inv g (placed @ [name]) queue' d'"
proof -
  let ?N = "names_of g" and ?E = "list_at (g_edges g) name"
  note I = kahn_invD [OF inv]
  have name: "name \<in> ?N" "name \<notin> set placed" using I(1,2) by auto
  have deg: "int_at d' v = int_at d v - int (count_list ?E v)" for v
    using relax_degree [of ?E d "[]" v] rl by simp
  have zmem: "v \<in> set z \<longleftrightarrow> 1 \<le> int_at d v \<and> int_at d' v \<le> 0" for v
    using relax_zero [of v ?E d "[]"] rl deg [of v] by simp
  have degN: "int_at d' v = edge_count g (?N - set (placed @ [name])) v" if "v \<in> ?N" for v
  proof -
    have "?N - set (placed @ [name]) = (?N - set placed) - {name}" by auto
    then show ?thesis
      using edge_count_remove [of "?N - set placed" name g v] name deg [of v] I(3) [OF that] by simp
  qed
  have ge: "0 \<le> int_at d' v" if "v \<in> ?N" for v using degN [OF that] edge_count_nonneg by simp
  have "distinct z" using relax_distinct [of "[]" d ?E] rl by simp
  moreover have zN: "set z \<subseteq> ?N"
  proof
    fix v assume "v \<in> set z"
    then have "count_list ?E v \<noteq> 0" using zmem [of v] deg [of v] by auto
    then show "v \<in> ?N" using ok by (auto simp: dg_ok_def dg_edges_def count_list_0_iff)
  qed
  moreover have "v \<notin> set (placed @ name # queue)" if "v \<in> set z" for v
    using zmem [of v] I(4) [of v] zN that by auto
  ultimately have "distinct ((placed @ [name]) @ queue @ z)" using I(1) by auto
  then have dist: "distinct ((placed @ [name]) @ queue')"
    using mset_eq_imp_distinct_iff [of "(placed @ [name]) @ queue @ z" "(placed @ [name]) @ queue'"] q by simp
  have setq: "set queue' = set queue \<union> set z" using q by (metis set_append set_mset_mset)
  have zero: "v \<in> set ((placed @ [name]) @ queue') \<longleftrightarrow> int_at d' v = 0" if "v \<in> ?N" for v
  proof -
    have "0 \<le> int_at d v" using I(3) [OF that] edge_count_nonneg by simp
    then have "int_at d v = 0 \<or> v \<in> set z \<longleftrightarrow> int_at d' v = 0"
      unfolding zmem using ge [OF that] deg [of v] by linarith
    then show ?thesis using setq I(4) [OF that] by auto
  qed
  have "u \<in> set placed" if "(u, name) \<in> dg_edges g" for u
  proof -
    have "u \<in> ?N" using ok that by (auto simp: dg_ok_def)
    moreover have "edge_count g (?N - set placed) name = 0" using I(3,4) [OF name(1)] by simp
    ultimately show ?thesis using that by (auto simp: edge_count_zero)
  qed
  then have "\<forall>i < length (placed @ [name]). \<forall>u. (u, (placed @ [name]) ! i) \<in> dg_edges g
      \<longrightarrow> u \<in> set (take i (placed @ [name]))"
    using I(5) by (auto simp: nth_append less_Suc_eq)
  moreover have "set ((placed @ [name]) @ queue') \<subseteq> ?N" using I(2) setq zN by auto
  ultimately show ?thesis using dist degN zero unfolding kahn_inv_def by blast
qed

lemma kahn_runs:
  assumes "dg_ok g" and "kahn_inv g placed queue d"
  shows "\<exists>placed' d'. kahn zero g queue (map (node_at zero g) placed) d = (map (node_at zero g) placed', d')
    \<and> kahn_inv g placed' [] d'"
  using assms
proof (induction zero g queue "map (node_at zero g) placed" d arbitrary: placed rule: kahn.induct)
  case (1 zero g d)
  then show ?case by auto
next
  case (2 zero g name queue d)
  obtain d1 z where rl: "relax (list_at (g_edges g) name) d [] = (d1, z)" by fastforce
  let ?q = "if length z > 0 then by_order g (queue @ z) else queue"
  have "kahn_inv g (placed @ [name]) ?q d1"
    by (rule kahn_inv_step [OF 2(2,3) rl]) (simp add: by_order_def)
  from 2(1) [OF rl [symmetric] refl refl _ 2(2) this] show ?case by (simp add: rl)
qed

subsection \<open>When the loop ends\<close>

lemma finite_dg_edges: "dg_ok g \<Longrightarrow> finite (dg_edges g)"
  by (rule finite_subset [of _ "names_of g \<times> names_of g"]) (auto simp: dg_ok_def)

text \<open>The nodes left over all have a predecessor among them, so there is a cycle.\<close>

lemma kahn_leftover_cycle:
  assumes "dg_ok g" and "kahn_inv g placed [] d" and "set placed \<noteq> names_of g"
  shows "\<not> acyclic (dg_edges g)"
proof
  assume "acyclic (dg_edges g)"
  then have "wf (dg_edges g)" using finite_acyclic_wf finite_dg_edges assms(1) by blast
  moreover obtain x where "x \<in> names_of g - set placed" using assms(2,3) kahn_invD(2) by fastforce
  ultimately obtain v where v: "v \<in> names_of g - set placed"
    and min: "\<And>u. (u, v) \<in> dg_edges g \<Longrightarrow> u \<notin> names_of g - set placed"
    using wfE_min by metis
  have "edge_count g (names_of g - set placed) v = 0"
    using min by (subst edge_count_zero) auto
  then show False using v kahn_invD(3,4) [OF assms(2), of v] by simp
qed

lemma placed_all_acyclic:
  assumes "dg_ok g" and "kahn_inv g placed [] d" and "set placed = names_of g"
  shows "acyclic (dg_edges g)"
proof -
  note I = kahn_invD [OF assms(2)]
  let ?ix = "\<lambda>v. length (takeWhile (\<lambda>x. x \<noteq> v) placed)"
  have ix: "?ix (placed ! i) = i" if "i < length placed" for i
    using I(1) that takeWhile_eq_take_P_nth [of i placed "\<lambda>x. x \<noteq> placed ! i"]
    by (auto simp: nth_eq_iff_index_eq)
  have "dg_edges g \<subseteq> measure ?ix"
  proof safe
    fix u v assume e: "(u, v) \<in> dg_edges g"
    then have "v \<in> set placed" using assms(1,3) by (auto simp: dg_ok_def)
    then obtain i where i: "i < length placed" "v = placed ! i" by (auto simp: in_set_conv_nth)
    then obtain j where "j < i" "u = placed ! j" using I(5) [OF i(1), of u] e by (auto simp: in_set_conv_nth)
    then show "(u, v) \<in> measure ?ix" using i ix by simp
  qed
  then show ?thesis by (meson wf_acyclic wf_measure wf_subset)
qed

lemma free_queue: "fold (\<lambda>name q. AppendIf q (P name) [name]) names q0 = q0 @ filter P names"
  by (induction names arbitrary: q0) (auto simp: AppendIf_def)

lemma kahn_start:
  assumes "dg_ok g" and "mset names = mset (map fst (g_nodes g))"
  shows "kahn_inv g [] (by_order g (filter (\<lambda>n. int_at (g_inDegree g) n = 0) names)) (g_inDegree g)"
proof -
  have s: "set names = names_of g" using mset_eq_setD [OF assms(2)] by simp
  have "distinct names" using mset_eq_imp_distinct_iff [OF assms(2)] assms(1) by (simp add: dg_ok_def)
  moreover have "\<forall>v \<in> names_of g. int_at (g_inDegree g) v = edge_count g (names_of g) v"
    using assms(1) unfolding dg_ok_def by blast
  ultimately show ?thesis by (auto simp: kahn_inv_def by_order_def s)
qed

text \<open>The sort succeeds exactly on acyclic graphs, and its result does not depend on \<open>visit\<close>.\<close>

lemma TopologicalSort_spec:
  fixes g :: "'a Graph"
  assumes ok: "dg_ok g" and vis: "\<And>xs :: (string \<times> 'a) list. mset (visit xs) = mset xs"
    and vis': "\<And>xs :: (string \<times> 'a) list. mset (visit' xs) = mset xs"
  shows "if acyclic (dg_edges g)
    then \<exists>placed. TopologicalSort zero visit g = Inr (map (node_at zero g) placed)
           \<and> TopologicalSort zero visit' g = Inr (map (node_at zero g) placed)
           \<and> distinct placed \<and> set placed = names_of g
           \<and> (\<forall>i < length placed. \<forall>u. (u, placed ! i) \<in> dg_edges g \<longrightarrow> u \<in> set (take i placed))
    else \<exists>e. TopologicalSort zero visit g = Inl e \<and> err_is e ''ErrCyclicDependency''"
proof -
  let ?q = "\<lambda>vs. by_order g (filter (\<lambda>n. int_at (g_inDegree g) n = 0) (map fst (vs (g_nodes g))))"
  have ms: "mset (map fst (visit (g_nodes g))) = mset (map fst (g_nodes g))"
      "mset (map fst (visit' (g_nodes g))) = mset (map fst (g_nodes g))"
    using vis [of "g_nodes g"] vis' [of "g_nodes g"] by simp_all
  have same: "?q visit' = ?q visit"
    unfolding by_order_def
  proof (rule sort_key_unique)
    show "mset (filter (\<lambda>n. int_at (g_inDegree g) n = 0) (map fst (visit' (g_nodes g))))
        = mset (filter (\<lambda>n. int_at (g_inDegree g) n = 0) (map fst (visit (g_nodes g))))"
      using ms by (simp only: mset_filter)
    have "set (map fst (visit' (g_nodes g))) = names_of g" using ms(2) by (metis mset_eq_setD set_map)
    then show "inj_on (int_at (g_order g)) (set (filter (\<lambda>n. int_at (g_inDegree g) n = 0) (map fst (visit' (g_nodes g)))))"
      using ok by (auto simp: dg_ok_def intro: inj_on_subset)
  qed
  obtain placed d where run: "kahn zero g (?q visit) [] (g_inDegree g) = (map (node_at zero g) placed, d)"
    and inv: "kahn_inv g placed [] d"
    using kahn_runs [OF ok kahn_start [OF ok ms(1)], of zero] by auto
  note I = kahn_invD [OF inv]
  have card: "card (names_of g) = length (g_nodes g)" "card (set placed) = length placed"
    using ok I(1) by (auto simp: dg_ok_def distinct_card card_image distinct_map)
  have all: "length placed = length (g_nodes g) \<longleftrightarrow> set placed = names_of g"
    using card I(2) card_subset_eq [of "names_of g" "set placed"] by auto
  have res: "TopologicalSort zero vs g = (if length placed \<noteq> length (g_nodes g)
        then Inl (the (Wrapf (Some ErrCyclicDependency) (''involving: ['' @ join_blank
               (filter (\<lambda>n. int_at d n > 0) (map fst (vs (g_nodes g)))) @ '']'')))
        else Inr (map (node_at zero g) placed))" if "?q vs = ?q visit" for vs
    using run that unfolding TopologicalSort_def free_queue append_Nil
    by (cases "g_nodes g = []") (use I(2) in \<open>auto simp: Let_def\<close>)
  show ?thesis
    using res [of visit, OF refl] res [of visit', OF same] I(1,5) all placed_all_acyclic [OF ok inv] kahn_leftover_cycle [OF ok inv]
    by (auto simp: Wrapf_def wrap_with_def ErrCyclicDependency_def)
qed

subsection \<open>What the two passes of Build make\<close>

lemma gm_put_absent: "k \<notin> fst ` set m \<Longrightarrow> gm_put k v m = m @ [(k, v)]"
  by (induction m) (auto simp: gm_put_def)

definition nodes_graph :: "'a methods \<Rightarrow> 'a list \<Rightarrow> 'a Graph" where
  "nodes_graph m xs =
     \<lparr> g_nodes = map (\<lambda>x. (nm_Name m x, x)) xs, g_edges = [], g_inDegree = map (\<lambda>x. (nm_Name m x, 0)) xs,
       g_order = map (\<lambda>(i, x). (nm_Name m x, int i)) (enumerate 0 xs) \<rparr>"

lemma nodes_graph_facts:
  "names_of (nodes_graph m xs) = nm_Name m ` set xs" "HasNode (nodes_graph m xs) n \<longleftrightarrow> n \<in> nm_Name m ` set xs"
  "dg_edges (nodes_graph m xs) = {}" "map fst (g_order (nodes_graph m xs)) = map (nm_Name m) xs"
proof -
  show names: "names_of (nodes_graph m xs) = nm_Name m ` set xs" by (force simp: nodes_graph_def)
  show "HasNode (nodes_graph m xs) n \<longleftrightarrow> n \<in> nm_Name m ` set xs"
    using names gm_get_None_iff [of "g_nodes (nodes_graph m xs)" n] by (auto simp: HasNode_def)
  show "dg_edges (nodes_graph m xs) = {}" by (simp add: nodes_graph_def dg_edges_def list_at_def)
  show "map fst (g_order (nodes_graph m xs)) = map (nm_Name m) xs"
    by (intro nth_equalityI) (auto simp: nodes_graph_def nth_enumerate_eq)
qed

lemma AddNode_nodes_graph:
  assumes "nm_Name m x \<notin> nm_Name m ` set xs"
  shows "AddNode (nm_Name m x) x (nodes_graph m xs) = nodes_graph m (xs @ [x])"
proof -
  have "nm_Name m x \<notin> fst ` set (g_order (nodes_graph m xs))"
    using assms nodes_graph_facts(4) [of m xs] by (metis list.set_map)
  moreover have "nm_Name m x \<notin> fst ` set (g_inDegree (nodes_graph m xs))"
    "nm_Name m x \<notin> names_of (nodes_graph m xs)"
    using assms by (auto simp: nodes_graph_def)
  ultimately show ?thesis
    using assms nodes_graph_facts(2) [of m xs] unfolding AddNode_def
    by (simp add: gm_put_absent) (simp add: nodes_graph_def enumerate_append_eq)
qed

lemma add_nodes_spec:
  assumes "distinct (map (nm_Name m) xs)"
  shows "if '''' \<notin> nm_Name m ` set items \<and> distinct (map (nm_Name m) (xs @ items))
    then add_nodes m i items (nodes_graph m xs) = Inr (nodes_graph m (xs @ items))
    else \<exists>e. add_nodes m i items (nodes_graph m xs) = Inl e \<and> (err_is e ''ErrEmptyName'' \<or> err_is e ''ErrDuplicateName'')"
  using assms
proof (induction items arbitrary: xs i)
  case (Cons x items)
  consider "nm_Name m x = ''''" | "nm_Name m x \<noteq> ''''" "nm_Name m x \<in> nm_Name m ` set xs"
    | "nm_Name m x \<noteq> ''''" "nm_Name m x \<notin> nm_Name m ` set xs" by blast
  then show ?case
  proof cases
    case 3
    then have "distinct (map (nm_Name m) (xs @ [x]))" using Cons.prems by auto
    from Cons.IH [OF this, of "Suc i"] 3 show ?thesis
      by (auto simp: nodes_graph_facts(2) AddNode_nodes_graph Let_def split: if_splits)
  qed (auto simp: nodes_graph_facts(2) Wrapf_def wrap_with_def ErrEmptyName_def ErrDuplicateName_def Let_def)
qed auto

lemma nodes_graph_ok:
  assumes "distinct (map (nm_Name m) xs)"
  shows "dg_ok (nodes_graph m xs)"
proof -
  let ?g = "nodes_graph m xs"
  have ord: "int_at (g_order ?g) (nm_Name m (xs ! i)) = int i" if "i < length xs" for i
  proof -
    have "(nm_Name m (xs ! i), int i) \<in> set (g_order ?g)"
      using that by (force simp: nodes_graph_def in_set_enumerate_eq)
    then have "gm_get (g_order ?g) (nm_Name m (xs ! i)) = Some (int i)"
      using assms by (subst gm_get_iff) (simp_all add: nodes_graph_facts(4))
    then show ?thesis by (simp add: int_at_def)
  qed
  have "inj_on (int_at (g_order ?g)) (names_of ?g)"
    unfolding nodes_graph_facts(1) by (rule inj_onI) (auto simp: in_set_conv_nth ord)
  moreover have "int_at (g_inDegree ?g) v = 0" for v
    by (auto simp: int_at_def nodes_graph_def gm_get_def dest: map_of_SomeD split: option.split)
  moreover have "edge_count ?g us v = 0" for us v
    by (simp add: edge_count_def nodes_graph_def list_at_def)
  moreover have "gm_wf (g_nodes ?g)" using assms by (simp add: nodes_graph_def comp_def)
  ultimately show ?thesis by (simp add: dg_ok_def nodes_graph_facts(3))
qed

lemma AddEdge_ok:
  assumes "dg_ok g" and "dep \<in> names_of g" and "name \<in> names_of g"
  shows "dg_ok (AddEdge dep name g)" and "g_nodes (AddEdge dep name g) = g_nodes g"
    and "dg_edges (AddEdge dep name g) = insert (dep, name) (dg_edges g)"
proof -
  let ?g = "AddEdge dep name g"
  show nodes: "g_nodes ?g = g_nodes g" by (simp add: AddEdge_def)
  show edges: "dg_edges ?g = insert (dep, name) (dg_edges g)"
    by (auto simp: dg_edges_def AddEdge_def list_at_put split: if_splits)
  have "edge_count ?g (names_of g) v
      = (\<Sum>u \<in> names_of g. int (count_list (list_at (g_edges g) u) v) + (if u = dep then (if v = name then 1 else 0) else 0))" for v
    unfolding edge_count_def by (rule sum.cong) (auto simp: AddEdge_def list_at_put)
  then have "edge_count ?g (names_of g) v = edge_count g (names_of g) v + (if v = name then 1 else 0)" for v
    using assms(2) by (simp add: sum.distrib edge_count_def)
  moreover have "int_at (g_inDegree ?g) v = int_at (g_inDegree g) v + (if v = name then 1 else 0)" for v
    by (simp add: AddEdge_def int_at_put)
  moreover have "g_order ?g = g_order g" by (simp add: AddEdge_def)
  ultimately show "dg_ok ?g" using assms unfolding dg_ok_def nodes edges by auto
qed

text \<open>The dependencies an item declares, and the edges they stand for.\<close>

definition required_of :: "'a methods \<Rightarrow> 'a \<Rightarrow> string list" where
  "required_of m x = (case nm_RequiredDependencies m x of None \<Rightarrow> [] | Some ds \<Rightarrow> ds)"

definition optional_of :: "'a methods \<Rightarrow> 'a \<Rightarrow> string list" where
  "optional_of m x = (case nm_Dependencies m x of None \<Rightarrow> [] | Some ds \<Rightarrow> ds)"

definition depends_on :: "'a methods \<Rightarrow> string set \<Rightarrow> 'a list \<Rightarrow> (string \<times> string) set" where
  "depends_on m ns xs =
     {(d, n). d \<in> ns \<and> (\<exists>x \<in> set xs. n = nm_Name m x \<and> d \<in> set (required_of m x) \<union> set (optional_of m x))}"

lemma HasNode_names: "HasNode g n \<longleftrightarrow> n \<in> names_of g"
  using gm_get_None_iff [of "g_nodes g" n] by (auto simp: HasNode_def)

lemma add_required_spec:
  assumes "dg_ok g" and "name \<in> names_of g"
  shows "if set deps \<subseteq> names_of g
    then \<exists>added' g'. add_required name deps added g = Inr (added', g') \<and> set added' = set added \<union> set deps \<and> dg_ok g'
           \<and> g_nodes g' = g_nodes g \<and> dg_edges g' = dg_edges g \<union> set deps \<times> {name}
    else \<exists>e. add_required name deps added g = Inl e \<and> err_is e ''ErrMissingDependency''"
  using assms
proof (induction deps arbitrary: added g)
  case (Cons d ds)
  show ?case
  proof (cases "d \<in> names_of g")
    case True
    note E = AddEdge_ok [OF Cons.prems(1) True Cons.prems(2)]
    have "name \<in> names_of (AddEdge d name g)" using Cons.prems(2) E(2) by simp
    from Cons.IH [OF E(1) this, of "d # added"] show ?thesis
      using True by (auto simp: HasNode_names E(2,3) split: if_splits)
  qed (simp add: HasNode_names Wrapf_def wrap_with_def ErrMissingDependency_def)
qed auto

lemma add_optional_spec:
  assumes "dg_ok g" and "name \<in> names_of g"
  shows "dg_ok (add_optional name deps added g) \<and> g_nodes (add_optional name deps added g) = g_nodes g
    \<and> dg_edges (add_optional name deps added g) = dg_edges g \<union> (set deps \<inter> names_of g - set added) \<times> {name}"
  using assms
proof (induction deps arbitrary: g)
  case (Cons d ds)
  show ?case
  proof (cases "d \<in> names_of g \<and> d \<notin> set added")
    case True
    note E = AddEdge_ok [OF Cons.prems(1) _ Cons.prems(2), of d]
    have "name \<in> names_of (AddEdge d name g)" using Cons.prems(2) E(2) True by simp
    from Cons.IH [OF E(1) this] show ?thesis using True E(2,3) by (auto simp: HasNode_names)
  next
    case False
    then have "add_optional name (d # ds) added g = add_optional name ds added g" by (auto simp: HasNode_names)
    then show ?thesis using Cons.IH [OF Cons.prems] False by auto
  qed
qed simp

lemma add_edges_spec:
  assumes "dg_ok g" and "nm_Name m ` set items \<subseteq> names_of g"
  shows "if \<forall>x \<in> set items. set (required_of m x) \<subseteq> names_of g
    then \<exists>g'. add_edges m items g = Inr g' \<and> dg_ok g' \<and> g_nodes g' = g_nodes g
           \<and> dg_edges g' = dg_edges g \<union> depends_on m (names_of g) items
    else \<exists>e. add_edges m items g = Inl e \<and> err_is e ''ErrMissingDependency''"
  using assms
proof (induction items arbitrary: g)
  case Nil
  then show ?case by (simp add: depends_on_def)
next
  case (Cons x items)
  let ?n = "nm_Name m x"
  have n: "?n \<in> names_of g" using Cons.prems(2) by simp
  define r where "r = (case nm_RequiredDependencies m x of Some ds \<Rightarrow> add_required ?n ds [] g | None \<Rightarrow> Inr ([], g))"
  have r_eq: "r = add_required ?n (required_of m x) [] g"
    by (simp add: r_def required_of_def split: option.split)
  have req: "if set (required_of m x) \<subseteq> names_of g
    then \<exists>added g1. r = Inr (added, g1) \<and> set added = set (required_of m x) \<and> dg_ok g1
           \<and> g_nodes g1 = g_nodes g \<and> dg_edges g1 = dg_edges g \<union> set (required_of m x) \<times> {?n}
    else \<exists>e. r = Inl e \<and> err_is e ''ErrMissingDependency''"
    using add_required_spec [OF Cons.prems(1) n, of "required_of m x" "[]"] unfolding r_eq list.set(1) Un_empty_left .
  show ?case
  proof (cases "set (required_of m x) \<subseteq> names_of g")
    case True
    then obtain added g1 where g1: "r = Inr (added, g1)" "set added = set (required_of m x)" "dg_ok g1"
      "g_nodes g1 = g_nodes g" "dg_edges g1 = dg_edges g \<union> set (required_of m x) \<times> {?n}"
      using req by auto
    define g2 where "g2 = (case nm_Dependencies m x of Some ds \<Rightarrow> add_optional ?n ds added g1 | None \<Rightarrow> g1)"
    have "g2 = add_optional ?n (optional_of m x) added g1"
      by (simp add: g2_def optional_of_def split: option.split)
    then have g2: "dg_ok g2" "g_nodes g2 = g_nodes g"
      "dg_edges g2 = dg_edges g1 \<union> (set (optional_of m x) \<inter> names_of g - set added) \<times> {?n}"
      using add_optional_spec [OF g1(3), of ?n "optional_of m x" added] n g1(4) by simp_all
    have "dg_edges g2 \<union> depends_on m (names_of g) items = dg_edges g \<union> depends_on m (names_of g) (x # items)"
      unfolding g2(3) g1(5,2) using True by (auto simp: depends_on_def)
    moreover have "add_edges m (x # items) g = add_edges m items g2"
      using g1(1) by (simp add: r_def g2_def Let_def)
    ultimately show ?thesis using Cons.IH [OF g2(1)] Cons.prems(2) g2(2) True by auto
  next
    case False
    then obtain e where "r = Inl e" "err_is e ''ErrMissingDependency''" using req by auto
    then show ?thesis using False by (auto simp: r_def [symmetric] Let_def)
  qed
qed

subsection \<open>Properties\<close>

definition names_ok :: "'a methods \<Rightarrow> 'a list \<Rightarrow> bool" where
  "names_ok m items \<longleftrightarrow> '''' \<notin> nm_Name m ` set items \<and> distinct (map (nm_Name m) items)"

definition required_ok :: "'a methods \<Rightarrow> 'a list \<Rightarrow> bool" where
  "required_ok m items \<longleftrightarrow> (\<forall>x \<in> set items. set (required_of m x) \<subseteq> nm_Name m ` set items)"

definition declared :: "'a methods \<Rightarrow> 'a list \<Rightarrow> (string \<times> string) set" where
  "declared m items = depends_on m (nm_Name m ` set items) items"

lemma Build_stages:
  fixes items :: "'a list"
  assumes "items \<noteq> []"
  shows "if \<not> names_ok m items
    then \<exists>e. dg_Build m zero visit items = Inl e \<and> (err_is e ''ErrEmptyName'' \<or> err_is e ''ErrDuplicateName'')
    else if \<not> required_ok m items
    then \<exists>e. dg_Build m zero visit items = Inl e \<and> err_is e ''ErrMissingDependency''
    else \<exists>g. dg_ok g \<and> g_nodes g = map (\<lambda>x. (nm_Name m x, x)) items \<and> dg_edges g = declared m items
      \<and> (\<forall>vs. dg_Build m zero vs items = (case TopologicalSort zero vs g of
               Inl e \<Rightarrow> Inl (the (Wrap (Some e) ''dependency ordering failed'')) | Inr xs \<Rightarrow> Inr xs))"
proof -
  have nodes: "if names_ok m items then add_nodes m 0 items dg_New = Inr (nodes_graph m items)
    else \<exists>e. add_nodes m 0 items dg_New = Inl e \<and> (err_is e ''ErrEmptyName'' \<or> err_is e ''ErrDuplicateName'')"
  proof -
    have new: "dg_New = nodes_graph m []" by (simp add: nodes_graph_def dg_New_def)
    show ?thesis
      unfolding names_ok_def new using add_nodes_spec [of m "[]" items 0] unfolding append_Nil by simp
  qed
  show ?thesis
  proof (cases "names_ok m items")
    case True
    let ?g = "nodes_graph m items"
    have ok: "dg_ok ?g" using True by (simp add: names_ok_def nodes_graph_ok)
    have "nm_Name m ` set items \<subseteq> names_of ?g" by (simp add: nodes_graph_facts(1))
    note E = add_edges_spec [OF ok this, unfolded nodes_graph_facts(1,3) Un_empty_left]
    show ?thesis
    proof (cases "required_ok m items")
      case req: True
      then obtain g where "add_edges m items ?g = Inr g" "dg_ok g" "g_nodes g = g_nodes ?g" "dg_edges g = declared m items"
        using E by (auto simp: required_ok_def declared_def)
      then show ?thesis using True req nodes assms by (auto simp: dg_Build_def nodes_graph_def)
    next
      case False
      then show ?thesis using True nodes E assms by (auto simp: dg_Build_def required_ok_def split: if_splits)
    qed
  next
    case False
    then show ?thesis using nodes assms by (auto simp: dg_Build_def)
  qed
qed

lemma node_at_name:
  assumes "g_nodes g = map (\<lambda>x. (nm_Name m x, x)) items" and "distinct (map (nm_Name m) items)" and "x \<in> set items"
  shows "node_at zero g (nm_Name m x) = x"
proof -
  have "gm_get (g_nodes g) (nm_Name m x) = Some x"
    using assms by (subst gm_get_iff) (auto simp: comp_def)
  then show ?thesis by (simp add: node_at_def)
qed

text \<open>
  C39: a successful ordering is a permutation of the items in which every item comes after the
  items it declares as dependencies: all required ones, and the optional ones that are present. The
  order does not depend on how Go iterates over its maps.
\<close>

theorem Build_orders_dependencies:
  fixes items :: "'a list"
  assumes "\<And>xs :: (string \<times> 'a) list. mset (visit xs) = mset xs" and "dg_Build m zero visit items = Inr out"
  shows "mset out = mset items
    \<and> (\<forall>i < length out. \<forall>d \<in> set (required_of m (out ! i)) \<union> (set (optional_of m (out ! i)) \<inter> nm_Name m ` set items).
         \<exists>j < i. nm_Name m (out ! j) = d)
    \<and> (\<forall>visit'. (\<forall>xs. mset (visit' xs) = mset xs) \<longrightarrow> dg_Build m zero visit' items = Inr out)"
proof (cases "items = []")
  case True
  then show ?thesis using assms(2) by (auto simp: dg_Build_def)
next
  case False
  have ok: "names_ok m items" "required_ok m items"
    using Build_stages [OF False, of m zero visit] assms(2) by (auto split: if_splits)
  then obtain g where g: "dg_ok g" "g_nodes g = map (\<lambda>x. (nm_Name m x, x)) items" "dg_edges g = declared m items"
    and run: "\<And>vs. dg_Build m zero vs items = (case TopologicalSort zero vs g of
               Inl e \<Rightarrow> Inl (the (Wrap (Some e) ''dependency ordering failed'')) | Inr xs \<Rightarrow> Inr xs)"
    using Build_stages [OF False, of m zero visit] by auto
  have acyc: "acyclic (dg_edges g)"
    using TopologicalSort_spec [OF g(1) assms(1) assms(1), of zero] assms(2) run [of visit] by (auto split: if_splits)
  note T = TopologicalSort_spec [OF g(1) assms(1), of _ zero, unfolded if_P [OF acyc]]
  obtain placed where p: "out = map (node_at zero g) placed" "distinct placed" "set placed = names_of g"
    and before: "\<And>i u. i < length placed \<Longrightarrow> (u, placed ! i) \<in> dg_edges g \<Longrightarrow> u \<in> set (take i placed)"
    using T [of visit] assms(1,2) run [of visit] by (auto split: sum.splits)
  have dist: "distinct (map (nm_Name m) items)" using ok(1) by (simp add: names_ok_def)
  have names: "names_of g = nm_Name m ` set items" using g(2) by force
  note node = node_at_name [OF g(2) dist]
  have name: "nm_Name m (node_at zero g n) = n" if "n \<in> set placed" for n
    using node that p(3) names by auto
  have "set out = node_at zero g ` nm_Name m ` set items" using p(1,3) names by simp
  then have set: "set out = set items" by (simp add: image_image node)
  moreover have "distinct (map (nm_Name m) out)"
    using p(1,2) name by (simp add: distinct_map comp_def inj_on_def)
  ultimately have perm: "mset out = mset items"
    using dist by (simp add: set_eq_iff_mset_eq_distinct distinct_map)
  have order: "\<exists>j < i. nm_Name m (out ! j) = d"
    if "i < length out" "d \<in> set (required_of m (out ! i)) \<union> (set (optional_of m (out ! i)) \<inter> nm_Name m ` set items)" for i d
  proof -
    have i: "i < length placed" "out ! i \<in> set items" "nm_Name m (out ! i) = placed ! i"
      using that(1) p(1) set name [of "placed ! i"] by (auto simp: nth_mem)
    have "(d, placed ! i) \<in> dg_edges g"
      using i(2,3) that(2) ok(2) unfolding g(3) declared_def depends_on_def required_ok_def by force
    then have "d \<in> set (take i placed)" by (rule before [OF i(1)])
    then obtain j where "j < i" "d = placed ! j" using i(1) by (auto simp: in_set_conv_nth)
    then show ?thesis using i(1) p(1) name [of "placed ! j"] by auto
  qed
  have det: "dg_Build m zero visit' items = Inr out" if "\<forall>xs. mset (visit' xs) = mset xs" for visit'
    using T [of visit'] that p(1) run assms(1,2) by (auto split: sum.splits)
  show ?thesis using perm order det by blast
qed


text \<open>A list without unnamed items that went through Dedupe is never refused for its names.\<close>

lemma dedupe_loop_names:
  assumes "'''' \<notin> nm_Name m ` set items" and "set seen = nm_Name m ` set out" and "distinct (map (nm_Name m) out)"
  shows "distinct (map (nm_Name m) (dedupe_loop m items seen out))
    \<and> nm_Name m ` set (dedupe_loop m items seen out) = nm_Name m ` (set out \<union> set items)"
  using assms
proof (induction m items seen out rule: dedupe_loop.induct)
  case (2 m x items seen out)
  show ?case
  proof (cases "nm_Name m x \<in> set seen")
    case True
    then show ?thesis using 2 by (auto simp: Let_def)
  next
    case False
    then have "set (nm_Name m x # seen) = nm_Name m ` set (out @ [x])" "distinct (map (nm_Name m) (out @ [x]))"
      using 2(5,6) by auto
    then show ?thesis using 2(2) [OF refl] 2(4) False by (auto simp: Let_def)
  qed
qed simp

lemma Dedupe_names_ok:
  assumes "'''' \<notin> nm_Name m ` set items"
  shows "names_ok m (Dedupe m items)" and "nm_Name m ` set (Dedupe m items) = nm_Name m ` set items"
proof -
  have "distinct (map (nm_Name m) items)" if "length items < 2"
    using that by (cases items) (auto simp: less_Suc_eq)
  then show "nm_Name m ` set (Dedupe m items) = nm_Name m ` set items" "names_ok m (Dedupe m items)"
    using dedupe_loop_names [OF assms, of "[]" "[]"] assms by (auto simp: Dedupe_def names_ok_def)
qed

text \<open>Three items: \<open>auth\<close> requires \<open>log\<close>, and \<open>limiter\<close> runs after \<open>auth\<close> and an absent item.\<close>

definition dgdemo :: "(string \<times> string list \<times> string list) methods" where
  "dgdemo = \<lparr> nm_Name = fst, nm_RequiredDependencies = (\<lambda>x. Some (fst (snd x))), nm_Dependencies = (\<lambda>x. Some (snd (snd x))) \<rparr>"

definition dgdemo_items :: "(string \<times> string list \<times> string list) list" where
  "dgdemo_items = [(''limiter'', [], [''auth'', ''trace'']), (''auth'', [''log''], []), (''log'', [], [])]"

lemma dgdemo_sorted:
  "dg_Build dgdemo ('''', [], []) rev dgdemo_items
     = Inr [(''log'', [], []), (''auth'', [''log''], []), (''limiter'', [], [''auth'', ''trace''])]"
  by code_simp

theorem Build_orders_dependencies_witness:
  "mset [(''log'', [], []), (''auth'', [''log''], []), (''limiter'', [], [''auth'', ''trace''])] = mset dgdemo_items
   \<and> dg_Build dgdemo ('''', [], []) id dgdemo_items
     = Inr [(''log'', [], []), (''auth'', [''log''], []), (''limiter'', [], [''auth'', ''trace''])]"
  using Build_orders_dependencies [OF _ dgdemo_sorted] by simp


text \<open>
  On graphs with edges to names that are not nodes the count at the end can be right by accident:
  here \<open>b\<close> waits for an unknown node, an unknown node follows \<open>a\<close>, and the sort returns without an
  error, with the zero value in the place of \<open>b\<close>.
\<close>

lemma TopologicalSort_unknown_nodes:
  "TopologicalSort (0 :: int) id
     (AddEdge ''y'' ''b'' (AddEdge ''a'' ''x'' (AddNode ''b'' 2 (AddNode ''a'' 1 dg_New)))) = Inr [1, 0]"
  by code_simp

end
