(* ===== verification/WalModel.thy ===== *)
theory WalModel
  imports GoErrors "HOL-Library.Word"
begin

text \<open>
  The write-ahead log of \<^verbatim>\<open>src/core/io/wal\<close>: the record format and its recovery, the group commit
  of appends with rolling and rollback, acknowledgements, the reading of pending records and
  closing.

  A directory is a Go map from file names to kind, contents and permission bits; files are named
  without their directory, which is the entry of the empty name. Each system call may fail: the
  oracle \<open>os\<close> says how, from the state \<open>'x\<close> of the outside world, and a write may stop after some of
  its bytes. A failed call other than a write leaves the files as they are. The handle of the active
  segment always stands at the end of the file, so a write appends. The rounds of a group commit,
  the acknowledgements and the reads of pending records are atomic steps. Record positions and
  segment ids are natural numbers. The background goroutine that calls fsync, logging, the umask
  and the reuse of buffers are left out.
\<close>

unbundle bit_operations_syntax

type_synonym bytes = "8 word list"

subsection \<open>Records on disk\<close>

text \<open>\<^verbatim>\<open>binary.LittleEndian\<close> for 32-bit numbers\<close>

definition AppendUint32 :: "32 word \<Rightarrow> bytes" where
  "AppendUint32 v = [ucast v, ucast (drop_bit 8 v), ucast (drop_bit 16 v), ucast (drop_bit 24 v)]"

definition Uint32 :: "bytes \<Rightarrow> 32 word" where
  "Uint32 b = ucast (b ! 0) OR push_bit 8 (ucast (b ! 1)) OR push_bit 16 (ucast (b ! 2)) OR push_bit 24 (ucast (b ! 3))"

text \<open>\<^verbatim>\<open>crc32.ChecksumIEEE\<close>: the reflected polynomial of the IEEE checksum, bit by bit.\<close>

definition crc_bit :: "32 word \<Rightarrow> 32 word" where
  "crc_bit c = (if bit c 0 then drop_bit 1 c XOR 0xEDB88320 else drop_bit 1 c)"

definition crc_byte :: "32 word \<Rightarrow> 8 word \<Rightarrow> 32 word" where
  "crc_byte c b = (crc_bit ^^ 8) (c XOR ucast b)"

definition ChecksumIEEE :: "bytes \<Rightarrow> 32 word" where
  "ChecksumIEEE bs = NOT (foldl crc_byte (NOT 0) bs)"

definition recordHeaderSize :: nat where
  "recordHeaderSize = 8"

definition maxRecordBytes :: nat where
  "maxRecordBytes = 64 * 2 ^ 20"

text \<open>The bytes of one record, as \<^verbatim>\<open>appendBatch.add\<close> writes them.\<close>

definition encode_record :: "bytes \<Rightarrow> bytes" where
  "encode_record payload =
     AppendUint32 (of_nat (length payload)) @ AppendUint32 (ChecksumIEEE payload) @ payload"

subsection \<open>Files and system calls\<close>

datatype file_kind = Regular | Directory | OtherKind

record wal_file =
  fl_kind :: file_kind
  fl_data :: bytes
  fl_mode :: nat

datatype io_op = IoMkdir | IoReadDir | IoStat | IoOpen | IoCreate | IoRemove | IoTruncate | IoSeek | IoSync | IoClose | IoRead

record 'x os =
  os_err :: "io_op \<Rightarrow> string \<Rightarrow> 'x \<Rightarrow> goerr option \<times> 'x"
  os_write :: "string \<Rightarrow> nat \<Rightarrow> 'x \<Rightarrow> (nat \<times> goerr option) \<times> 'x"

type_synonym 'x disk = "(string, wal_file) gomap \<times> 'x"

definition ErrNotExist :: goerr where
  "ErrNotExist = Sentinel ''os.ErrNotExist'' ''file does not exist'' []"

definition ErrExist :: goerr where
  "ErrExist = Sentinel ''os.ErrExist'' ''file already exists'' []"

definition ENOTDIR :: goerr where
  "ENOTDIR = Sentinel ''syscall.ENOTDIR'' ''not a directory'' []"

definition ErrShortWrite :: goerr where
  "ErrShortWrite = Sentinel ''io.ErrShortWrite'' ''short write'' []"

definition EOF :: goerr where
  "EOF = Sentinel ''io.EOF'' ''EOF'' []"

definition ErrInvalid :: goerr where
  "ErrInvalid = Sentinel ''os.ErrInvalid'' ''invalid argument'' []"

definition syscall :: "'x os \<Rightarrow> io_op \<Rightarrow> string \<Rightarrow> 'x disk \<Rightarrow> goerr option \<times> 'x disk" where
  "syscall os op name d = (case d of (fs, x) \<Rightarrow> let (e, x1) = os_err os op name x in (e, fs, x1))"

definition on_file :: "string \<Rightarrow> (wal_file \<Rightarrow> wal_file) \<Rightarrow> 'x disk \<Rightarrow> 'x disk" where
  "on_file name f d =
     (case d of (fs, x) \<Rightarrow> (case gm_get fs name of None \<Rightarrow> d | Some c \<Rightarrow> (gm_put name (f c) fs, x)))"

definition file_data :: "'x disk \<Rightarrow> string \<Rightarrow> bytes" where
  "file_data d name = (case gm_get (fst d) name of None \<Rightarrow> [] | Some c \<Rightarrow> fl_data c)"

definition os_Remove :: "'x os \<Rightarrow> string \<Rightarrow> 'x disk \<Rightarrow> goerr option \<times> 'x disk" where
  "os_Remove os name d =
     (case syscall os IoRemove name d of
        (Some e, d1) \<Rightarrow> (Some e, d1)
      | (None, fs, x) \<Rightarrow> (if gm_get fs name = None then (Some ErrNotExist, fs, x) else (None, gm_del name fs, x)))"

definition os_Create :: "'x os \<Rightarrow> string \<Rightarrow> nat \<Rightarrow> 'x disk \<Rightarrow> goerr option \<times> 'x disk" where
  "os_Create os name mode d =
     (case syscall os IoCreate name d of
        (Some e, d1) \<Rightarrow> (Some e, d1)
      | (None, fs, x) \<Rightarrow>
          (if gm_get fs name \<noteq> None then (Some ErrExist, fs, x)
           else (None, gm_put name \<lparr> fl_kind = Regular, fl_data = [], fl_mode = mode \<rparr> fs, x)))"

definition os_Open :: "'x os \<Rightarrow> string \<Rightarrow> 'x disk \<Rightarrow> goerr option \<times> 'x disk" where
  "os_Open os name d =
     (case syscall os IoOpen name d of
        (Some e, d1) \<Rightarrow> (Some e, d1)
      | (None, d1) \<Rightarrow> (if gm_get (fst d1) name = None then Some ErrNotExist else None, d1))"

definition os_MkdirAll :: "'x os \<Rightarrow> nat \<Rightarrow> 'x disk \<Rightarrow> goerr option \<times> 'x disk" where
  "os_MkdirAll os mode d =
     (case syscall os IoMkdir '''' d of
        (Some e, d1) \<Rightarrow> (Some e, d1)
      | (None, fs, x) \<Rightarrow>
          (case gm_get fs '''' of
             None \<Rightarrow> (None, gm_put '''' \<lparr> fl_kind = Directory, fl_data = [], fl_mode = mode \<rparr> fs, x)
           | Some c \<Rightarrow> (if fl_kind c = Directory then None else Some ENOTDIR, fs, x)))"

definition os_Truncate :: "'x os \<Rightarrow> string \<Rightarrow> nat \<Rightarrow> 'x disk \<Rightarrow> goerr option \<times> 'x disk" where
  "os_Truncate os name n d =
     (case syscall os IoTruncate name d of
        (Some e, d1) \<Rightarrow> (Some e, d1)
      | (None, d1) \<Rightarrow>
          (None, on_file name (\<lambda>c. c\<lparr>fl_data := take n (fl_data c) @ replicate (n - length (fl_data c)) 0\<rparr>) d1))"

text \<open>A write that ends early without an error of its own gets \<^verbatim>\<open>io.ErrShortWrite\<close>.\<close>

definition file_Write :: "'x os \<Rightarrow> string \<Rightarrow> bytes \<Rightarrow> 'x disk \<Rightarrow> (nat \<times> goerr option) \<times> 'x disk" where
  "file_Write os name p d =
     (case d of (fs, x) \<Rightarrow>
        let ((m, e), x1) = os_write os name (length p) x; n = min m (length p)
        in ((n, if e = None \<and> n \<noteq> length p then Some ErrShortWrite else e),
            on_file name (\<lambda>c. c\<lparr>fl_data := fl_data c @ take n p\<rparr>) (fs, x1)))"

definition file_ReadAt :: "'x os \<Rightarrow> string \<Rightarrow> nat \<Rightarrow> nat \<Rightarrow> 'x disk \<Rightarrow> (goerr + bytes) \<times> 'x disk" where
  "file_ReadAt os name n pos d =
     (case syscall os IoRead name d of
        (Some e, d1) \<Rightarrow> (Inl e, d1)
      | (None, d1) \<Rightarrow>
          (if pos + n \<le> length (file_data d1 name) then (Inr (take n (drop pos (file_data d1 name))), d1)
           else (Inl EOF, d1)))"

subsection \<open>Segments\<close>

record Offset =
  of_SegmentID :: nat
  of_Position :: nat

definition Offset_IsZero :: "Offset \<Rightarrow> bool" where
  "Offset_IsZero off \<longleftrightarrow> of_SegmentID off = 0 \<and> of_Position off = 0"

definition zero_Offset :: Offset where
  "zero_Offset = \<lparr> of_SegmentID = 0, of_Position = 0 \<rparr>"

definition ErrInsecurePermissions :: goerr where
  "ErrInsecurePermissions = Sentinel ''ErrInsecurePermissions'' ''wal: insecure permissions'' []"

definition ErrClosed :: goerr where
  "ErrClosed = Sentinel ''ErrClosed'' ''wal: closed'' []"

definition ErrFull :: goerr where
  "ErrFull = Sentinel ''ErrFull'' ''wal: full'' []"

definition ErrEmptyPayload :: goerr where
  "ErrEmptyPayload = Sentinel ''ErrEmptyPayload'' ''wal: empty payload'' []"

definition ErrPayloadTooLarge :: goerr where
  "ErrPayloadTooLarge = Sentinel ''ErrPayloadTooLarge'' ''wal: payload too large'' []"

definition ErrCorruptRecord :: goerr where
  "ErrCorruptRecord = Sentinel ''ErrCorruptRecord'' ''wal: corrupt pending record'' []"

text \<open>\<open>sg_file\<close> tells whether the segment has an open handle.\<close>

record segmentRef =
  sg_id :: nat
  sg_path :: string
  sg_file :: bool
  sg_size :: nat
  sg_records :: nat
  sg_unacked :: int
  sg_acked :: "nat list"
  sg_pendingPosition :: nat

record wal_options =
  wo_insecurePermissions :: bool
  wo_maxSegmentBytes :: int
  wo_maxBytes :: int

definition defaultOptions :: wal_options where
  "defaultOptions = \<lparr> wo_insecurePermissions = False, wo_maxSegmentBytes = 64 * 2 ^ 20, wo_maxBytes = 0 \<rparr>"

definition WithInsecurePermissions :: "wal_options \<Rightarrow> wal_options" where
  "WithInsecurePermissions o1 = o1\<lparr>wo_insecurePermissions := True\<rparr>"

definition WithMaxBytes :: "int \<Rightarrow> wal_options \<Rightarrow> wal_options" where
  "WithMaxBytes v o1 = o1\<lparr>wo_maxBytes := v\<rparr>"

definition WithMaxSegmentBytes :: "int \<Rightarrow> wal_options \<Rightarrow> wal_options" where
  "WithMaxSegmentBytes v o1 = o1\<lparr>wo_maxSegmentBytes := v\<rparr>"

definition newOptions :: "(wal_options \<Rightarrow> wal_options) list \<Rightarrow> wal_options" where
  "newOptions opts = foldl (\<lambda>o1 opt. opt o1) defaultOptions opts"

record WAL =
  w_opts :: wal_options
  w_active :: "segmentRef option"
  w_sealed :: "segmentRef list"
  w_nextID :: nat
  w_totalSz :: int
  w_closed :: bool
  w_closing :: bool
  w_readBuf :: bytes
  w_lastFsyncErr :: "goerr option"

type_synonym wal_record = "Offset \<times> bytes"

subsection \<open>Opening and recovery\<close>

text \<open>\<^verbatim>\<open>fmt.Sprintf("%020d.wal", id)\<close>, \<^verbatim>\<open>strings.CutSuffix\<close> and \<^verbatim>\<open>strconv.ParseUint(s, 10, 64)\<close>\<close>

definition segment_name :: "nat \<Rightarrow> string" where
  "segment_name i = (let ds = nat_digits i in replicate (20 - length ds) (CHR ''0'') @ ds @ ''.wal'')"

definition CutSuffix :: "string \<Rightarrow> string \<Rightarrow> string option" where
  "CutSuffix s suffix =
     (if length suffix \<le> length s \<and> drop (length s - length suffix) s = suffix
      then Some (take (length s - length suffix) s) else None)"

definition ParseUint :: "string \<Rightarrow> nat option" where
  "ParseUint s =
     (if s \<noteq> [] \<and> list_all (\<lambda>c. of_char c \<in> {48..57 :: nat}) s \<and> digits_value s < 2 ^ 64
      then Some (digits_value s) else None)"

definition segment_id :: "string \<Rightarrow> nat option" where
  "segment_id name = (case CutSuffix name ''.wal'' of None \<Rightarrow> None | Some s \<Rightarrow> ParseUint s)"

text \<open>\<^verbatim>\<open>%04o\<close> of permission bits\<close>

definition octal4 :: "nat \<Rightarrow> string" where
  "octal4 m = concat (map (\<lambda>k. nat_digits (m div 8 ^ k mod 8)) [3, 2, 1, 0])"

text \<open>\<open>windows\<close> is \<^verbatim>\<open>runtime.GOOS == "windows"\<close>; \<open>fl_mode\<close> is the permission part of the mode.\<close>

definition validatePath ::
  "'x os \<Rightarrow> bool \<Rightarrow> string \<Rightarrow> bool \<Rightarrow> bool \<Rightarrow> 'x disk \<Rightarrow> goerr option \<times> 'x disk" where
  "validatePath os windows path directory insecure d =
     (case syscall os IoStat path d of
        (Some e, d1) \<Rightarrow> (Wrap (Some e) ''wal: stat path'', d1)
      | (None, fs, x) \<Rightarrow>
          (case gm_get fs path of
             None \<Rightarrow> (Wrap (Some ErrNotExist) ''wal: stat path'', fs, x)
           | Some c \<Rightarrow>
               (if (directory \<and> fl_kind c \<noteq> Directory) \<or> (\<not> directory \<and> fl_kind c \<noteq> Regular)
                then (Wrap (Some ErrInvalid) ''wal: expected directory or regular segment'', fs, x)
                else if \<not> insecure \<and> \<not> windows \<and> fl_mode c mod 64 \<noteq> 0
                then (Wrapf (Some ErrInsecurePermissions) (''wal: '' @ path @ '' has permissions '' @ octal4 (fl_mode c)), fs, x)
                else (None, fs, x))))"

fun validate_all :: "'x os \<Rightarrow> bool \<Rightarrow> bool \<Rightarrow> string list \<Rightarrow> 'x disk \<Rightarrow> goerr option \<times> 'x disk" where
  "validate_all os windows insecure [] d = (None, d)"
| "validate_all os windows insecure (path # ps) d =
     (case validatePath os windows path False insecure d of
        (Some e, d1) \<Rightarrow> (Some e, d1)
      | (None, d1) \<Rightarrow> validate_all os windows insecure ps d1)"

text \<open>
  The loop of \<^verbatim>\<open>readSegment\<close> on the rest of the file: the records with their positions, and the
  number of valid bytes. A read that fails ends the loop as the end of the file does.
\<close>

function read_records :: "'x os \<Rightarrow> string \<Rightarrow> bytes \<Rightarrow> nat \<Rightarrow> 'x \<Rightarrow> ((nat \<times> bytes) list \<times> nat) \<times> 'x" where
  "read_records os path f offset x =
     (let (e, x1) = os_err os IoRead path x
      in if e \<noteq> None \<or> length f < recordHeaderSize then (([], offset), x1)
         else let len = unat (Uint32 (take 4 f)); crc = Uint32 (take 4 (drop 4 f))
         in if len = 0 \<or> len > maxRecordBytes then (([], offset), x1)
         else let rest = drop recordHeaderSize f; (e2, x2) = os_err os IoRead path x1
         in if e2 \<noteq> None \<or> length rest < len then (([], offset), x2)
         else let payload = take len rest
         in if ChecksumIEEE payload \<noteq> crc then (([], offset), x2)
         else let ((recs, valid), x3) = read_records os path (drop len rest) (offset + recordHeaderSize + len) x2
         in (((offset, payload) # recs, valid), x3))"
  by pat_completeness auto

termination read_records
  by (relation "measure (\<lambda>(os, path, f, offset, x). length f)") (auto simp: recordHeaderSize_def)

declare read_records.simps [simp del]

definition readSegment :: "'x os \<Rightarrow> string \<Rightarrow> 'x disk \<Rightarrow> (goerr + (nat \<times> bytes) list \<times> nat) \<times> 'x disk" where
  "readSegment os path d =
     (case os_Open os path d of
        (Some e, d1) \<Rightarrow> (Inl (the (Wrapf (Some e) (''wal: open '' @ path))), d1)
      | (None, fs, x) \<Rightarrow>
          (let (r, x1) = read_records os path (file_data (fs, x) path) 0 x in (Inr r, fs, x1)))"

text \<open>A stat that fails skips the truncation.\<close>

definition truncate_torn :: "'x os \<Rightarrow> string \<Rightarrow> nat \<Rightarrow> 'x disk \<Rightarrow> goerr option \<times> 'x disk" where
  "truncate_torn os name validSize d =
     (case syscall os IoStat name d of
        (Some e, d1) \<Rightarrow> (None, d1)
      | (None, d1) \<Rightarrow>
          (if length (file_data d1 name) \<noteq> validSize
           then (case os_Truncate os name validSize d1 of
                   (Some e, d2) \<Rightarrow> (Wrapf (Some e) (''wal: truncate '' @ name), d2)
                 | (None, d2) \<Rightarrow> (None, d2))
           else (None, d1)))"

definition recovered_segment :: "nat \<Rightarrow> string \<Rightarrow> (nat \<times> bytes) list \<Rightarrow> nat \<Rightarrow> segmentRef" where
  "recovered_segment i name recs validSize =
     \<lparr> sg_id = i, sg_path = name, sg_file = False, sg_size = validSize, sg_records = length recs,
       sg_unacked = int (length recs), sg_acked = [], sg_pendingPosition = 0 \<rparr>"

definition with_offsets :: "nat \<Rightarrow> (nat \<times> bytes) list \<Rightarrow> wal_record list" where
  "with_offsets i recs = map (\<lambda>(pos, p). (\<lparr> of_SegmentID = i, of_Position = pos \<rparr>, p)) recs"

fun recover_segments ::
  "'x os \<Rightarrow> (nat \<times> string) list \<Rightarrow> WAL \<Rightarrow> 'x disk \<Rightarrow> wal_record list
     \<Rightarrow> (goerr + wal_record list \<times> WAL) \<times> 'x disk" where
  "recover_segments os [] w d recovered = (Inr (recovered, w), d)"
| "recover_segments os ((i, name) # segs) w d recovered =
     (case readSegment os name d of
        (Inl e, d1) \<Rightarrow> (Inl e, d1)
      | (Inr (recs, validSize), d1) \<Rightarrow>
          (if length recs = 0
           then recover_segments os segs w (snd (os_Remove os name d1)) recovered
           else case truncate_torn os name validSize d1 of
             (Some e, d2) \<Rightarrow> (Inl e, d2)
           | (None, d2) \<Rightarrow>
               recover_segments os segs
                 (w\<lparr>w_sealed := w_sealed w @ [recovered_segment i name recs validSize],
                    w_totalSz := w_totalSz w + int validSize,
                    w_nextID := (if i \<ge> w_nextID w then i + 1 else w_nextID w)\<rparr>)
                 d2 (recovered @ with_offsets i recs)))"

definition segment_files :: "string list \<Rightarrow> (nat \<times> string) list" where
  "segment_files names =
     sort_key fst (concat (map (\<lambda>name. case segment_id name of None \<Rightarrow> [] | Some i \<Rightarrow> [(i, name)]) names))"

definition wal_recover ::
  "'x os \<Rightarrow> bool \<Rightarrow> WAL \<Rightarrow> 'x disk \<Rightarrow> (goerr + wal_record list \<times> WAL) \<times> 'x disk" where
  "wal_recover os windows w d =
     (case syscall os IoReadDir '''' d of
        (Some e, d1) \<Rightarrow> (Inl (the (Wrap (Some e) ''wal: read dir'')), d1)
      | (None, d1) \<Rightarrow>
          (let segs = segment_files (filter (\<lambda>name. name \<noteq> '''') (map fst (fst d1)))
           in case validate_all os windows (wo_insecurePermissions (w_opts w)) (map snd segs) d1 of
                (Some e, d2) \<Rightarrow> (Inl e, d2)
              | (None, d2) \<Rightarrow> recover_segments os segs w d2 []))"

definition openNewActiveLocked :: "'x os \<Rightarrow> WAL \<Rightarrow> 'x disk \<Rightarrow> goerr option \<times> WAL \<times> 'x disk" where
  "openNewActiveLocked os w d =
     (let i = w_nextID w;
          w1 = w\<lparr>w_nextID := i + 1\<rparr>;
          path = segment_name i;
          mode = (if wo_insecurePermissions (w_opts w) then 420 else 384)
      in case os_Create os path mode d of
           (Some e, d1) \<Rightarrow> (Wrap (Some e) ''wal: open active'', w1, d1)
         | (None, d1) \<Rightarrow>
             (None, w1\<lparr>w_active := Some \<lparr> sg_id = i, sg_path = path, sg_file = True, sg_size = 0, sg_records = 0,
                                           sg_unacked = 0, sg_acked = [], sg_pendingPosition = 0 \<rparr>\<rparr>, d1))"

text \<open>\<open>opts\<close> are the resolved options, the result of \<open>newOptions\<close>.\<close>

definition Open ::
  "'x os \<Rightarrow> bool \<Rightarrow> string \<Rightarrow> wal_options \<Rightarrow> 'x disk \<Rightarrow> (goerr + WAL \<times> wal_record list) \<times> 'x disk" where
  "Open os windows dir opts d =
     (if dir = '''' then (Inl (Sentinel '''' ''wal: dir is required'' []), d)
      else case os_MkdirAll os (if wo_insecurePermissions opts then 493 else 448) d of
        (Some e, d1) \<Rightarrow> (Inl (the (Wrap (Some e) ''wal: mkdir'')), d1)
      | (None, d1) \<Rightarrow>
          (case validatePath os windows '''' True (wo_insecurePermissions opts) d1 of
             (Some e, d2) \<Rightarrow> (Inl e, d2)
           | (None, d2) \<Rightarrow>
               (case wal_recover os windows
                       \<lparr> w_opts = opts, w_active = None, w_sealed = [], w_nextID = 1, w_totalSz = 0,
                         w_closed = False, w_closing = False, w_readBuf = [], w_lastFsyncErr = None \<rparr> d2 of
                  (Inl e, d3) \<Rightarrow> (Inl e, d3)
                | (Inr (recovered, w), d3) \<Rightarrow>
                    (case openNewActiveLocked os w d3 of
                       (Some e, w1, d4) \<Rightarrow> (Inl e, d4)
                     | (None, w1, d4) \<Rightarrow> (Inr (w1, recovered), d4)))))"

subsection \<open>Group commit\<close>

record appendBatch =
  ab_buf :: bytes
  ab_starts :: "nat list"
  ab_offs :: "Offset list"
  ab_errs :: "goerr option list"

definition getAppendBatch :: appendBatch where
  "getAppendBatch = \<lparr> ab_buf = [], ab_starts = [0], ab_offs = [], ab_errs = [] \<rparr>"

definition batch_add :: "appendBatch \<Rightarrow> bytes \<Rightarrow> 32 word \<Rightarrow> appendBatch \<times> nat" where
  "batch_add b payload crc =
     (let buf = ab_buf b @ AppendUint32 (of_nat (length payload)) @ AppendUint32 crc @ payload
      in (\<lparr> ab_buf = buf, ab_starts = ab_starts b @ [length buf], ab_offs = ab_offs b @ [zero_Offset],
            ab_errs = ab_errs b @ [None] \<rparr>, length (ab_offs b)))"

definition batch_len :: "appendBatch \<Rightarrow> nat" where
  "batch_len b = length (ab_offs b)"

definition batch_size :: "appendBatch \<Rightarrow> nat \<Rightarrow> nat" where
  "batch_size b i = ab_starts b ! (i + 1) - ab_starts b ! i"

definition batch_fail :: "appendBatch \<Rightarrow> nat \<Rightarrow> nat \<Rightarrow> goerr option \<Rightarrow> appendBatch" where
  "batch_fail b i j err = b\<lparr>ab_errs := foldl (\<lambda>es k. es[k := err]) (ab_errs b) [i..<j]\<rparr>"

text \<open>
  The first half of \<^verbatim>\<open>Append\<close>: the checks before and under the lock, and the record added to the
  accumulating batch with its index there.
\<close>

definition Append_begin :: "WAL \<Rightarrow> bytes \<Rightarrow> appendBatch \<Rightarrow> goerr + appendBatch \<times> nat" where
  "Append_begin w payload cur =
     (if length payload = 0 then Inl ErrEmptyPayload
      else if length payload > maxRecordBytes then Inl ErrPayloadTooLarge
      else if w_closed w then Inl ErrClosed
      else if wo_maxBytes (w_opts w) > 0 \<and> w_totalSz w > wo_maxBytes (w_opts w) then Inl ErrFull
      else case w_active w of
        None \<Rightarrow> Inl ErrClosed
      | Some seg \<Rightarrow> (if \<not> sg_file seg then Inl ErrClosed else Inr (batch_add cur payload (ChecksumIEEE payload))))"

text \<open>Its second half, once the batch is written.\<close>

definition Append_result :: "appendBatch \<Rightarrow> nat \<Rightarrow> Offset \<times> goerr option" where
  "Append_result b idx = (ab_offs b ! idx, ab_errs b ! idx)"

definition rollbackLocked ::
  "'x os \<Rightarrow> segmentRef \<Rightarrow> nat \<Rightarrow> goerr option \<Rightarrow> 'x disk \<Rightarrow> goerr option \<times> segmentRef \<times> 'x disk" where
  "rollbackLocked os seg n err d =
     (if n > 0 \<and> sg_file seg
      then case os_Truncate os (sg_path seg) (sg_size seg) d of
             (Some truncErr, d1) \<Rightarrow>
               (Wrapf err (''wal: write record (truncate rollback failed: '' @ err_text truncErr @ '')''),
                seg\<lparr>sg_file := False\<rparr>, snd (syscall os IoClose (sg_path seg) d1))
           | (None, d1) \<Rightarrow>
               (case syscall os IoSeek (sg_path seg) d1 of
                  (Some seekErr, d2) \<Rightarrow>
                    (Wrapf err (''wal: write record (seek rollback failed: '' @ err_text seekErr @ '')''),
                     seg\<lparr>sg_file := False\<rparr>, snd (syscall os IoClose (sg_path seg) d2))
                | (None, d2) \<Rightarrow> (Wrap err ''wal: write record'', seg, d2))
      else (Wrap err ''wal: write record'', seg, d))"

text \<open>The end of \<^verbatim>\<open>sealActiveLocked\<close>, once the file is closed.\<close>

definition seal_closed :: "'x os \<Rightarrow> WAL \<Rightarrow> segmentRef \<Rightarrow> 'x disk \<Rightarrow> WAL \<times> 'x disk" where
  "seal_closed os w seg d =
     (if sg_unacked seg > 0 then (w\<lparr>w_sealed := w_sealed w @ [seg], w_active := None\<rparr>, d)
      else (w\<lparr>w_totalSz := w_totalSz w - int (sg_size seg), w_active := None\<rparr>, snd (os_Remove os (sg_path seg) d)))"

definition sealActiveLocked :: "'x os \<Rightarrow> WAL \<Rightarrow> 'x disk \<Rightarrow> goerr option \<times> WAL \<times> 'x disk" where
  "sealActiveLocked os w d =
     (case w_active w of
        None \<Rightarrow> (None, w, d)
      | Some seg \<Rightarrow>
          (if sg_file seg
           then case syscall os IoSync (sg_path seg) d of
                  (Some e, d1) \<Rightarrow> (Wrap (Some e) ''wal: final sync'', w, d1)
                | (None, d1) \<Rightarrow>
                    (case syscall os IoClose (sg_path seg) d1 of
                       (Some e, d2) \<Rightarrow> (Wrap (Some e) ''wal: close'', w, d2)
                     | (None, d2) \<Rightarrow> (None, seal_closed os w (seg\<lparr>sg_file := False\<rparr>) d2))
           else (None, seal_closed os w seg d)))"

text \<open>The longest run of records that fits the segment: the loop over \<^verbatim>\<open>j\<close>.\<close>

function run_end :: "appendBatch \<Rightarrow> int \<Rightarrow> nat \<Rightarrow> nat \<Rightarrow> nat \<Rightarrow> nat" where
  "run_end b maxSegmentBytes j sz records =
     (if j < batch_len b \<and> (int (sz + batch_size b j) \<le> maxSegmentBytes \<or> records = 0)
      then run_end b maxSegmentBytes (j + 1) (sz + batch_size b j) (records + 1) else j)"
  by pat_completeness auto

termination run_end
  by (relation "measure (\<lambda>(b, m, j, sz, records). batch_len b - j)") auto

declare run_end.simps [simp del]

text \<open>The loop over \<^verbatim>\<open>k\<close> that assigns offsets.\<close>

fun assign_offs :: "appendBatch \<Rightarrow> nat \<Rightarrow> nat list \<Rightarrow> nat \<Rightarrow> appendBatch \<times> nat" where
  "assign_offs b i [] pos = (b, pos)"
| "assign_offs b i (k # ks) pos =
     assign_offs (b\<lparr>ab_offs := (ab_offs b)[k := \<lparr> of_SegmentID = i, of_Position = pos \<rparr>]\<rparr>) i ks (pos + batch_size b k)"

text \<open>
  One round of the loop of \<^verbatim>\<open>flushLocked\<close>, for \<^verbatim>\<open>i < b.len()\<close>; leaving the loop is the index
  \<^verbatim>\<open>b.len()\<close>.
\<close>

definition flush_round ::
  "'x os \<Rightarrow> appendBatch \<Rightarrow> nat \<Rightarrow> WAL \<Rightarrow> 'x disk \<Rightarrow> (appendBatch \<times> nat) \<times> WAL \<times> 'x disk" where
  "flush_round os b i w d =
     (let failed = (\<lambda>err. (batch_fail b i (batch_len b) err, batch_len b))
      in case w_active w of
        None \<Rightarrow> (failed (Some ErrClosed), w, d)
      | Some seg \<Rightarrow>
          (if w_closed w \<or> \<not> sg_file seg then (failed (Some ErrClosed), w, d)
           else if int (sg_size seg + batch_size b i) > wo_maxSegmentBytes (w_opts w) \<and> sg_records seg > 0
           then case sealActiveLocked os w d of
                  (Some e, w1, d1) \<Rightarrow> (failed (Some e), w1, d1)
                | (None, w1, d1) \<Rightarrow>
                    (case openNewActiveLocked os w1 d1 of
                       (Some e, w2, d2) \<Rightarrow> (failed (Some e), w2, d2)
                     | (None, w2, d2) \<Rightarrow> ((b, i), w2, d2))
           else let j = run_end b (wo_maxSegmentBytes (w_opts w)) i (sg_size seg) (sg_records seg);
                    chunk = take (ab_starts b ! j - ab_starts b ! i) (drop (ab_starts b ! i) (ab_buf b))
                in case file_Write os (sg_path seg) chunk d of
                     ((n, Some e), d1) \<Rightarrow>
                       (case rollbackLocked os seg n (Some e) d1 of
                          (err, seg1, d2) \<Rightarrow> ((batch_fail b i j err, j), w\<lparr>w_active := Some seg1\<rparr>, d2))
                   | ((n, None), d1) \<Rightarrow>
                       (case assign_offs b (sg_id seg) [i..<j] (sg_size seg) of
                          (b1, pos) \<Rightarrow>
                            ((b1, j),
                             w\<lparr>w_active := Some (seg\<lparr>sg_records := sg_records seg + (j - i),
                                                     sg_unacked := sg_unacked seg + int (j - i), sg_size := pos\<rparr>),
                               w_totalSz := w_totalSz w + int (ab_starts b ! j - ab_starts b ! i)\<rparr>, d1))))"

lemma run_end_ge: "j \<le> run_end b m j sz records"
  by (induction b m j sz records rule: run_end.induct) (subst run_end.simps, auto)

lemma run_end_first:
  assumes "i < batch_len b" "int (sz + batch_size b i) \<le> m \<or> records = 0"
  shows "i < run_end b m i sz records"
  using assms run_end_ge [of "Suc i" b m] by (subst run_end.simps) (auto simp: Suc_le_eq)

text \<open>The loop ends: a round moves on in the batch, or opens a segment without records.\<close>

lemma flush_round_progress:
  assumes "flush_round os b i w d = ((b1, i1), w1, d1)" "i < batch_len b"
  shows "batch_len b1 = batch_len b \<and>
    (i < i1 \<or> (i1 = i \<and> (\<exists>seg. w_active w = Some seg \<and> sg_records seg > 0) \<and>
                  (\<exists>seg. w_active w1 = Some seg \<and> sg_records seg = 0)))"
proof -

  have assign: "batch_len (fst (assign_offs b k ks pos)) = batch_len b" for b k ks pos
    by (induction b k ks pos rule: assign_offs.induct) (simp_all add: batch_len_def)
  show ?thesis
    using assms run_end_first [of i b]
    by (auto simp: flush_round_def Let_def batch_fail_def openNewActiveLocked_def
        batch_len_def [of "_\<lparr>ab_errs := _\<rparr>"] split: option.splits if_splits prod.splits
        dest!: arg_cong [where f = "\<lambda>p. batch_len (fst p)"] simp flip: batch_len_def
        simp: assign Wrap_def wrap_with_def)
qed

text \<open>\<^verbatim>\<open>flushLocked\<close>: rounds until every record of the batch has its result.\<close>

function flush_loop ::
  "'x os \<Rightarrow> appendBatch \<Rightarrow> nat \<Rightarrow> WAL \<Rightarrow> 'x disk \<Rightarrow> appendBatch \<times> WAL \<times> 'x disk" where
  "flush_loop os b i w d =
     (if i < batch_len b
      then case flush_round os b i w d of ((b1, i1), w1, d1) \<Rightarrow> flush_loop os b1 i1 w1 d1
      else (b, w, d))"
  by pat_completeness auto

termination flush_loop
proof (relation "measure (\<lambda>(os, b, i, w, d). 2 * (batch_len b - i) +
    (case w_active w of None \<Rightarrow> 0 | Some seg \<Rightarrow> if sg_records seg > 0 then 1 else 0))")
qed (auto split: option.splits dest!: sym [of "((_, _), _)"] flush_round_progress)

declare flush_loop.simps [simp del]

definition flushLocked :: "'x os \<Rightarrow> appendBatch \<Rightarrow> WAL \<Rightarrow> 'x disk \<Rightarrow> appendBatch \<times> WAL \<times> 'x disk" where
  "flushLocked os b w d = flush_loop os b 0 w d"

text \<open>\<^verbatim>\<open>Append\<close> of a caller that meets no other one: it is its own leader.\<close>

definition Append :: "'x os \<Rightarrow> bytes \<Rightarrow> WAL \<Rightarrow> 'x disk \<Rightarrow> (Offset \<times> goerr option) \<times> WAL \<times> 'x disk" where
  "Append os payload w d =
     (case Append_begin w payload getAppendBatch of
        Inl e \<Rightarrow> ((zero_Offset, Some e), w, d)
      | Inr (b, idx) \<Rightarrow> (case flushLocked os b w d of (b1, w1, d1) \<Rightarrow> (Append_result b1 idx, w1, d1)))"

subsection \<open>Acknowledgements\<close>

definition seg_ack :: "segmentRef \<Rightarrow> nat \<Rightarrow> segmentRef" where
  "seg_ack s position =
     (if position < sg_pendingPosition s \<or> position \<ge> sg_size s \<or> sg_unacked s = 0 then s
      else if position \<in> set (sg_acked s) then s
      else s\<lparr>sg_acked := position # sg_acked s, sg_unacked := sg_unacked s - 1\<rparr>)"

text \<open>The loop over the sealed segments: \<open>before\<close> are those already passed.\<close>

fun ack_sealed :: "'x os \<Rightarrow> Offset \<Rightarrow> segmentRef list \<Rightarrow> segmentRef list \<Rightarrow> WAL \<Rightarrow> 'x disk \<Rightarrow> WAL \<times> 'x disk" where
  "ack_sealed os off before [] w d = (w, d)"
| "ack_sealed os off before (s # ss) w d =
     (if sg_id s = of_SegmentID off
      then let s1 = seg_ack s (of_Position off)
           in if sg_unacked s1 \<le> 0
              then (w\<lparr>w_totalSz := w_totalSz w - int (sg_size s1), w_sealed := before @ ss\<rparr>,
                    snd (os_Remove os (sg_path s1) d))
              else (w\<lparr>w_sealed := before @ s1 # ss\<rparr>, d)
      else ack_sealed os off (before @ [s]) ss w d)"

definition Ack :: "'x os \<Rightarrow> Offset \<Rightarrow> WAL \<Rightarrow> 'x disk \<Rightarrow> WAL \<times> 'x disk" where
  "Ack os off w d =
     (if Offset_IsZero off \<or> w_closed w then (w, d)
      else case w_active w of
        Some seg \<Rightarrow>
          (if sg_id seg = of_SegmentID off
           then (w\<lparr>w_active := Some (seg_ack seg (of_Position off))\<rparr>, d)
           else ack_sealed os off [] (w_sealed w) w d)
      | None \<Rightarrow> ack_sealed os off [] (w_sealed w) w d)"

subsection \<open>Reading pending records\<close>

definition pendingReadWindow :: nat where
  "pendingReadWindow = 64 * 2 ^ 10"

text \<open>
  The read window: the first \<open>wlen\<close> bytes of the buffer are those of the file from \<open>wstart\<close> on
  (\<open>wlen = None\<close>: no window yet). \<open>fetch_window\<close> gives the buffer, the length and start of the window and the
  place of the header in it.
\<close>

definition fetch_window ::
  "'x os \<Rightarrow> string \<Rightarrow> nat \<Rightarrow> bytes \<Rightarrow> nat option \<Rightarrow> nat \<Rightarrow> nat \<Rightarrow> 'x disk
     \<Rightarrow> (goerr + bytes \<times> nat \<times> nat \<times> nat) \<times> 'x disk" where
  "fetch_window os path sz buf wlen wstart pos d =
     (if case wlen of None \<Rightarrow> True | Some wl \<Rightarrow> pos - wstart + recordHeaderSize > wl
      then let n = min (length buf) (sz - pos)
           in case file_ReadAt os path n pos d of
                (Inl e, d1) \<Rightarrow> (Inl e, d1)
              | (Inr got, d1) \<Rightarrow> (Inr (got @ drop n buf, n, pos, 0), d1)
      else (Inr (buf, the wlen, wstart, pos - wstart), d))"

definition fetch_payload ::
  "'x os \<Rightarrow> string \<Rightarrow> bytes \<Rightarrow> nat \<Rightarrow> nat \<Rightarrow> nat \<Rightarrow> nat \<Rightarrow> 'x disk \<Rightarrow> (goerr + bytes) \<times> 'x disk" where
  "fetch_payload os path buf wl rel n pos d =
     (let start = rel + recordHeaderSize
      in if start + n \<le> wl then (Inr (take n (drop start buf)), d)
         else file_ReadAt os path n (pos + recordHeaderSize) d)"

definition drop_acked :: "segmentRef \<Rightarrow> nat \<Rightarrow> nat \<Rightarrow> segmentRef" where
  "drop_acked seg pos nxt =
     (if pos \<in> set (sg_acked seg) \<and> pos = sg_pendingPosition seg
      then seg\<lparr>sg_acked := removeAll pos (sg_acked seg), sg_pendingPosition := nxt\<rparr> else seg)"

text \<open>The loop of \<^verbatim>\<open>readPendingSegment\<close>\<close>

function read_pending_loop ::
  "'x os \<Rightarrow> int \<Rightarrow> (Offset \<Rightarrow> bool) option \<Rightarrow> nat \<Rightarrow> bytes \<Rightarrow> nat option \<Rightarrow> nat \<Rightarrow> nat \<Rightarrow> segmentRef
     \<Rightarrow> wal_record list \<Rightarrow> 'x disk \<Rightarrow> (goerr option \<times> wal_record list) \<times> segmentRef \<times> bytes \<times> 'x disk" where
  "read_pending_loop os limit skip sz buf wlen wstart pos seg out d =
     (if pos < sz \<and> int (length out) < limit
      then case fetch_window os (sg_path seg) sz buf wlen wstart pos d of
        (Inl e, d1) \<Rightarrow> ((Some e, out), seg, buf, d1)
      | (Inr (buf1, wl, wstart1, rel), d1) \<Rightarrow>
          (let header = take recordHeaderSize (drop rel buf1);
               n = unat (Uint32 (take 4 header));
               nxt = pos + recordHeaderSize + n;
               off = \<lparr> of_SegmentID = sg_id seg, of_Position = pos \<rparr>
           in if n = 0 \<or> n > maxRecordBytes \<or> nxt > sz then ((Some ErrCorruptRecord, out), seg, buf1, d1)
              else if pos \<notin> set (sg_acked seg) \<and> (case skip of None \<Rightarrow> True | Some f \<Rightarrow> \<not> f off)
              then case fetch_payload os (sg_path seg) buf1 wl rel n pos d1 of
                     (Inl e, d2) \<Rightarrow> ((Some e, out), seg, buf1, d2)
                   | (Inr payload, d2) \<Rightarrow>
                       (if ChecksumIEEE payload \<noteq> Uint32 (drop 4 header)
                        then ((Some ErrCorruptRecord, out), seg, buf1, d2)
                        else read_pending_loop os limit skip sz buf1 (Some wl) wstart1 nxt seg
                               (out @ [(off, payload)]) d2)
              else read_pending_loop os limit skip sz buf1 (Some wl) wstart1 nxt (drop_acked seg pos nxt) out d1)
      else ((None, out), seg, buf, d))"
  by pat_completeness auto

termination read_pending_loop
  by (relation "measure (\<lambda>(os, limit, skip, sz, buf, wlen, wstart, pos, seg, out, d). sz - pos)")
    (simp_all only: in_measure prod.case recordHeaderSize_def, simp_all, linarith+)

declare read_pending_loop.simps [simp del]

definition readPendingSegment ::
  "'x os \<Rightarrow> int \<Rightarrow> (Offset \<Rightarrow> bool) option \<Rightarrow> bytes \<Rightarrow> segmentRef \<Rightarrow> wal_record list \<Rightarrow> 'x disk
     \<Rightarrow> (goerr option \<times> wal_record list) \<times> segmentRef \<times> bytes \<times> 'x disk" where
  "readPendingSegment os limit skip buf seg out d =
     (if sg_unacked seg = 0 then ((None, out), seg, buf, d)
      else case os_Open os (sg_path seg) d of
        (Some e, d1) \<Rightarrow> ((Some e, out), seg, buf, d1)
      | (None, d1) \<Rightarrow>
          read_pending_loop os limit skip (sg_size seg)
            (if buf = [] then replicate pendingReadWindow 0 else buf) None 0 (sg_pendingPosition seg) seg out d1)"

text \<open>The loop over the sealed segments; the boolean says that the limit is reached.\<close>

fun read_sealed ::
  "'x os \<Rightarrow> int \<Rightarrow> (Offset \<Rightarrow> bool) option \<Rightarrow> bytes \<Rightarrow> segmentRef list \<Rightarrow> wal_record list \<Rightarrow> 'x disk
     \<Rightarrow> (goerr option \<times> bool \<times> wal_record list) \<times> segmentRef list \<times> bytes \<times> 'x disk" where
  "read_sealed os limit skip buf [] out d = ((None, False, out), [], buf, d)"
| "read_sealed os limit skip buf (s # ss) out d =
     (case readPendingSegment os limit skip buf s out d of
        ((Some e, out1), s1, buf1, d1) \<Rightarrow> ((Some e, False, out1), s1 # ss, buf1, d1)
      | ((None, out1), s1, buf1, d1) \<Rightarrow>
          (if int (length out1) = limit then ((None, True, out1), s1 # ss, buf1, d1)
           else case read_sealed os limit skip buf1 ss out1 d1 of
                  (r, ss1, buf2, d2) \<Rightarrow> (r, s1 # ss1, buf2, d2)))"

definition ReadPending ::
  "'x os \<Rightarrow> int \<Rightarrow> (Offset \<Rightarrow> bool) option \<Rightarrow> WAL \<Rightarrow> 'x disk \<Rightarrow> (goerr + wal_record list) \<times> WAL \<times> 'x disk" where
  "ReadPending os limit skip w d =
     (if w_closed w then (Inl ErrClosed, w, d)
      else if limit \<le> 0 then (Inr [], w, d)
      else case read_sealed os limit skip (w_readBuf w) (w_sealed w) [] d of
        ((Some e, full, out), ss, buf, d1) \<Rightarrow> (Inl e, w\<lparr>w_sealed := ss, w_readBuf := buf\<rparr>, d1)
      | ((None, full, out), ss, buf, d1) \<Rightarrow>
          (let w1 = w\<lparr>w_sealed := ss, w_readBuf := buf\<rparr>
           in if full then (Inr out, w1, d1)
              else case w_active w of
                None \<Rightarrow> (Inr out, w1, d1)
              | Some seg \<Rightarrow>
                  (case readPendingSegment os limit skip buf seg out d1 of
                     ((e, out1), seg1, buf1, d2) \<Rightarrow>
                       (case e of None \<Rightarrow> Inr out1 | Some e \<Rightarrow> Inl e,
                        w1\<lparr>w_active := Some seg1, w_readBuf := buf1\<rparr>, d2))))"

subsection \<open>Syncing, closing and statistics\<close>

definition ErrFileClosed :: goerr where
  "ErrFileClosed = Sentinel ''os.ErrClosed'' ''file already closed'' []"

text \<open>
  \<^verbatim>\<open>fsyncOnce\<close> takes the handle of the active segment under the lock and syncs it outside: the segment
  may be another one by the time the result is in.
\<close>

definition fsync_capture :: "WAL \<Rightarrow> (nat \<times> string) option" where
  "fsync_capture w =
     (case w_active w of None \<Rightarrow> None | Some seg \<Rightarrow> if sg_file seg then Some (sg_id seg, sg_path seg) else None)"

definition fsync_finish :: "'x os \<Rightarrow> nat \<times> string \<Rightarrow> WAL \<Rightarrow> 'x disk \<Rightarrow> WAL \<times> 'x disk" where
  "fsync_finish os f w d =
     (case syscall os IoSync (snd f) d of
        (None, d1) \<Rightarrow> (w\<lparr>w_lastFsyncErr := None\<rparr>, d1)
      | (Some e, d1) \<Rightarrow>
          (let rotated = (case w_active w of None \<Rightarrow> True | Some seg \<Rightarrow> \<not> sg_file seg \<or> sg_id seg \<noteq> fst f)
           in if rotated \<and> err_is e ''os.ErrClosed'' then (w, d1) else (w\<lparr>w_lastFsyncErr := Some e\<rparr>, d1)))"

definition fsyncOnce :: "'x os \<Rightarrow> WAL \<Rightarrow> 'x disk \<Rightarrow> WAL \<times> 'x disk" where
  "fsyncOnce os w d = (case fsync_capture w of None \<Rightarrow> (w, d) | Some f \<Rightarrow> fsync_finish os f w d)"

definition Faulted :: "WAL \<Rightarrow> goerr option" where
  "Faulted w = w_lastFsyncErr w"

definition Sync :: "'x os \<Rightarrow> WAL \<Rightarrow> 'x disk \<Rightarrow> goerr option \<times> 'x disk" where
  "Sync os w d =
     (case w_active w of
        None \<Rightarrow> (None, d)
      | Some seg \<Rightarrow> (if sg_file seg then syscall os IoSync (sg_path seg) d else (None, d)))"

text \<open>
  \<^verbatim>\<open>Close\<close> up to the wait for a commit in flight (\<open>None\<close>: another caller closes), and from there on.
\<close>

definition Close_begin :: "'x os \<Rightarrow> WAL \<Rightarrow> 'x disk \<Rightarrow> (WAL \<times> 'x disk) option" where
  "Close_begin os w d =
     (if w_closing w then None
      else case fsyncOnce os (w\<lparr>w_closing := True\<rparr>) d of (w1, d1) \<Rightarrow> Some (w1\<lparr>w_closed := True\<rparr>, d1))"

definition close_file :: "'x os \<Rightarrow> segmentRef \<Rightarrow> 'x disk \<Rightarrow> goerr option list \<times> segmentRef \<times> 'x disk" where
  "close_file os seg d =
     (if sg_file seg
      then case syscall os IoSync (sg_path seg) d of (e1, d1) \<Rightarrow>
             (case syscall os IoClose (sg_path seg) d1 of (e2, d2) \<Rightarrow>
                ([Wrap e1 ''wal: final sync'', Wrap e2 ''wal: final close''], seg\<lparr>sg_file := False\<rparr>, d2))
      else ([], seg, d))"

definition Close_end :: "'x os \<Rightarrow> WAL \<Rightarrow> 'x disk \<Rightarrow> goerr option \<times> WAL \<times> 'x disk" where
  "Close_end os w d =
     (case w_active w of
        None \<Rightarrow> (errors_Join [], w, d)
      | Some seg \<Rightarrow>
          (case close_file os seg d of
             (errs, seg1, d1) \<Rightarrow>
               (if sg_unacked seg1 \<le> 0
                then case os_Remove os (sg_path seg1) d1 of
                       (e, d2) \<Rightarrow>
                         (errors_Join (errs @
                            [case e of None \<Rightarrow> None
                             | Some err \<Rightarrow> if err_is err ''os.ErrNotExist'' then None
                                          else Wrapf e (''wal: remove '' @ sg_path seg1)]),
                          w\<lparr>w_totalSz := w_totalSz w - int (sg_size seg1), w_active := None\<rparr>, d2)
                else (errors_Join errs, w\<lparr>w_active := Some seg1\<rparr>, d1))))"

record wal_stats =
  st_TotalBytes :: int
  st_Segments :: nat
  st_Pending :: int

definition Stats :: "WAL \<Rightarrow> wal_stats" where
  "Stats w =
     (let pending = sum_list (map sg_unacked (w_sealed w))
      in case w_active w of
           Some seg \<Rightarrow> \<lparr> st_TotalBytes = w_totalSz w, st_Segments = 1 + length (w_sealed w), st_Pending = pending + sg_unacked seg \<rparr>
         | None \<Rightarrow> \<lparr> st_TotalBytes = w_totalSz w, st_Segments = length (w_sealed w), st_Pending = pending \<rparr>)"

subsection \<open>Concurrent callers\<close>

text \<open>
  The log with its batches: \<open>sy_cur\<close> accumulates, \<open>sy_flight\<close> is the batch that a leader writes and the index
  of its next record.
\<close>

record 'x walsys =
  sy_wal :: WAL
  sy_disk :: "'x disk"
  sy_cur :: appendBatch
  sy_flight :: "(appendBatch \<times> nat) option"

text \<open>What a step does to the records that wait for their acknowledgement.\<close>

datatype wal_event = Published "wal_record list" | Acked Offset | Silent

text \<open>The records of a batch in \<open>[i, j)\<close> that were written, as their \<^verbatim>\<open>Append\<close> calls report them.\<close>

definition batch_payload :: "appendBatch \<Rightarrow> nat \<Rightarrow> bytes" where
  "batch_payload b k =
     take (batch_size b k - recordHeaderSize) (drop (ab_starts b ! k + recordHeaderSize) (ab_buf b))"

definition batch_results :: "appendBatch \<Rightarrow> nat \<Rightarrow> nat \<Rightarrow> wal_record list" where
  "batch_results b i j =
     map (\<lambda>k. (fst (Append_result b k), batch_payload b k)) (filter (\<lambda>k. snd (Append_result b k) = None) [i..<j])"

end
