(* ===== verification/WalFormat.thy ===== *)
theory WalFormat
  imports WalModel
begin

text \<open>
  The record format of the log: encoding and decoding of records, the checksum, and what reading a
  segment returns.
\<close>

unbundle bit_operations_syntax

subsection \<open>Numbers\<close>

lemma length_AppendUint32 [simp]: "length (AppendUint32 v) = 4"
  by (simp add: AppendUint32_def)

lemma Uint32_AppendUint32 [simp]: "Uint32 (AppendUint32 v) = v"
proof (rule bit_word_eqI)
  fix n
  assume "n < LENGTH(32)"
  then have "n < 8 \<or> (8 \<le> n \<and> n < 16) \<or> (16 \<le> n \<and> n < 24) \<or> (24 \<le> n \<and> n < 32)"
    by auto
  then show "bit (Uint32 (AppendUint32 v)) n = bit v n"
    by (auto simp: Uint32_def AppendUint32_def bit_simps)
qed

subsection \<open>Checksum\<close>

lemma drop_bit_1_inj:
  fixes a b :: "32 word"
  assumes "drop_bit 1 a = drop_bit 1 b" "bit a 0 = bit b 0"
  shows "a = b"
proof (rule bit_word_eqI)
  fix n
  show "bit a n = bit b n"
    using arg_cong [OF assms(1), of "\<lambda>c. bit c (n - 1)"] assms(2)
    by (cases n) (auto simp: bit_simps)
qed

text \<open>The top bit of the polynomial is set, so a step of the division loses nothing.\<close>

lemma crc_bit_31: "bit (crc_bit c) 31 = bit c 0"
  by (auto simp: crc_bit_def bit_simps dest: bit_imp_le_length)

lemma xor_right_cancel:
  fixes a b k :: "32 word"
  shows "a XOR k = b XOR k \<longleftrightarrow> a = b"
proof
  assume "a XOR k = b XOR k"
  then have "(a XOR k) XOR k = (b XOR k) XOR k"
    by (rule arg_cong)
  then show "a = b"
    by (simp add: xor.assoc)
qed simp

lemma ucast_byte_inj: "(ucast b :: 32 word) = ucast c \<longleftrightarrow> b = c" for b c :: "8 word"
proof
  assume eq: "(ucast b :: 32 word) = ucast c"
  show "b = c"
  proof (rule bit_word_eqI)
    fix n
    assume "n < LENGTH(8)"
    then show "bit b n = bit c n"
      using arg_cong [OF eq, of "\<lambda>v. bit v n"] by (simp add: bit_simps)
  qed
qed simp

lemma crc_bit_inj: "inj crc_bit"
proof (rule injI)
  fix a b
  assume eq: "crc_bit a = crc_bit b"
  then have top: "bit a 0 = bit b 0"
    using crc_bit_31 [of a] crc_bit_31 [of b] by simp
  then have "drop_bit 1 a = drop_bit 1 b"
    using eq xor_right_cancel [of "drop_bit 1 a" "0xEDB88320" "drop_bit 1 b"]
    unfolding crc_bit_def by (simp split: if_splits)
  then show "a = b"
    using top by (rule drop_bit_1_inj)
qed

lemma crc_byte_inj: "crc_byte a p = crc_byte b q \<longleftrightarrow> a XOR ucast p = b XOR ucast q"
  by (simp only: crc_byte_def inj_eq [OF inj_fn [OF crc_bit_inj]])

lemma foldl_crc_byte_inj: "foldl crc_byte a bs = foldl crc_byte b bs \<longleftrightarrow> a = b"
  by (induction bs arbitrary: a b) (simp_all add: crc_byte_inj xor_right_cancel)

text \<open>A changed byte changes the checksum.\<close>

lemma ChecksumIEEE_detects_byte:
  assumes "b \<noteq> c"
  shows "ChecksumIEEE (pre @ b # post) \<noteq> ChecksumIEEE (pre @ c # post)"
proof -
  let ?s = "foldl crc_byte (NOT 0) pre"
  have "?s XOR ucast b \<noteq> ?s XOR (ucast c :: 32 word)"
  proof
    assume "?s XOR ucast b = ?s XOR ucast c"
    then have "(ucast b :: 32 word) = ucast c"
      using xor_right_cancel [of "ucast b" ?s "ucast c"] by (simp add: xor.commute)
    with assms show False
      by (simp add: ucast_byte_inj)
  qed
  then have "crc_byte ?s b \<noteq> crc_byte ?s c"
    by (simp add: crc_byte_inj)
  then have "foldl crc_byte (NOT 0) (pre @ b # post) \<noteq> foldl crc_byte (NOT 0) (pre @ c # post)"
    by (simp add: foldl_crc_byte_inj)
  then show ?thesis
    by (simp add: ChecksumIEEE_def)
qed

text \<open>The check value of the algorithm: the checksum of the digits 1 to 9.\<close>

lemma crc_byte_code:
  "crc_byte c b = crc_bit (crc_bit (crc_bit (crc_bit (crc_bit (crc_bit (crc_bit (crc_bit (c XOR ucast b))))))))"
  by (simp add: crc_byte_def eval_nat_numeral)

lemma ChecksumIEEE_code: "ChecksumIEEE bs = foldl crc_byte 0xFFFFFFFF bs XOR 0xFFFFFFFF"
proof -
  have ones: "NOT 0 = (0xFFFFFFFF :: 32 word)" "- 1 = (0xFFFFFFFF :: 32 word)"
    by simp_all
  have "NOT v = v XOR 0xFFFFFFFF" for v :: "32 word"
    unfolding ones(2) [symmetric] by simp
  then show ?thesis
    by (simp add: ChecksumIEEE_def)
qed

lemmas checksum_eval = ChecksumIEEE_code crc_byte_code crc_bit_def

lemma ChecksumIEEE_check_value:
  "ChecksumIEEE [0x31, 0x32, 0x33, 0x34, 0x35, 0x36, 0x37, 0x38, 0x39] = 0xCBF43926"
  by (simp add: checksum_eval)

subsection \<open>Records\<close>

definition valid_payload :: "bytes \<Rightarrow> bool" where
  "valid_payload p \<longleftrightarrow> 0 < length p \<and> length p \<le> maxRecordBytes"

abbreviation encode_all :: "bytes list \<Rightarrow> bytes" where
  "encode_all ps \<equiv> concat (map encode_record ps)"

text \<open>Payloads with the positions of their records.\<close>

fun place :: "nat \<Rightarrow> bytes list \<Rightarrow> (nat \<times> bytes) list" where
  "place pos [] = []"
| "place pos (p # ps) = (pos, p) # place (pos + recordHeaderSize + length p) ps"

text \<open>The payloads of the records at the start of a file, without system calls.\<close>

function decode_all :: "bytes \<Rightarrow> bytes list" where
  "decode_all f =
     (let n = unat (Uint32 (take 4 f)); rest = drop recordHeaderSize f
      in if length f < recordHeaderSize \<or> n = 0 \<or> n > maxRecordBytes \<or> length rest < n
            \<or> ChecksumIEEE (take n rest) \<noteq> Uint32 (take 4 (drop 4 f)) then []
         else take n rest # decode_all (drop n rest))"
  by pat_completeness auto

termination decode_all
  by (relation "measure length") (auto simp: recordHeaderSize_def)

declare decode_all.simps [simp del]

lemma length_encode_record [simp]: "length (encode_record p) = recordHeaderSize + length p"
  by (simp add: encode_record_def recordHeaderSize_def)

lemma place_append: "place pos (ps @ qs) = place pos ps @ place (pos + length (encode_all ps)) qs"
  by (induction ps arbitrary: pos) (simp_all add: add.assoc)

lemma encode_all_take_drop:
  "i \<le> j \<Longrightarrow> encode_all (take j ps) = encode_all (take i ps) @ encode_all (take (j - i) (drop i ps))"
  by (metis concat_append map_append take_add le_add_diff_inverse)

lemma map_snd_place [simp]: "map snd (place pos ps) = ps"
  by (induction ps arbitrary: pos) simp_all

lemma length_place [simp]: "length (place pos ps) = length ps"
  by (induction ps arbitrary: pos) simp_all

lemma place_positions:
  "(q, p) \<in> set (place pos ps) \<Longrightarrow> pos \<le> q \<and> q + recordHeaderSize + length p \<le> pos + length (encode_all ps)"
  by (induction ps arbitrary: pos) fastforce+

lemma place_sorted: "sorted_wrt (<) (map fst (place pos ps))"
proof (induction ps arbitrary: pos)
  case (Cons p ps)
  then show ?case
    using place_positions [of _ _ "pos + recordHeaderSize + length p" ps]
    by (fastforce simp: recordHeaderSize_def)
qed simp

lemma place_distinct: "distinct (map fst (place pos ps))"
  using place_sorted [of pos ps] by (simp add: strict_sorted_iff)

text \<open>The header and payload of an encoded record.\<close>

lemma unat_length_payload:
  assumes "valid_payload p"
  shows "unat (of_nat (length p) :: 32 word) = length p"
  using assms by (simp add: unat_of_nat valid_payload_def maxRecordBytes_def)

lemma encode_record_parts:
  assumes "valid_payload p"
  shows "unat (Uint32 (take 4 (encode_record p @ t))) = length p"
    "Uint32 (take 4 (drop 4 (encode_record p @ t))) = ChecksumIEEE p"
    "drop recordHeaderSize (encode_record p @ t) = p @ t"
  using assms by (simp_all add: encode_record_def recordHeaderSize_def unat_length_payload)

lemma decode_encode_record:
  assumes "valid_payload p"
  shows "decode_all (encode_record p @ t) = p # decode_all t"
  by (subst decode_all.simps)
    (use assms in \<open>simp only: Let_def encode_record_parts [OF assms], simp add: valid_payload_def\<close>)

lemma decode_encode_all:
  assumes "list_all valid_payload ps"
  shows "decode_all (encode_all ps @ t) = ps @ decode_all t"
  using assms by (induction ps) (simp_all add: decode_encode_record)

lemma decode_all_Nil [simp]: "decode_all [] = []"
  by (subst decode_all.simps) (simp add: recordHeaderSize_def)

lemmas decode_encode_all_exact = decode_encode_all [of _ "[]", simplified]

text \<open>What decodes was encoded so: a file is its records and a tail.\<close>

lemma AppendUint32_Uint32:
  assumes "length a = 4"
  shows "AppendUint32 (Uint32 a) = a"
proof -
  obtain b0 b1 b2 b3 where a: "a = [b0, b1, b2, b3]"
    using assms by (auto simp: eval_nat_numeral length_Suc_conv)
  have byte: "ucast (drop_bit k (Uint32 a)) = b"
    if "\<And>n. n < 8 \<Longrightarrow> bit (Uint32 a) (k + n) = bit b n" "k \<le> 24" for k and b :: "8 word"
    by (rule bit_word_eqI) (use that in \<open>simp add: bit_simps\<close>)
  have bits: "bit (Uint32 a) n =
      (if n < 8 then bit b0 n else if n < 16 then bit b1 (n - 8) else if n < 24 then bit b2 (n - 16)
       else bit b3 (n - 24))" if "n < 32" for n
    using that unfolding a Uint32_def by (auto simp: bit_simps dest: bit_imp_le_length)
  have "ucast (drop_bit 0 (Uint32 a)) = b0" "ucast (drop_bit 8 (Uint32 a)) = b1"
    "ucast (drop_bit 16 (Uint32 a)) = b2" "ucast (drop_bit 24 (Uint32 a)) = b3"
    by (rule byte; simp add: bits)+
  then show ?thesis
    by (simp add: AppendUint32_def a)
qed

lemma record_at_start:
  assumes "recordHeaderSize \<le> length f" "n = unat (Uint32 (take 4 f))" "0 < n" "n \<le> maxRecordBytes"
    "n \<le> length (drop recordHeaderSize f)"
    "ChecksumIEEE (take n (drop recordHeaderSize f)) = Uint32 (take 4 (drop 4 f))"
  shows "valid_payload (take n (drop recordHeaderSize f))"
    "f = encode_record (take n (drop recordHeaderSize f)) @ drop n (drop recordHeaderSize f)"
proof -
  let ?p = "take n (drop recordHeaderSize f)"
  have len: "length ?p = n"
    using assms by simp
  with assms show "valid_payload ?p"
    by (simp add: valid_payload_def)
  have a: "AppendUint32 (of_nat (length ?p)) = take 4 f"
    unfolding len using assms(1,2) AppendUint32_Uint32 [of "take 4 f"] by (simp add: recordHeaderSize_def)
  have b: "AppendUint32 (ChecksumIEEE ?p) = take 4 (drop 4 f)"
    unfolding assms(6) using assms(1) by (intro AppendUint32_Uint32) (simp add: recordHeaderSize_def)
  have "f = take 4 f @ take 4 (drop 4 f) @ drop 8 f"
    using append_take_drop_id [of 4 f] append_take_drop_id [of 4 "drop 4 f"] by simp
  then have "f = take 4 f @ take 4 (drop 4 f) @ ?p @ drop n (drop recordHeaderSize f)"
    by (simp only: append_take_drop_id recordHeaderSize_def)
  then show "f = encode_record ?p @ drop n (drop recordHeaderSize f)"
    unfolding encode_record_def a b append_assoc .
qed

text \<open>Reading returns records of the file from its start, whatever faults occur.\<close>

lemma read_records_prefix:
  assumes "read_records os path f off x = ((recs, valid), x1)"
  shows "\<exists>ps t. list_all valid_payload ps \<and> recs = place off ps \<and> valid = off + length (encode_all ps)
    \<and> f = encode_all ps @ t"
  using assms
proof (induction os path f off x arbitrary: recs valid x1 rule: read_records.induct)
  case (1 os path f off x)
  obtain e y where e: "os_err os IoRead path x = (e, y)"
    by fastforce
  obtain e2 z where e2: "os_err os IoRead path y = (e2, z)"
    by fastforce
  let ?n = "unat (Uint32 (take 4 f))" and ?rest = "drop recordHeaderSize f"
  let ?p = "take ?n ?rest"
  obtain recs2 valid2 x2 where rec:
    "read_records os path (drop ?n ?rest) (off + recordHeaderSize + ?n) z = ((recs2, valid2), x2)"
    by (metis surj_pair)
  show ?case
  proof (cases "e = None \<and> recordHeaderSize \<le> length f \<and> 0 < ?n \<and> ?n \<le> maxRecordBytes \<and> e2 = None
      \<and> ?n \<le> length ?rest \<and> ChecksumIEEE ?p = Uint32 (take 4 (drop 4 f))")
    case True
    have out: "recs = (off, ?p) # recs2" "valid = valid2"
      using "1.prems" True rec by (subst (asm) read_records.simps, simp add: Let_def e e2)+
    obtain ps t where "list_all valid_payload ps" "recs2 = place (off + recordHeaderSize + ?n) ps"
      "valid2 = off + recordHeaderSize + ?n + length (encode_all ps)" "drop ?n ?rest = encode_all ps @ t"
      using "1.IH" [OF e [symmetric] refl _ refl refl _ refl e2 [symmetric] refl _ refl _ rec] True by auto
    moreover have "valid_payload ?p" "f = encode_record ?p @ drop ?n ?rest" "length ?p = ?n"
      using record_at_start [of f ?n] True by auto
    ultimately have "list_all valid_payload (?p # ps) \<and> recs = place off (?p # ps)
        \<and> valid = off + length (encode_all (?p # ps)) \<and> f = encode_all (?p # ps) @ t"
      using out by simp
    then show ?thesis
      by blast
  next
    case False
    then have "recs = [] \<and> valid = off"
      using "1.prems" by (subst (asm) read_records.simps) (auto simp: Let_def e e2 split: if_splits)
    then show ?thesis
      by (intro exI [of _ "[]"] exI [of _ f]) simp
  qed
qed

lemma read_records_no_faults:
  assumes "\<And>y. fst (os_err os IoRead path y) = None"
  shows "fst (read_records os path f off x) = (place off (decode_all f), off + length (encode_all (decode_all f)))"
  using assms
proof (induction os path f off x rule: read_records.induct)
  case (1 os path f off x)
  obtain y where e: "os_err os IoRead path x = (None, y)"
    using "1.prems" by (metis prod.collapse)
  obtain z where e2: "os_err os IoRead path y = (None, z)"
    using "1.prems" by (metis prod.collapse)
  let ?n = "unat (Uint32 (take 4 f))" and ?rest = "drop recordHeaderSize f"
  let ?p = "take ?n ?rest"
  show ?case
  proof (cases "recordHeaderSize \<le> length f \<and> 0 < ?n \<and> ?n \<le> maxRecordBytes
      \<and> ?n \<le> length ?rest \<and> ChecksumIEEE ?p = Uint32 (take 4 (drop 4 f))")
    case True
    have "fst (read_records os path (drop ?n ?rest) (off + recordHeaderSize + ?n) z) =
        (place (off + recordHeaderSize + ?n) (decode_all (drop ?n ?rest)),
         off + recordHeaderSize + ?n + length (encode_all (decode_all (drop ?n ?rest))))"
      using "1.IH" [OF e [symmetric] refl _ refl refl _ refl e2 [symmetric] refl _ refl] True "1.prems" by simp
    moreover have "decode_all f = ?p # decode_all (drop ?n ?rest)"
      using True by (subst decode_all.simps) (simp add: Let_def)
    moreover have "length ?p = ?n"
      using True by simp
    moreover have "read_records os path f off x =
        (case read_records os path (drop ?n ?rest) (off + recordHeaderSize + ?n) z of
           ((recs, valid), x3) \<Rightarrow> (((off, ?p) # recs, valid), x3))"
      using True by (subst read_records.simps) (simp add: Let_def e e2 split: prod.splits)
    ultimately show ?thesis
      by (simp add: case_prod_unfold)
  next
    case False
    then have "decode_all f = []"
      by (subst decode_all.simps) (auto simp: Let_def)
    moreover have "fst (read_records os path f off x) = ([], off)"
      using False by (subst read_records.simps) (auto simp: Let_def e e2)
    ultimately show ?thesis
      by simp
  qed
qed

text \<open>A torn write leaves the records that are complete.\<close>

lemma decode_torn_record:
  assumes "valid_payload p" "k < length (encode_record p)"
  shows "decode_all (take k (encode_record p)) = []"
proof (cases "recordHeaderSize \<le> k")
  case True
  then have "take 4 (take k (encode_record p)) = take 4 (encode_record p)"
    by (simp add: min_def recordHeaderSize_def)
  then have "unat (Uint32 (take 4 (take k (encode_record p)))) = length p"
    using encode_record_parts(1) [OF assms(1), of "[]"] by simp
  then show ?thesis
    using assms True by (subst decode_all.simps) (auto simp: Let_def)
next
  case False
  then show ?thesis
    using assms by (subst decode_all.simps) (auto simp: Let_def)
qed

lemma decode_torn:
  assumes "list_all valid_payload ps"
  shows "\<exists>m \<le> length ps. decode_all (take k (encode_all ps)) = take m ps"
  using assms
proof (induction ps arbitrary: k)
  case (Cons p ps)
  show ?case
  proof (cases "k < length (encode_record p)")
    case True
    then have "decode_all (take k (encode_all (p # ps))) = []"
      using decode_torn_record [of p k] Cons.prems by simp
    then show ?thesis
      by (intro exI [of _ 0]) simp
  next
    case False
    obtain m where "m \<le> length ps" "decode_all (take (k - length (encode_record p)) (encode_all ps)) = take m ps"
      using Cons by auto
    moreover have "decode_all (take k (encode_all (p # ps))) =
        p # decode_all (take (k - length (encode_record p)) (encode_all ps))"
      using False Cons.prems decode_encode_record [of p] by simp
    ultimately show ?thesis
      by (intro exI [of _ "Suc m"]) simp
  qed
qed simp

end
