(* ===== verification/WalInv.thy ===== *)
theory WalInv
  imports WalFormat
begin

text \<open>
  The invariant of the write-ahead log, what each of its operations keeps of it, and the abstract log:
  the records that wait for their acknowledgement, in append order.
\<close>

subsection \<open>Segment names\<close>

lemma digits_value_zeros [simp]: "digits_value (replicate n (CHR ''0'') @ s) = digits_value s"
  by (induction n) (simp_all add: digits_value_def)

lemma CutSuffix_append [simp]: "CutSuffix (s @ t) t = Some s"
  by (simp add: CutSuffix_def)

lemma segment_id_name: "segment_id (segment_name i) = (if i < 2 ^ 64 then Some i else None)"
proof -
  let ?s = "replicate (20 - length (nat_digits i)) (CHR ''0'') @ nat_digits i"
  have "segment_name i = ?s @ ''.wal''"
    by (simp add: segment_name_def Let_def)
  moreover have "nat_digits i \<noteq> []"
    by (subst nat_digits.simps) simp
  moreover have "list_all (\<lambda>c. of_char c \<in> {48..57 :: nat}) ?s"
    using nat_digits_range [of _ i] by (auto simp: list_all_iff)
  ultimately show ?thesis
    by (simp add: segment_id_def ParseUint_def nat_digits_value del: append_assoc)
qed

lemma segment_name_inj [simp]: "segment_name i = segment_name j \<longleftrightarrow> i = j"
proof
  assume "segment_name i = segment_name j"
  then have "replicate (20 - length (nat_digits i)) (CHR ''0'') @ nat_digits i =
      replicate (20 - length (nat_digits j)) (CHR ''0'') @ nat_digits j"
    by (simp add: segment_name_def Let_def)
  then have "digits_value (nat_digits i) = digits_value (nat_digits j)"
    using digits_value_zeros by metis
  then show "i = j"
    by (simp add: nat_digits_value)
qed simp

lemma segment_name_ne_Nil [simp]: "segment_name i \<noteq> []" "[] \<noteq> segment_name i"
  by (simp_all add: segment_name_def Let_def)

subsection \<open>System calls\<close>

text \<open>
  What the operations may do to the directory: remove files, change the data of files, and create
  segments of their own.
\<close>

definition dir_evolves :: "bool \<Rightarrow> (string, wal_file) gomap \<Rightarrow> (string, wal_file) gomap \<Rightarrow> bool" where
  "dir_evolves insecure fs fs' \<longleftrightarrow>
     (gm_wf fs \<longrightarrow> gm_wf fs') \<and> gm_get fs' '''' = gm_get fs '''' \<and>
     (\<forall>name c'. gm_get fs' name = Some c' \<longrightarrow>
        (\<exists>c. gm_get fs name = Some c \<and> fl_kind c' = fl_kind c \<and> fl_mode c' = fl_mode c) \<or>
        (\<exists>i > 0. name = segment_name i \<and> fl_kind c' = Regular \<and> (insecure \<or> fl_mode c' mod 64 = 0)))"

lemma dir_evolves_refl [simp, intro]: "dir_evolves insecure fs fs"
  by (simp add: dir_evolves_def)

lemma dir_evolves_trans [trans]:
  assumes "dir_evolves insecure fs1 fs2" "dir_evolves insecure fs2 fs3"
  shows "dir_evolves insecure fs1 fs3"
proof -
  have "(\<exists>c. gm_get fs1 name = Some c \<and> fl_kind c' = fl_kind c \<and> fl_mode c' = fl_mode c) \<or>
        (\<exists>i > 0. name = segment_name i \<and> fl_kind c' = Regular \<and> (insecure \<or> fl_mode c' mod 64 = 0))"
    if "gm_get fs3 name = Some c'" for name c'
  proof -
    from assms(2) that consider
      (old) c where "gm_get fs2 name = Some c" "fl_kind c' = fl_kind c" "fl_mode c' = fl_mode c"
      | (new) "\<exists>i > 0. name = segment_name i \<and> fl_kind c' = Regular \<and> (insecure \<or> fl_mode c' mod 64 = 0)"
      unfolding dir_evolves_def by blast
    then show ?thesis
    proof cases
      case old
      have "(\<exists>c0. gm_get fs1 name = Some c0 \<and> fl_kind c = fl_kind c0 \<and> fl_mode c = fl_mode c0) \<or>
        (\<exists>i > 0. name = segment_name i \<and> fl_kind c = Regular \<and> (insecure \<or> fl_mode c mod 64 = 0))"
        using assms(1) old(1) unfolding dir_evolves_def by blast
      then show ?thesis
        using old by auto
    qed blast
  qed
  then show ?thesis
    using assms unfolding dir_evolves_def by simp
qed

lemma fst_syscall: "syscall os op name d = (e, d1) \<Longrightarrow> fst d1 = fst d"
  by (auto simp: syscall_def split: prod.splits)

lemma fst_snd_syscall [simp]: "fst (snd (syscall os op name d)) = fst d"
  by (auto simp: syscall_def split: prod.splits)

lemma on_file_get:
  "gm_get (fst (on_file name f d)) n = (if n = name then map_option f (gm_get (fst d) n) else gm_get (fst d) n)"
  by (auto simp: on_file_def split: prod.splits option.splits)

lemma dir_evolves_on_file:
  assumes "\<And>c. fl_kind (f c) = fl_kind c \<and> fl_mode (f c) = fl_mode c" "name \<noteq> ''''"
  shows "dir_evolves insecure (fst d) (fst (on_file name f d))"
  using assms unfolding dir_evolves_def on_file_get
  by (auto simp: on_file_def split: prod.splits option.splits)

lemma os_Remove_get:
  assumes "n \<noteq> name"
  shows "gm_get (fst (snd (os_Remove os name d))) n = gm_get (fst d) n"
  using assms by (auto simp: os_Remove_def dest!: fst_syscall split: prod.splits option.splits)

lemma dir_evolves_os_Remove:
  assumes "name \<noteq> ''''"
  shows "dir_evolves insecure (fst d) (fst (snd (os_Remove os name d)))"
  using assms unfolding dir_evolves_def
  by (auto simp: os_Remove_def dest!: fst_syscall split: prod.splits option.splits if_splits)

lemma os_Create_ok:
  assumes "os_Create os name mode d = (None, d1)"
  shows "gm_get (fst d) name = None"
    "fst d1 = gm_put name \<lparr> fl_kind = Regular, fl_data = [], fl_mode = mode \<rparr> (fst d)"
  using assms by (auto simp: os_Create_def dest!: fst_syscall split: prod.splits option.splits if_splits)

lemma os_Create_failed:
  assumes "os_Create os name mode d = (Some e, d1)"
  shows "fst d1 = fst d"
  using assms by (auto simp: os_Create_def dest!: fst_syscall split: prod.splits option.splits if_splits)

lemma os_Truncate_effect:
  assumes "os_Truncate os name n d = (e, d1)"
  shows "gm_get (fst d1) = (if e = None then gm_get (fst (on_file name
            (\<lambda>c. c\<lparr>fl_data := take n (fl_data c) @ replicate (n - length (fl_data c)) 0\<rparr>) d)) else gm_get (fst d))"
    "name \<noteq> '''' \<Longrightarrow> dir_evolves insecure (fst d) (fst d1)"
proof -
  define d2 where "d2 = snd (syscall os IoTruncate name d)"
  have d2: "fst d2 = fst d"
    by (simp add: d2_def)
  have d1: "d1 = (if e = None then on_file name
      (\<lambda>c. c\<lparr>fl_data := take n (fl_data c) @ replicate (n - length (fl_data c)) 0\<rparr>) d2 else d2)"
    using assms by (auto simp: os_Truncate_def d2_def split: prod.splits option.splits if_splits)
  show "gm_get (fst d1) = (if e = None then gm_get (fst (on_file name
            (\<lambda>c. c\<lparr>fl_data := take n (fl_data c) @ replicate (n - length (fl_data c)) 0\<rparr>) d)) else gm_get (fst d))"
    unfolding d1 using d2 by (auto simp: on_file_get)
  show "dir_evolves insecure (fst d) (fst d1)" if "name \<noteq> ''''"
    using that unfolding d1 d2 [symmetric] by (auto intro!: dir_evolves_on_file)
qed

lemma file_Write_effect:
  assumes "file_Write os name p d = ((n, e), d1)"
  shows "n \<le> length p" "e = None \<Longrightarrow> n = length p"
    "gm_get (fst d1) = gm_get (fst (on_file name (\<lambda>c. c\<lparr>fl_data := fl_data c @ take n p\<rparr>) d))"
    "name \<noteq> '''' \<Longrightarrow> dir_evolves insecure (fst d) (fst d1)"
proof -
  obtain fs x where d: "d = (fs, x)"
    by fastforce
  obtain m e0 x1 where w: "os_write os name (length p) x = ((m, e0), x1)"
    by (metis surj_pair)
  show n: "n \<le> length p" "e = None \<Longrightarrow> n = length p"
    using assms by (auto simp: file_Write_def d w Let_def split: if_splits)
  have d1: "d1 = on_file name (\<lambda>c. c\<lparr>fl_data := fl_data c @ take n p\<rparr>) (fs, x1)"
    using assms by (auto simp: file_Write_def d w Let_def)
  show "gm_get (fst d1) = gm_get (fst (on_file name (\<lambda>c. c\<lparr>fl_data := fl_data c @ take n p\<rparr>) d))"
    by (auto simp: d1 d on_file_get)
  show "dir_evolves insecure (fst d) (fst d1)" if "name \<noteq> ''''"
    using dir_evolves_on_file [of "\<lambda>c. c\<lparr>fl_data := fl_data c @ take n p\<rparr>" name insecure "(fs, x1)"] that
    by (simp add: d1 d)
qed

subsection \<open>Invariant and abstract log\<close>

text \<open>
  A segment holds the records of \<open>ps\<close>, of which the first \<open>m\<close> are acknowledged and dropped from the set of
  acknowledged positions; behind them the file may hold the rest of a write that was not undone.
\<close>

definition seg_rep :: "'x disk \<Rightarrow> segmentRef \<Rightarrow> bytes list \<Rightarrow> nat \<Rightarrow> bool" where
  "seg_rep d seg ps m \<longleftrightarrow>
     sg_path seg = segment_name (sg_id seg) \<and> 0 < sg_id seg \<and>
     gm_get (fst d) (sg_path seg) \<noteq> None \<and>
     (\<exists>t. file_data d (sg_path seg) = encode_all ps @ t \<and> (sg_file seg \<longrightarrow> t = [])) \<and>
     list_all valid_payload ps \<and> sg_size seg = length (encode_all ps) \<and> sg_records seg = length ps \<and>
     m \<le> length ps \<and> sg_pendingPosition seg = length (encode_all (take m ps)) \<and>
     distinct (sg_acked seg) \<and> set (sg_acked seg) \<subseteq> fst ` set (place (sg_pendingPosition seg) (drop m ps)) \<and>
     sg_unacked seg = int (length ps - m) - int (length (sg_acked seg))"

definition seg_inv :: "'x disk \<Rightarrow> segmentRef \<Rightarrow> bool" where
  "seg_inv d seg \<longleftrightarrow> (\<exists>ps m. seg_rep d seg ps m)"

text \<open>The records of a segment, and those that wait.\<close>

definition seg_records :: "'x disk \<Rightarrow> segmentRef \<Rightarrow> (nat \<times> bytes) list" where
  "seg_records d seg = place 0 (decode_all (take (sg_size seg) (file_data d (sg_path seg))))"

definition seg_log :: "'x disk \<Rightarrow> segmentRef \<Rightarrow> wal_record list" where
  "seg_log d seg =
     with_offsets (sg_id seg)
       (filter (\<lambda>(pos, p). sg_pendingPosition seg \<le> pos \<and> pos \<notin> set (sg_acked seg)) (seg_records d seg))"

definition wal_segs :: "WAL \<Rightarrow> segmentRef list" where
  "wal_segs w = w_sealed w @ (case w_active w of None \<Rightarrow> [] | Some seg \<Rightarrow> [seg])"

definition wal_log :: "WAL \<Rightarrow> 'x disk \<Rightarrow> wal_record list" where
  "wal_log w d = concat (map (seg_log d) (wal_segs w))"

definition wal_inv :: "WAL \<Rightarrow> 'x disk \<Rightarrow> bool" where
  "wal_inv w d \<longleftrightarrow>
     (\<forall>seg \<in> set (wal_segs w). seg_inv d seg \<and> sg_id seg < w_nextID w) \<and> 0 < w_nextID w \<and>
     sorted_wrt (<) (map sg_id (wal_segs w)) \<and>
     (\<forall>seg \<in> set (w_sealed w). \<not> sg_file seg \<and> sg_unacked seg > 0) \<and>
     w_totalSz w = int (sum_list (map sg_size (wal_segs w))) \<and>
     (w_readBuf w = [] \<or> length (w_readBuf w) = pendingReadWindow)"

lemma file_data_cong: "gm_get (fst d') name = gm_get (fst d) name \<Longrightarrow> file_data d' name = file_data d name"
  by (simp add: file_data_def)

lemma seg_rep_frame:
  assumes "gm_get (fst d') (sg_path seg) = gm_get (fst d) (sg_path seg)"
  shows "seg_rep d' seg ps m = seg_rep d seg ps m"
  using assms file_data_cong [OF assms] by (simp add: seg_rep_def)

lemma seg_inv_frame:
  assumes "gm_get (fst d') (sg_path seg) = gm_get (fst d) (sg_path seg)"
  shows "seg_inv d' seg = seg_inv d seg"
  using seg_rep_frame [OF assms] by (simp add: seg_inv_def)

lemma seg_log_frame:
  assumes "gm_get (fst d') (sg_path seg) = gm_get (fst d) (sg_path seg)"
  shows "seg_log d' seg = seg_log d seg"
  using file_data_cong [OF assms] by (simp add: seg_log_def seg_records_def)

lemma seg_records_rep:
  assumes "seg_rep d seg ps m"
  shows "seg_records d seg = place 0 ps"
  using assms decode_encode_all_exact [of ps] by (auto simp: seg_rep_def seg_records_def)

lemma place_split: "m \<le> length ps \<Longrightarrow> place pos ps =
    place pos (take m ps) @ place (pos + length (encode_all (take m ps))) (drop m ps)"
  using place_append [of pos "take m ps" "drop m ps"] by simp

lemma filter_place_from:
  assumes "m \<le> length ps"
  shows "filter (\<lambda>(pos, p). length (encode_all (take m ps)) \<le> pos \<and> P pos) (place 0 ps) =
    filter (\<lambda>(pos, p). P pos) (place (length (encode_all (take m ps))) (drop m ps))"
proof -
  let ?k = "length (encode_all (take m ps))"
  have "filter (\<lambda>(pos, p). ?k \<le> pos \<and> P pos) (place 0 (take m ps)) = []"
    using place_positions [of _ _ 0 "take m ps"] by (fastforce simp: filter_empty_conv recordHeaderSize_def)
  moreover have "filter (\<lambda>(pos, p). ?k \<le> pos \<and> P pos) (place ?k (drop m ps)) =
      filter (\<lambda>(pos, p). P pos) (place ?k (drop m ps))"
    using place_positions [of _ _ ?k "drop m ps"] by (intro filter_cong) auto
  ultimately show ?thesis
    using place_split [OF assms, of 0] by simp
qed

lemma seg_log_rep:
  assumes "seg_rep d seg ps m"
  shows "seg_log d seg = with_offsets (sg_id seg)
    (filter (\<lambda>(pos, p). pos \<notin> set (sg_acked seg)) (place (sg_pendingPosition seg) (drop m ps)))"
  using filter_place_from [of m ps "\<lambda>pos. pos \<notin> set (sg_acked seg)"] assms
  unfolding seg_log_def seg_records_rep [OF assms] by (simp add: seg_rep_def)

lemma length_seg_log:
  assumes "seg_inv d seg"
  shows "int (length (seg_log d seg)) = sg_unacked seg"
proof -
  obtain ps m where rep: "seg_rep d seg ps m"
    using assms by (auto simp: seg_inv_def)
  let ?l = "place (sg_pendingPosition seg) (drop m ps)"
  have sub: "set (sg_acked seg) \<subseteq> fst ` set ?l" "distinct (sg_acked seg)"
    using rep by (auto simp: seg_rep_def)
  have "length (filter (\<lambda>(pos, p). pos \<notin> set (sg_acked seg)) ?l) =
      length (filter (\<lambda>pos. pos \<notin> set (sg_acked seg)) (map fst ?l))"
    by (simp add: filter_map o_def case_prod_unfold)
  also have "\<dots> = card (set (map fst ?l) - set (sg_acked seg))"
    using place_distinct [of "sg_pendingPosition seg" "drop m ps"]
    by (subst distinct_card [symmetric]) (auto intro: arg_cong [where f = card])
  also have "\<dots> = length ?l - length (sg_acked seg)"
    using sub place_distinct [of "sg_pendingPosition seg" "drop m ps"] distinct_card [of "map fst ?l"]
    by (simp add: card_Diff_subset distinct_card)
  finally have "length (seg_log d seg) = length ?l - length (sg_acked seg)"
    unfolding seg_log_rep [OF rep] by (simp add: with_offsets_def)
  moreover have "length (sg_acked seg) \<le> length ?l"
    using card_mono [OF _ sub(1)] sub(2) card_image_le [of "set ?l" fst] card_length [of ?l]
    by (simp add: distinct_card)
  moreover have "m \<le> length ps" "sg_unacked seg = int (length ps - m) - int (length (sg_acked seg))"
    using rep unfolding seg_rep_def by blast+
  ultimately show ?thesis
    by simp
qed

subsection \<open>Segments come and go\<close>

text \<open>An operation keeps the invariant, turns the abstract log into \<open>L\<close> and the directory into an evolved one.\<close>

definition wal_becomes :: "WAL \<Rightarrow> 'x disk \<Rightarrow> WAL \<Rightarrow> 'x disk \<Rightarrow> wal_record list \<Rightarrow> bool" where
  "wal_becomes w d w' d' L \<longleftrightarrow>
     wal_inv w' d' \<and> wal_log w' d' = L \<and> w_opts w' = w_opts w \<and>
     dir_evolves (wo_insecurePermissions (w_opts w)) (fst d) (fst d')"

lemma wal_becomes_trans:
  assumes "wal_becomes w d w1 d1 L1" "wal_becomes w1 d1 w2 d2 L2"
  shows "wal_becomes w d w2 d2 L2"
  using assms dir_evolves_trans unfolding wal_becomes_def by metis

lemma wal_segs_simps [simp]:
  "wal_segs (w\<lparr>w_nextID := i\<rparr>) = wal_segs w"
  "wal_segs (w\<lparr>w_totalSz := z\<rparr>) = wal_segs w"
  "wal_segs (w\<lparr>w_closed := b\<rparr>) = wal_segs w"
  "wal_segs (w\<lparr>w_closing := b\<rparr>) = wal_segs w"
  "wal_segs (w\<lparr>w_readBuf := buf\<rparr>) = wal_segs w"
  "wal_segs (w\<lparr>w_lastFsyncErr := e\<rparr>) = wal_segs w"
  by (simp_all add: wal_segs_def)

lemma wal_frame:
  assumes "wal_inv w d" "\<And>seg. seg \<in> set (wal_segs w) \<Longrightarrow> gm_get (fst d') (sg_path seg) = gm_get (fst d) (sg_path seg)"
  shows "wal_inv w d'" "wal_log w d' = wal_log w d"
proof -
  show "wal_inv w d'"
    using assms(1) seg_inv_frame [OF assms(2)] unfolding wal_inv_def by simp
  show "wal_log w d' = wal_log w d"
    using seg_log_frame [OF assms(2)] unfolding wal_log_def by (simp cong: map_cong)
qed

lemma wal_inv_path:
  assumes "wal_inv w d" "seg \<in> set (wal_segs w)"
  shows "sg_path seg = segment_name (sg_id seg)" "sg_id seg < w_nextID w" "seg_inv d seg"
proof -
  show inv: "seg_inv d seg" and "sg_id seg < w_nextID w"
    using assms by (simp_all add: wal_inv_def)
  then show "sg_path seg = segment_name (sg_id seg)"
    by (auto simp: seg_inv_def seg_rep_def)
qed

lemma wal_becomes_syscall:
  assumes "wal_inv w d" "fst d1 = fst d"
  shows "wal_becomes w d w d1 (wal_log w d)"
  using assms wal_frame [of w d d1] by (simp add: wal_becomes_def)

lemma wal_segs_active: "w_active w = Some seg \<Longrightarrow> wal_segs w = w_sealed w @ [seg]"
  by (simp add: wal_segs_def)

lemma wal_segs_none: "w_active w = None \<Longrightarrow> wal_segs w = w_sealed w"
  by (simp add: wal_segs_def)

lemma seg_rep_new:
  assumes "gm_get (fst d) (segment_name i) = Some c" "fl_data c = []" "0 < i"
  shows "seg_rep d \<lparr> sg_id = i, sg_path = segment_name i, sg_file = True, sg_size = 0, sg_records = 0,
           sg_unacked = 0, sg_acked = [], sg_pendingPosition = 0 \<rparr> [] 0"
  using assms by (simp add: seg_rep_def file_data_def)

lemma openNewActiveLocked_becomes:
  assumes inv: "wal_inv w d" and act: "w_active w = None"
    and eq: "openNewActiveLocked os w d = (e, w1, d1)"
  shows "wal_becomes w d w1 d1 (wal_log w d)"
proof (cases e)
  case None
  define i where "i = w_nextID w"
  define seg where "seg = \<lparr> sg_id = i, sg_path = segment_name i, sg_file = True, sg_size = 0, sg_records = 0,
    sg_unacked = 0, sg_acked = [], sg_pendingPosition = 0 \<rparr>"
  define mode :: nat where "mode = (if wo_insecurePermissions (w_opts w) then 420 else 384)"
  have new: "os_Create os (segment_name i) mode d = (None, d1)"
    and w1: "w1 = w\<lparr>w_nextID := i + 1, w_active := Some seg\<rparr>"
    using eq None by (auto simp: openNewActiveLocked_def Let_def i_def seg_def mode_def Wrap_def wrap_with_def
        split: prod.splits option.splits)
  note fs = os_Create_ok [OF new]
  have i: "0 < i"
    using inv by (simp add: wal_inv_def i_def)
  have old: "gm_get (fst d1) (sg_path s) = gm_get (fst d) (sg_path s)" if "s \<in> set (wal_segs w)" for s
    using wal_inv_path [OF inv that] fs by (simp add: i_def)
  note frame = wal_frame [OF inv old]
  have rep: "seg_rep d1 seg [] 0"
    unfolding seg_def using fs i
    by (intro seg_rep_new [where c = "\<lparr> fl_kind = Regular, fl_data = [], fl_mode = mode \<rparr>"]) simp_all
  have segs: "wal_segs w1 = wal_segs w @ [seg]"
    by (simp add: w1 wal_segs_def act)
  have "wal_inv w1 d1"
    using frame(1) rep i unfolding wal_inv_def segs
    by (auto simp: w1 seg_inv_def seg_def sorted_wrt_append i_def intro: less_SucI)
  moreover have "wal_log w1 d1 = wal_log w d"
    using frame(2) seg_log_rep [OF rep] unfolding wal_log_def segs by (simp add: with_offsets_def)
  moreover have "dir_evolves (wo_insecurePermissions (w_opts w)) (fst d) (fst d1)"
    using i unfolding dir_evolves_def fs(2) by (auto simp: mode_def)
  ultimately show ?thesis
    by (simp add: wal_becomes_def w1)
next
  case (Some err)
  then have "w1 = w\<lparr>w_nextID := w_nextID w + 1\<rparr>" and fs: "fst d1 = fst d"
    using eq by (auto simp: openNewActiveLocked_def Let_def dest!: os_Create_failed split: prod.splits option.splits)
  moreover have "wal_inv (w\<lparr>w_nextID := w_nextID w + 1\<rparr>) d"
    using inv by (auto simp: wal_inv_def)
  ultimately show ?thesis
    using wal_becomes_syscall [of w1 d d1] by (simp add: wal_becomes_def wal_log_def)
qed

text \<open>Changing or dropping one segment leaves the others alone.\<close>

lemma other_segments:
  assumes "wal_inv w d" "wal_segs w = xs @ seg # ys" "s \<in> set (xs @ ys)"
  shows "sg_path s \<noteq> sg_path seg"
proof -
  have "sorted_wrt (<) (map sg_id (xs @ seg # ys))"
    using assms(1,2) by (simp add: wal_inv_def)
  then have "sg_id s \<noteq> sg_id seg"
    using assms(3) by (fastforce simp: sorted_wrt_append)
  then show ?thesis
    using assms wal_inv_path(1) [OF assms(1)] by auto
qed

lemma replace_segment:
  assumes inv: "wal_inv w d" and segs: "wal_segs w = xs @ seg # ys" "wal_segs w1 = xs @ seg1 # ys"
    and seg1: "seg_inv d1 seg1" "sg_id seg1 = sg_id seg"
    and w1: "w_opts w1 = w_opts w" "w_nextID w1 = w_nextID w" "w_readBuf w1 = w_readBuf w"
      "w_totalSz w1 = w_totalSz w + int (sg_size seg1) - int (sg_size seg)"
    and sealed: "\<And>s. s \<in> set (w_sealed w1) \<Longrightarrow> \<not> sg_file s \<and> sg_unacked s > 0"
    and fs: "\<And>n. n \<noteq> sg_path seg \<Longrightarrow> gm_get (fst d1) n = gm_get (fst d) n"
      "dir_evolves (wo_insecurePermissions (w_opts w)) (fst d) (fst d1)"
  shows "wal_becomes w d w1 d1 (concat (map (seg_log d) xs) @ seg_log d1 seg1 @ concat (map (seg_log d) ys))"
proof -
  have same: "gm_get (fst d1) (sg_path s) = gm_get (fst d) (sg_path s)" if "s \<in> set (xs @ ys)" for s
    using fs(1) other_segments [OF inv segs(1) that] by simp
  have old: "seg_inv d1 s" if "s \<in> set (xs @ ys)" for s
    using seg_inv_frame [OF same [OF that]] wal_inv_path(3) [OF inv, of s] that segs by auto
  have "wal_inv w1 d1"
    using inv old seg1 sealed w1 unfolding wal_inv_def segs by auto
  moreover have "map (seg_log d1) xs = map (seg_log d) xs" "map (seg_log d1) ys = map (seg_log d) ys"
    using seg_log_frame [OF same] by auto
  ultimately show ?thesis
    using fs(2) w1 by (simp add: wal_becomes_def wal_log_def segs cong: map_cong)
qed

lemma drop_segment:
  assumes inv: "wal_inv w d" and segs: "wal_segs w = xs @ seg # ys" "wal_segs w1 = xs @ ys"
    and w1: "w_opts w1 = w_opts w" "w_nextID w1 = w_nextID w" "w_readBuf w1 = w_readBuf w"
      "w_totalSz w1 = w_totalSz w - int (sg_size seg)"
    and sealed: "\<And>s. s \<in> set (w_sealed w1) \<Longrightarrow> \<not> sg_file s \<and> sg_unacked s > 0"
    and fs: "\<And>n. n \<noteq> sg_path seg \<Longrightarrow> gm_get (fst d1) n = gm_get (fst d) n"
      "dir_evolves (wo_insecurePermissions (w_opts w)) (fst d) (fst d1)"
  shows "wal_becomes w d w1 d1 (concat (map (seg_log d) (xs @ ys)))"
proof -
  have same: "gm_get (fst d1) (sg_path s) = gm_get (fst d) (sg_path s)" if "s \<in> set (xs @ ys)" for s
    using fs(1) other_segments [OF inv segs(1) that] by simp
  have old: "seg_inv d1 s" if "s \<in> set (xs @ ys)" for s
    using seg_inv_frame [OF same [OF that]] wal_inv_path(3) [OF inv, of s] that segs by auto
  have "wal_inv w1 d1"
    using inv old sealed w1 unfolding wal_inv_def segs by (auto simp: sorted_wrt_append)
  moreover have "map (seg_log d1) xs = map (seg_log d) xs" "map (seg_log d1) ys = map (seg_log d) ys"
    using seg_log_frame [OF same] by auto
  ultimately show ?thesis
    using fs(2) w1 by (simp add: wal_becomes_def wal_log_def segs cong: map_cong)
qed

lemma seg_log_no_file [simp]: "seg_log d (seg\<lparr>sg_file := b\<rparr>) = seg_log d seg"
  by (simp add: seg_log_def seg_records_def)

lemma seg_rep_no_file: "seg_rep d seg ps m \<Longrightarrow> seg_rep d (seg\<lparr>sg_file := False\<rparr>) ps m"
  by (auto simp: seg_rep_def)

lemma seg_inv_no_file: "seg_inv d seg \<Longrightarrow> seg_inv d (seg\<lparr>sg_file := False\<rparr>)"
  using seg_rep_no_file unfolding seg_inv_def by blast

lemma seg_log_acked: "seg_inv d seg \<Longrightarrow> sg_unacked seg \<le> 0 \<Longrightarrow> seg_log d seg = []"
  using length_seg_log [of d seg] by (cases "seg_log d seg") simp_all

lemma wal_log_segs: "wal_segs w = xs @ seg # ys \<Longrightarrow>
    wal_log w d = concat (map (seg_log d) xs) @ seg_log d seg @ concat (map (seg_log d) ys)"
  by (simp add: wal_log_def)

lemma remove_frame:
  assumes "seg_inv d seg"
  shows "n \<noteq> sg_path seg \<Longrightarrow> gm_get (fst (snd (os_Remove os (sg_path seg) d))) n = gm_get (fst d) n"
    "dir_evolves insecure (fst d) (fst (snd (os_Remove os (sg_path seg) d)))"
  using assms by (auto simp: os_Remove_get seg_inv_def seg_rep_def intro!: dir_evolves_os_Remove)

lemma seal_closed_becomes:
  assumes inv: "wal_inv w d" and act: "w_active w = Some seg" "seg1 = seg\<lparr>sg_file := False\<rparr>"
    and eq: "seal_closed os w seg1 d = (w1, d1)"
  shows "wal_becomes w d w1 d1 (wal_log w d) \<and> w_active w1 = None"
proof -
  note segs = wal_segs_active [OF act(1)]
  have seg: "seg_inv d seg"
    using wal_inv_path(3) [OF inv, of seg] segs by simp
  have sealed: "\<And>s. s \<in> set (w_sealed w) \<Longrightarrow> \<not> sg_file s \<and> sg_unacked s > 0"
    using inv by (simp add: wal_inv_def)
  show ?thesis
  proof (cases "sg_unacked seg > 0")
    case True
    then have w1: "w1 = w\<lparr>w_sealed := w_sealed w @ [seg1], w_active := None\<rparr>" "d1 = d"
      using eq act(2) by (auto simp: seal_closed_def)
    have "wal_becomes w d w1 d1 (concat (map (seg_log d) (w_sealed w)) @ seg_log d1 seg1 @ concat (map (seg_log d) []))"
      by (rule replace_segment [OF inv])
        (use segs w1 act True sealed seg_inv_no_file [OF seg] in \<open>auto simp: wal_segs_def\<close>)
    then show ?thesis
      using w1 act(2) wal_log_segs [of w "w_sealed w" seg "[]" d] segs by simp
  next
    case False
    then have w1: "w1 = w\<lparr>w_totalSz := w_totalSz w - int (sg_size seg), w_active := None\<rparr>"
      and d1: "d1 = snd (os_Remove os (sg_path seg) d)"
      using eq act(2) by (auto simp: seal_closed_def)
    have "wal_becomes w d w1 d1 (concat (map (seg_log d) (w_sealed w @ [])))"
      by (rule drop_segment [OF inv])
        (use segs w1 d1 sealed remove_frame [OF seg] in \<open>auto simp: wal_segs_def\<close>)
    then show ?thesis
      using w1 wal_log_segs [of w "w_sealed w" seg "[]" d] segs seg_log_acked [OF seg] False by simp
  qed
qed

lemma sealActiveLocked_becomes:
  assumes inv: "wal_inv w d" and eq: "sealActiveLocked os w d = (e, w1, d1)"
  shows "wal_becomes w d w1 d1 (wal_log w d) \<and> (e = None \<longrightarrow> w_active w1 = None)"
proof (cases "w_active w")
  case None
  then show ?thesis
    using inv eq wal_becomes_syscall [of w d d] by (auto simp: sealActiveLocked_def)
next
  case (Some seg)
  consider (failed) err where "e = Some err" "w1 = w" "fst d1 = fst d"
    | (closed) d0 where "e = None" "fst d0 = fst d" "seal_closed os w (seg\<lparr>sg_file := False\<rparr>) d0 = (w1, d1)"
  proof (cases "sg_file seg")
    case True
    with eq Some that show thesis
      by (auto simp: sealActiveLocked_def Wrap_def wrap_with_def dest!: fst_syscall split: prod.splits option.splits)
  next
    case False
    then have upd: "seg\<lparr>sg_file := False\<rparr> = seg"
      by (cases seg) simp
    have "e = None" "seal_closed os w (seg\<lparr>sg_file := False\<rparr>) d = (w1, d1)"
      unfolding upd using False eq Some by (simp_all add: sealActiveLocked_def)
    then show thesis
      using that(2) by blast
  qed
  then show ?thesis
  proof cases
    case failed
    then show ?thesis
      using wal_becomes_syscall [OF inv] by simp
  next
    case closed
    have "wal_becomes w d w d0 (wal_log w d)"
      using wal_becomes_syscall [OF inv closed(2)] .
    moreover from this have "wal_becomes w d0 w1 d1 (wal_log w d) \<and> w_active w1 = None"
      using seal_closed_becomes [OF _ Some refl closed(3)] by (simp add: wal_becomes_def)
    ultimately show ?thesis
      using wal_becomes_trans by blast
  qed
qed

end
