(* ===== verification/WalCommit.thy ===== *)
theory WalCommit
  imports WalInv
begin

text \<open>
  The group commit of the write-ahead log: what a batch holds, and that every round of a commit
  appends to the abstract log exactly the records it reports as written.
\<close>

subsection \<open>Batches\<close>

definition batch_rep :: "appendBatch \<Rightarrow> bytes list \<Rightarrow> bool" where
  "batch_rep b ps \<longleftrightarrow>
     list_all valid_payload ps \<and> ab_buf b = encode_all ps \<and>
     ab_starts b = map (\<lambda>k. length (encode_all (take k ps))) [0..<Suc (length ps)] \<and>
     length (ab_offs b) = length ps \<and> length (ab_errs b) = length ps"

text \<open>The records from \<open>i\<close> on have no result yet.\<close>

definition batch_open :: "appendBatch \<Rightarrow> nat \<Rightarrow> bool" where
  "batch_open b i \<longleftrightarrow> (\<forall>k. i \<le> k \<and> k < batch_len b \<longrightarrow> ab_errs b ! k = None)"

lemma batch_rep_empty [simp]: "batch_rep getAppendBatch []" "batch_open getAppendBatch 0"
  by (simp_all add: batch_rep_def getAppendBatch_def batch_open_def batch_len_def)

lemma batch_rep_len: "batch_rep b ps \<Longrightarrow> batch_len b = length ps"
  by (simp add: batch_rep_def batch_len_def)

lemma batch_add_rep:
  assumes "batch_rep b ps" "batch_open b 0" "valid_payload p" "batch_add b p (ChecksumIEEE p) = (b1, idx)"
  shows "batch_rep b1 (ps @ [p])" "batch_open b1 0" "idx = length ps"
proof -
  have b1: "b1 = \<lparr> ab_buf = ab_buf b @ encode_record p, ab_starts = ab_starts b @ [length (ab_buf b @ encode_record p)],
      ab_offs = ab_offs b @ [zero_Offset], ab_errs = ab_errs b @ [None] \<rparr>" and idx: "idx = length (ab_offs b)"
    using assms(4) by (auto simp: batch_add_def Let_def encode_record_def)
  have starts: "map (\<lambda>k. length (encode_all (take k (ps @ [p])))) [0..<Suc (length ps)] =
      map (\<lambda>k. length (encode_all (take k ps))) [0..<Suc (length ps)]"
    by auto
  show "batch_rep b1 (ps @ [p])"
    using assms(1,3) starts by (simp add: b1 batch_rep_def)
  show "batch_open b1 0"
    using assms(1,2) by (auto simp: b1 batch_open_def batch_rep_def batch_len_def nth_append less_Suc_eq)
  show "idx = length ps"
    using assms(1) idx by (simp add: batch_rep_def)
qed

lemma batch_start: "batch_rep b ps \<Longrightarrow> k \<le> length ps \<Longrightarrow> ab_starts b ! k = length (encode_all (take k ps))"
  unfolding batch_rep_def by (simp del: upt_Suc)

lemma batch_size_nth:
  assumes "batch_rep b ps" "k < length ps"
  shows "batch_size b k = recordHeaderSize + length (ps ! k)"
  using assms by (simp add: batch_size_def batch_start take_Suc_conv_app_nth)

text \<open>The bytes of the records \<open>[i, j)\<close>.\<close>

lemma batch_chunk:
  assumes "batch_rep b ps" "i \<le> j" "j \<le> length ps"
  shows "take (ab_starts b ! j - ab_starts b ! i) (drop (ab_starts b ! i) (ab_buf b)) =
      encode_all (take (j - i) (drop i ps))"
    "ab_starts b ! j - ab_starts b ! i = length (encode_all (take (j - i) (drop i ps)))"
proof -
  have "encode_all ps = encode_all (take j ps) @ encode_all (drop j ps)"
    by (metis append_take_drop_id concat_append map_append)
  then have buf: "ab_buf b = encode_all (take i ps) @ encode_all (take (j - i) (drop i ps)) @ encode_all (drop j ps)"
    using assms by (simp add: batch_rep_def encode_all_take_drop)
  have starts: "ab_starts b ! i = length (encode_all (take i ps))"
    "ab_starts b ! j = length (encode_all (take i ps)) + length (encode_all (take (j - i) (drop i ps)))"
    using assms encode_all_take_drop [OF assms(2), of ps] by (simp_all add: batch_start)
  show "ab_starts b ! j - ab_starts b ! i = length (encode_all (take (j - i) (drop i ps)))"
    unfolding starts by simp
  show "take (ab_starts b ! j - ab_starts b ! i) (drop (ab_starts b ! i) (ab_buf b)) =
      encode_all (take (j - i) (drop i ps))"
    unfolding starts buf by simp
qed

lemma batch_payload_nth:
  assumes "batch_rep b ps" "k < length ps"
  shows "batch_payload b k = ps ! k"
proof -
  have split: "encode_all ps = encode_all (take k ps) @ encode_record (ps ! k) @ encode_all (drop (Suc k) ps)"
    using id_take_nth_drop [OF assms(2)] by (metis concat.simps(2) concat_append list.simps(9) map_append)
  have buf: "ab_buf b = encode_all ps"
    using assms by (simp add: batch_rep_def)
  have start: "ab_starts b ! k = length (encode_all (take k ps))"
    using assms by (simp add: batch_start)
  have "drop (ab_starts b ! k + recordHeaderSize) (ab_buf b) =
      drop recordHeaderSize (encode_record (ps ! k)) @ encode_all (drop (Suc k) ps)"
    unfolding buf start split by simp
  moreover have "drop recordHeaderSize (encode_record (ps ! k)) = ps ! k"
    by (simp add: encode_record_def recordHeaderSize_def)
  ultimately show ?thesis
    using assms by (simp add: batch_payload_def batch_size_nth)
qed

subsection \<open>Results\<close>

lemma foldl_update_nth:
  "length (foldl (\<lambda>es k. es[k := v]) es ks) = length es"
  "n < length es \<Longrightarrow> foldl (\<lambda>es k. es[k := v]) es ks ! n = (if n \<in> set ks then v else es ! n)"
  by (induction ks arbitrary: es) (auto simp: nth_list_update)

lemma batch_fail_rep:
  assumes "batch_rep b ps"
  shows "batch_rep (batch_fail b i j err) ps" "ab_offs (batch_fail b i j err) = ab_offs b"
    "k < length ps \<Longrightarrow> ab_errs (batch_fail b i j err) ! k = (if i \<le> k \<and> k < j then err else ab_errs b ! k)"
  using assms by (auto simp: batch_fail_def batch_rep_def foldl_update_nth)

lemma batch_results_fail:
  assumes "batch_rep b ps" "j \<le> length ps"
  shows "batch_results (batch_fail b i j (Some e)) i j = []"
  using assms by (auto simp: batch_results_def Append_result_def filter_empty_conv batch_fail_rep)

lemma assign_offs_rep:
  assumes "batch_rep b ps" "i \<le> j" "j \<le> length ps" "assign_offs b sid [i..<j] pos = (b1, pos1)"
  shows "batch_rep b1 ps \<and> ab_errs b1 = ab_errs b \<and> pos1 = pos + length (encode_all (take (j - i) (drop i ps))) \<and>
    (\<forall>k < length ps. ab_offs b1 ! k = (if i \<le> k \<and> k < j then
        \<lparr> of_SegmentID = sid, of_Position = pos + length (encode_all (take (k - i) (drop i ps))) \<rparr> else ab_offs b ! k))"
  using assms
proof (induction "j - i" arbitrary: i b pos)
  case (Suc n)
  then have i: "i < j" "i < length ps"
    by auto
  let ?b = "b\<lparr>ab_offs := (ab_offs b)[i := \<lparr> of_SegmentID = sid, of_Position = pos \<rparr>]\<rparr>"
  let ?pos = "pos + (recordHeaderSize + length (ps ! i))"
  have rep: "batch_rep ?b ps"
    using Suc.prems(1) by (simp add: batch_rep_def)
  have "assign_offs ?b sid [Suc i..<j] ?pos = (b1, pos1)"
    using Suc.prems(4) i Suc.prems(1) by (simp add: upt_conv_Cons batch_size_nth)
  from Suc.hyps(1) [OF _ rep _ Suc.prems(3) this] Suc.hyps(2) i
  have ih: "batch_rep b1 ps" "ab_errs b1 = ab_errs b"
    "pos1 = ?pos + length (encode_all (take (j - Suc i) (drop (Suc i) ps)))"
    "\<And>k. k < length ps \<Longrightarrow> ab_offs b1 ! k = (if Suc i \<le> k \<and> k < j then
        \<lparr> of_SegmentID = sid, of_Position = ?pos + length (encode_all (take (k - Suc i) (drop (Suc i) ps))) \<rparr>
        else ab_offs ?b ! k)"
    by auto
  have take: "take (k - i) (drop i ps) = ps ! i # take (k - Suc i) (drop (Suc i) ps)" if "i < k" for k
    using i that by (simp add: Cons_nth_drop_Suc [symmetric] Suc_diff_Suc [symmetric] del: Suc_diff_Suc)
  have "ab_offs b1 ! k = (if i \<le> k \<and> k < j then
        \<lparr> of_SegmentID = sid, of_Position = pos + length (encode_all (take (k - i) (drop i ps))) \<rparr> else ab_offs b ! k)"
    if k: "k < length ps" for k
  proof (cases k i rule: linorder_cases)
    case greater
    then show ?thesis
      using ih(4) [OF k] take [of k] by simp
  qed (use ih(4) [OF k] i Suc.prems(1) in \<open>auto simp: batch_rep_def nth_list_update\<close>)
  then show ?case
    using ih(1-3) take [OF i(1)] by simp
qed simp

lemma place_nth: "k < length ps \<Longrightarrow> place pos ps ! k = (pos + length (encode_all (take k ps)), ps ! k)"
  by (induction ps arbitrary: pos k) (auto simp: nth_Cons' take_Cons' gr0_conv_Suc)

lemma batch_results_published:
  assumes "batch_rep b ps" "batch_open b i" "i \<le> j" "j \<le> length ps" "assign_offs b sid [i..<j] pos = (b1, pos1)"
  shows "batch_results b1 i j = with_offsets sid (place pos (take (j - i) (drop i ps)))"
proof (rule nth_equalityI)
  note res = assign_offs_rep [OF assms(1,3,4,5)]
  have errs: "filter (\<lambda>k. snd (Append_result b1 k) = None) [i..<j] = [i..<j]"
    using assms res by (auto simp: filter_id_conv Append_result_def batch_open_def batch_rep_len)
  have lhs: "batch_results b1 i j = map (\<lambda>k. (ab_offs b1 ! k, batch_payload b1 k)) [i..<j]"
    unfolding batch_results_def errs by (simp add: Append_result_def)
  show "length (batch_results b1 i j) = length (with_offsets sid (place pos (take (j - i) (drop i ps))))"
    using assms(3,4) by (simp add: lhs with_offsets_def)
  fix n
  assume "n < length (batch_results b1 i j)"
  then have n: "n < j - i" "i + n < j" "i + n < length ps" "n < length (take (j - i) (drop i ps))"
    using assms(3,4) by (simp_all add: lhs)
  have "batch_payload b1 (i + n) = ps ! (i + n)"
    using res batch_payload_nth [of b1 ps "i + n"] n by simp
  then show "batch_results b1 i j ! n = with_offsets sid (place pos (take (j - i) (drop i ps))) ! n"
    using res n place_nth [OF n(4), of pos] by (simp add: lhs with_offsets_def)
qed

lemma run_end_le: "j \<le> batch_len b \<Longrightarrow> run_end b m j sz records \<le> batch_len b"
  by (induction b m j sz records rule: run_end.induct) (subst run_end.simps, auto)

subsection \<open>Writes\<close>

lemma place_mono:
  assumes "pos \<in> fst ` set (place k ps)"
  shows "pos \<in> fst ` set (place k (ps @ qs))" "pos < k + length (encode_all ps)"
  using assms by (auto simp: place_append recordHeaderSize_def image_Un dest: place_positions)

text \<open>A complete write extends the segment and its part of the log.\<close>

lemma seg_extend:
  assumes rep: "seg_rep d seg ps m" and opened: "sg_file seg" and qs: "list_all valid_payload qs"
    and get: "gm_get (fst d1) = gm_get (fst (on_file (sg_path seg) (\<lambda>c. c\<lparr>fl_data := fl_data c @ encode_all qs\<rparr>) d))"
    and seg1: "seg1 = seg\<lparr>sg_records := sg_records seg + length qs, sg_unacked := sg_unacked seg + int (length qs),
                          sg_size := sg_size seg + length (encode_all qs)\<rparr>"
  shows "seg_rep d1 seg1 (ps @ qs) m"
    "seg_log d1 seg1 = seg_log d seg @ with_offsets (sg_id seg) (place (sg_size seg) qs)"
proof -
  obtain c where c: "gm_get (fst d) (sg_path seg) = Some c" "fl_data c = encode_all ps"
    using rep opened by (auto simp: seg_rep_def file_data_def)
  then have c1: "gm_get (fst d1) (sg_path seg) = Some (c\<lparr>fl_data := encode_all (ps @ qs)\<rparr>)"
    by (simp add: get on_file_get)
  have m: "m \<le> length ps" and k: "sg_pendingPosition seg = length (encode_all (take m ps))"
    and acked: "set (sg_acked seg) \<subseteq> fst ` set (place (sg_pendingPosition seg) (drop m ps))"
    and sz: "sg_size seg = length (encode_all ps)"
    using rep unfolding seg_rep_def by blast+
  have len: "sg_pendingPosition seg + length (encode_all (drop m ps)) = sg_size seg"
    using k sz m encode_all_take_drop [of m "length ps" ps] by simp
  have acked1: "set (sg_acked seg) \<subseteq> fst ` set (place (sg_pendingPosition seg) (drop m (ps @ qs)))"
    using acked place_mono(1) m by fastforce
  show rep1: "seg_rep d1 seg1 (ps @ qs) m"
    using rep qs c1 acked1 m unfolding seg_rep_def seg1 by (simp add: file_data_def of_nat_diff)
  have "pos \<notin> set (sg_acked seg)" if "(pos, p) \<in> set (place (sg_size seg) qs)" for pos p
    using place_mono(2) [of pos "sg_pendingPosition seg" "drop m ps"] acked place_positions [OF that] len by auto
  then have "filter (\<lambda>(pos, p). pos \<notin> set (sg_acked seg)) (place (sg_size seg) qs) = place (sg_size seg) qs"
    by (auto simp: filter_id_conv)
  then show "seg_log d1 seg1 = seg_log d seg @ with_offsets (sg_id seg) (place (sg_size seg) qs)"
    unfolding seg_log_rep [OF rep1] seg_log_rep [OF rep]
    using m len by (simp add: seg1 with_offsets_def place_append)
qed

text \<open>A failed write is undone, or the handle of the segment is retired.\<close>

lemma rollbackLocked_cases:
  assumes "rollbackLocked os seg n (Some e) d = (err, seg1, d1)" "sg_file seg"
  shows "err \<noteq> None \<and> dir_evolves insecure (fst d) (fst d1) \<or> sg_path seg = ''''"
    "\<And>name. name \<noteq> sg_path seg \<Longrightarrow> gm_get (fst d1) name = gm_get (fst d) name"
    "(seg1 = seg\<lparr>sg_file := False\<rparr> \<and> gm_get (fst d1) (sg_path seg) = gm_get (fst d) (sg_path seg)) \<or>
     (seg1 = seg \<and> n = 0 \<and> gm_get (fst d1) (sg_path seg) = gm_get (fst d) (sg_path seg)) \<or>
     ((seg1 = seg \<or> seg1 = seg\<lparr>sg_file := False\<rparr>) \<and>
      gm_get (fst d1) (sg_path seg) = map_option (\<lambda>c. c\<lparr>fl_data := take (sg_size seg) (fl_data c) @
        replicate (sg_size seg - length (fl_data c)) 0\<rparr>) (gm_get (fst d) (sg_path seg)))"
proof -
  let ?tr = "os_Truncate os (sg_path seg) (sg_size seg) d"
  consider (nothing) "n = 0" "seg1 = seg" "d1 = d" "err \<noteq> None"
    | (stuck) e1 d2 where "?tr = (Some e1, d2)" "seg1 = seg\<lparr>sg_file := False\<rparr>" "fst d1 = fst d2" "err \<noteq> None"
    | (undone) d2 where "?tr = (None, d2)" "seg1 = seg \<or> seg1 = seg\<lparr>sg_file := False\<rparr>" "fst d1 = fst d2" "err \<noteq> None"
  proof (cases "n > 0")
    case False
    then have "seg1 = seg \<and> d1 = d \<and> err \<noteq> None"
      using assms by (auto simp: rollbackLocked_def Wrap_def wrap_with_def)
    then show thesis
      using that(1) False by blast
  next
    case True
    obtain e1 d2 where tr: "?tr = (e1, d2)"
      by (metis surj_pair)
    obtain e2 d3 where seek: "syscall os IoSeek (sg_path seg) d2 = (e2, d3)"
      by (metis surj_pair)
    note roll = rollbackLocked_def tr seek Wrap_def Wrapf_def wrap_with_def
    show thesis
    proof (cases e1)
      case None
      have "(seg1 = seg \<or> seg1 = seg\<lparr>sg_file := False\<rparr>) \<and> fst d1 = fst d2 \<and> err \<noteq> None"
        using assms True None fst_syscall [OF seek] by (cases e2) (auto simp: roll)
      then show thesis
        using that(3) tr None by blast
    next
      case (Some e0)
      have "seg1 = seg\<lparr>sg_file := False\<rparr> \<and> fst d1 = fst d2 \<and> err \<noteq> None"
        using assms True Some by (auto simp: roll)
      then show thesis
        using that(2) tr Some by blast
    qed
  qed
  note cases = this
  show "err \<noteq> None \<and> dir_evolves insecure (fst d) (fst d1) \<or> sg_path seg = ''''"
    by (cases rule: cases) (auto dest: os_Truncate_effect(2))
  show "gm_get (fst d1) name = gm_get (fst d) name" if "name \<noteq> sg_path seg" for name
    by (cases rule: cases) (use that in \<open>auto simp: on_file_get dest!: os_Truncate_effect(1)\<close>)
  show "(seg1 = seg\<lparr>sg_file := False\<rparr> \<and> gm_get (fst d1) (sg_path seg) = gm_get (fst d) (sg_path seg)) \<or>
     (seg1 = seg \<and> n = 0 \<and> gm_get (fst d1) (sg_path seg) = gm_get (fst d) (sg_path seg)) \<or>
     ((seg1 = seg \<or> seg1 = seg\<lparr>sg_file := False\<rparr>) \<and>
      gm_get (fst d1) (sg_path seg) = map_option (\<lambda>c. c\<lparr>fl_data := take (sg_size seg) (fl_data c) @
        replicate (sg_size seg - length (fl_data c)) 0\<rparr>) (gm_get (fst d) (sg_path seg)))"
    by (cases rule: cases) (auto simp: on_file_get dest!: os_Truncate_effect(1))
qed

lemma seg_rollback:
  assumes rep: "seg_rep d seg ps m" and opened: "sg_file seg"
    and get: "gm_get (fst d1) = gm_get (fst (on_file (sg_path seg) (\<lambda>c. c\<lparr>fl_data := fl_data c @ take n p\<rparr>) d))"
    and eq: "rollbackLocked os seg n (Some e) d1 = (err, seg1, d2)"
  shows "err \<noteq> None" "seg_rep d2 seg1 ps m" "seg_log d2 seg1 = seg_log d seg" "sg_id seg1 = sg_id seg"
    "sg_size seg1 = sg_size seg" "sg_path seg1 = sg_path seg"
    "\<And>name. name \<noteq> sg_path seg \<Longrightarrow> gm_get (fst d2) name = gm_get (fst d) name"
    "dir_evolves insecure (fst d1) (fst d2)"
proof -
  note roll = rollbackLocked_cases [OF eq opened]
  obtain c where c: "gm_get (fst d) (sg_path seg) = Some c" "fl_data c = encode_all ps"
    using rep opened by (auto simp: seg_rep_def file_data_def)
  have path: "sg_path seg = segment_name (sg_id seg)" and sz: "sg_size seg = length (encode_all ps)"
    using rep unfolding seg_rep_def by blast+
  show "err \<noteq> None" "dir_evolves insecure (fst d1) (fst d2)"
    using roll(1) [of insecure] path by auto
  show "gm_get (fst d2) name = gm_get (fst d) name" if "name \<noteq> sg_path seg" for name
    using roll(2) [OF that] that by (simp add: get on_file_get)
  have c1: "gm_get (fst d1) (sg_path seg) = Some (c\<lparr>fl_data := encode_all ps @ take n p\<rparr>)"
    using c by (simp add: get on_file_get)
  have seg1: "seg1 = seg \<or> seg1 = seg\<lparr>sg_file := False\<rparr>"
    using roll(3) by blast
  then show "sg_id seg1 = sg_id seg" "sg_size seg1 = sg_size seg" "sg_path seg1 = sg_path seg"
    by auto
  have "\<exists>c2 t. gm_get (fst d2) (sg_path seg) = Some c2 \<and> fl_data c2 = encode_all ps @ t \<and> (sg_file seg1 \<longrightarrow> t = [])"
    using roll(3) c1 opened sz by auto
  then show rep2: "seg_rep d2 seg1 ps m"
    using rep seg1 unfolding seg_rep_def by (auto simp: file_data_def)
  show "seg_log d2 seg1 = seg_log d seg"
    unfolding seg_log_rep [OF rep2] seg_log_rep [OF rep] using seg1 by auto
qed

subsection \<open>Rounds\<close>

text \<open>What a round does to its batch and to the abstract log.\<close>

definition round_ok :: "appendBatch \<Rightarrow> bytes list \<Rightarrow> nat \<Rightarrow> WAL \<Rightarrow> 'x disk \<Rightarrow> appendBatch \<Rightarrow> nat \<Rightarrow> WAL \<Rightarrow> 'x disk \<Rightarrow> bool" where
  "round_ok b ps i w d b1 i1 w1 d1 \<longleftrightarrow>
     wal_becomes w d w1 d1 (wal_log w d @ batch_results b1 i i1) \<and>
     batch_rep b1 ps \<and> batch_open b1 i1 \<and> i \<le> i1 \<and> i1 \<le> length ps \<and>
     (\<forall>k < i. Append_result b1 k = Append_result b k)"

lemma round_failed:
  assumes "batch_rep b ps" "batch_open b i" "wal_becomes w d w1 d1 (wal_log w d)" "i \<le> j" "j \<le> length ps"
  shows "round_ok b ps i w d (batch_fail b i j (Some e)) j w1 d1"
  using assms batch_results_fail [OF assms(1,5), of i e] batch_fail_rep [OF assms(1)]
  by (auto simp: round_ok_def batch_open_def batch_rep_len [OF batch_fail_rep(1) [OF assms(1)]]
      batch_rep_len [OF assms(1)] Append_result_def)

lemma round_write:
  assumes inv: "wal_inv w d" and act: "w_active w = Some seg" and opened: "sg_file seg"
    and b: "batch_rep b ps" "batch_open b i" and j: "i \<le> j" "j \<le> length ps"
    and wr: "file_Write os (sg_path seg) (encode_all (take (j - i) (drop i ps))) d = ((n, None), d1)"
    and off: "assign_offs b (sg_id seg) [i..<j] (sg_size seg) = (b1, pos)"
    and w1: "w1 = w\<lparr>w_active := Some (seg\<lparr>sg_records := sg_records seg + (j - i),
                 sg_unacked := sg_unacked seg + int (j - i), sg_size := pos\<rparr>),
                 w_totalSz := w_totalSz w + int (length (encode_all (take (j - i) (drop i ps))))\<rparr>"
  shows "round_ok b ps i w d b1 j w1 d1"
proof -
  let ?qs = "take (j - i) (drop i ps)"
  note segs = wal_segs_active [OF act]
  obtain ps0 m where rep: "seg_rep d seg ps0 m"
    using wal_inv_path(3) [OF inv, of seg] segs by (auto simp: seg_inv_def)
  note res = assign_offs_rep [OF b(1) j off]
  define seg1 where "seg1 = seg\<lparr>sg_records := sg_records seg + length ?qs,
    sg_unacked := sg_unacked seg + int (length ?qs), sg_size := sg_size seg + length (encode_all ?qs)\<rparr>"
  have len: "length ?qs = j - i"
    using j by simp
  have qs: "list_all valid_payload ?qs"
    using b(1) by (auto simp: batch_rep_def list_all_iff dest: in_set_takeD in_set_dropD)
  have path: "sg_path seg \<noteq> ''''"
    using rep by (simp add: seg_rep_def)
  note eff = file_Write_effect [OF wr]
  have get: "gm_get (fst d1) = gm_get (fst (on_file (sg_path seg) (\<lambda>c. c\<lparr>fl_data := fl_data c @ encode_all ?qs\<rparr>) d))"
    using eff(2,3) by simp
  note ext = seg_extend [OF rep opened qs get seg1_def]
  have w1_segs: "wal_segs w1 = w_sealed w @ [seg1]"
    using res len by (simp add: w1 wal_segs_def seg1_def)
  have "wal_becomes w d w1 d1 (concat (map (seg_log d) (w_sealed w)) @ seg_log d1 seg1 @ concat (map (seg_log d) []))"
  proof (rule replace_segment [OF inv])
    show "wal_segs w = w_sealed w @ seg # []" "wal_segs w1 = w_sealed w @ seg1 # []"
      using segs w1_segs by simp_all
    show "seg_inv d1 seg1"
      using ext(1) by (auto simp: seg_inv_def)
    show "gm_get (fst d1) name = gm_get (fst d) name" if "name \<noteq> sg_path seg" for name
      using that by (simp add: get on_file_get)
    show "dir_evolves (wo_insecurePermissions (w_opts w)) (fst d) (fst d1)"
      using eff(4) path by simp
  qed (use inv in \<open>auto simp: w1 seg1_def wal_inv_def\<close>)
  moreover have "wal_log w d @ batch_results b1 i j =
      concat (map (seg_log d) (w_sealed w)) @ seg_log d1 seg1 @ concat (map (seg_log d) [])"
    using batch_results_published [OF b j off] wal_log_segs [of w "w_sealed w" seg "[]" d] segs ext(2) by simp
  ultimately have "wal_becomes w d w1 d1 (wal_log w d @ batch_results b1 i j)"
    by simp
  then show ?thesis
    using res b j by (auto simp: round_ok_def batch_open_def batch_rep_len Append_result_def)
qed

lemma round_rollback:
  assumes inv: "wal_inv w d" and act: "w_active w = Some seg" and opened: "sg_file seg"
    and b: "batch_rep b ps" "batch_open b i" and j: "i \<le> j" "j \<le> length ps"
    and wr: "file_Write os (sg_path seg) chunk d = ((n, Some e), d1)"
    and roll: "rollbackLocked os seg n (Some e) d1 = (err, seg1, d2)"
  shows "round_ok b ps i w d (batch_fail b i j err) j (w\<lparr>w_active := Some seg1\<rparr>) d2"
proof -
  note segs = wal_segs_active [OF act]
  obtain ps0 m where rep: "seg_rep d seg ps0 m"
    using wal_inv_path(3) [OF inv, of seg] segs by (auto simp: seg_inv_def)
  have path: "sg_path seg \<noteq> ''''"
    using rep by (simp add: seg_rep_def)
  note eff = file_Write_effect [OF wr]
  note undo = seg_rollback [OF rep opened eff(3) roll]
  let ?w1 = "w\<lparr>w_active := Some seg1\<rparr>"
  have "wal_becomes w d ?w1 d2 (concat (map (seg_log d) (w_sealed w)) @ seg_log d2 seg1 @ concat (map (seg_log d) []))"
  proof (rule replace_segment [OF inv])
    show "wal_segs w = w_sealed w @ seg # []" "wal_segs ?w1 = w_sealed w @ seg1 # []"
      using segs by (simp_all add: wal_segs_def)
    show "seg_inv d2 seg1"
      using undo(2) by (auto simp: seg_inv_def)
    show "dir_evolves (wo_insecurePermissions (w_opts w)) (fst d) (fst d2)"
      using eff(4) path undo(8) dir_evolves_trans by blast
  qed (use inv undo in \<open>auto simp: wal_inv_def\<close>)
  then have "wal_becomes w d ?w1 d2 (wal_log w d)"
    using undo(3) wal_log_segs [of w "w_sealed w" seg "[]" d] segs by simp
  moreover obtain e1 where "err = Some e1"
    using undo(1) by auto
  ultimately show ?thesis
    using round_failed [OF b _ j] by blast
qed

lemma round_roll:
  assumes inv: "wal_inv w d" and b: "batch_rep b ps" "batch_open b i" "i \<le> length ps"
    and seal: "sealActiveLocked os w d = (None, w1, d1)" and new: "openNewActiveLocked os w1 d1 = (e, w2, d2)"
  shows "wal_becomes w d w2 d2 (wal_log w d)"
proof -
  have "wal_becomes w d w1 d1 (wal_log w d)" and act: "w_active w1 = None"
    using sealActiveLocked_becomes [OF inv seal] by auto
  moreover from this have "wal_becomes w1 d1 w2 d2 (wal_log w d)"
    using openNewActiveLocked_becomes [OF _ act new] by (simp add: wal_becomes_def)
  ultimately show ?thesis
    using wal_becomes_trans by blast
qed

text \<open>A round that writes.\<close>

lemma flush_round_write:
  assumes "w_active w = Some seg" "\<not> w_closed w" "sg_file seg"
    "\<not> (int (sg_size seg + batch_size b i) > wo_maxSegmentBytes (w_opts w) \<and> sg_records seg > 0)"
    "j = run_end b (wo_maxSegmentBytes (w_opts w)) i (sg_size seg) (sg_records seg)"
  shows "flush_round os b i w d =
        (case file_Write os (sg_path seg) (take (ab_starts b ! j - ab_starts b ! i) (drop (ab_starts b ! i) (ab_buf b))) d of
           ((n, Some e), d1) \<Rightarrow>
             (case rollbackLocked os seg n (Some e) d1 of
                (err, seg1, d2) \<Rightarrow> ((batch_fail b i j err, j), w\<lparr>w_active := Some seg1\<rparr>, d2))
         | ((n, None), d1) \<Rightarrow>
             (case assign_offs b (sg_id seg) [i..<j] (sg_size seg) of
                (b1, pos) \<Rightarrow>
                  ((b1, j),
                   w\<lparr>w_active := Some (seg\<lparr>sg_records := sg_records seg + (j - i),
                                           sg_unacked := sg_unacked seg + int (j - i), sg_size := pos\<rparr>),
                     w_totalSz := w_totalSz w + int (ab_starts b ! j - ab_starts b ! i)\<rparr>, d1)))"
  by (simp only: flush_round_def Let_def assms(1-3,5) option.case simp_thms if_False if_not_P [OF assms(4)])

lemma flush_round_ok:
  assumes inv: "wal_inv w d" and b: "batch_rep b ps" "batch_open b i" and i: "i < length ps"
    and eq: "flush_round os b i w d = ((b1, i1), w1, d1)"
  shows "round_ok b ps i w d b1 i1 w1 d1"
proof -
  have len: "batch_len b = length ps"
    using batch_rep_len [OF b(1)] .
  note failed = round_failed [OF b _ less_imp_le [OF i] order_refl]
  have stay: "wal_becomes w d w d (wal_log w d)"
    using wal_becomes_syscall [OF inv refl] .
  show ?thesis
  proof (cases "\<exists>seg. w_active w = Some seg \<and> \<not> w_closed w \<and> sg_file seg")
    case False
    then have "b1 = batch_fail b i (length ps) (Some ErrClosed) \<and> i1 = length ps \<and> w1 = w \<and> d1 = d"
      using eq by (auto simp: flush_round_def Let_def len split: option.splits if_splits)
    then show ?thesis
      using failed [OF stay] by simp
  next
    case True
    then obtain seg where seg: "w_active w = Some seg" "\<not> w_closed w" "sg_file seg"
      by blast
    note round = flush_round_def Let_def len seg
    show ?thesis
    proof (cases "int (sg_size seg + batch_size b i) > wo_maxSegmentBytes (w_opts w) \<and> sg_records seg > 0")
      case full: True
      obtain e2 w2 d2 where seal: "sealActiveLocked os w d = (e2, w2, d2)"
        by (metis surj_pair)
      obtain e3 w3 d3 where new: "openNewActiveLocked os w2 d2 = (e3, w3, d3)"
        by (metis surj_pair)
      have out: "((b1, i1), w1, d1) = (case e2 of
            Some e \<Rightarrow> ((batch_fail b i (length ps) (Some e), length ps), w2, d2)
          | None \<Rightarrow> (case e3 of Some e \<Rightarrow> ((batch_fail b i (length ps) (Some e), length ps), w3, d3)
                     | None \<Rightarrow> ((b, i), w3, d3)))"
        unfolding eq [symmetric] using full by (simp add: round seal new split: option.splits)
      show ?thesis
      proof (cases e2)
        case (Some e)
        have "wal_becomes w d w2 d2 (wal_log w d)"
          using sealActiveLocked_becomes [OF inv seal] by simp
        then show ?thesis
          using out failed [of w d w2 d2 e] Some by simp
      next
        case None
        have to_new: "wal_becomes w d w3 d3 (wal_log w d)"
          using round_roll [OF inv b less_imp_le [OF i] seal [unfolded None] new] .
        moreover have "batch_results b i i = []"
          by (simp add: batch_results_def)
        ultimately have "round_ok b ps i w d b i w3 d3"
          using b i by (simp add: round_ok_def)
        then show ?thesis
          using out None failed [OF to_new] by (auto split: option.splits)
      qed
    next
      case False
      define j where "j = run_end b (wo_maxSegmentBytes (w_opts w)) i (sg_size seg) (sg_records seg)"
      have j: "i \<le> j" "j \<le> length ps"
        using run_end_ge run_end_le [of i b] i len by (auto simp: j_def)
      note chunk = batch_chunk [OF b(1) j]
      obtain n e d2 where wr: "file_Write os (sg_path seg) (encode_all (take (j - i) (drop i ps))) d = ((n, e), d2)"
        by (metis surj_pair)
      note out = flush_round_write [OF seg False j_def, of os d, unfolded chunk(1), unfolded chunk(2) eq wr prod.case]
      show ?thesis
      proof (cases e)
        case None
        obtain b2 pos where off: "assign_offs b (sg_id seg) [i..<j] (sg_size seg) = (b2, pos)"
          by fastforce
        from round_write [OF inv seg(1,3) b j wr [unfolded None] off refl] show ?thesis
          using out by (simp add: off None)
      next
        case (Some err)
        obtain err1 seg1 d3 where roll: "rollbackLocked os seg n (Some err) d2 = (err1, seg1, d3)"
          by (metis surj_pair)
        from round_rollback [OF inv seg(1,3) b j wr [unfolded Some] roll] show ?thesis
          using out by (simp add: roll Some)
      qed
    qed
  qed
qed

lemma batch_results_append: "i \<le> j \<Longrightarrow> j \<le> n \<Longrightarrow> batch_results b i n = batch_results b i j @ batch_results b j n"
  using upt_add_eq_append [of i j "n - j"] by (simp add: batch_results_def)

lemma batch_results_cong:
  assumes "batch_rep b ps" "batch_rep b1 ps" "\<And>k. k < j \<Longrightarrow> Append_result b1 k = Append_result b k" "j \<le> length ps"
  shows "batch_results b1 i j = batch_results b i j"
  using assms by (auto simp: batch_results_def batch_payload_nth intro!: map_cong filter_cong)

text \<open>A whole commit: every record of the batch gets its result.\<close>

lemma flush_loop_ok:
  assumes "wal_inv w d" "batch_rep b ps" "batch_open b i" "i \<le> length ps" "flush_loop os b i w d = (b1, w1, d1)"
  shows "round_ok b ps i w d b1 (length ps) w1 d1"
  using assms
proof (induction os b i w d rule: flush_loop.induct)
  case (1 os b i w d)
  have len: "batch_len b = length ps"
    using batch_rep_len "1.prems"(2) by blast
  obtain b2 i2 w2 d2 where round: "flush_round os b i w d = ((b2, i2), w2, d2)"
    by (metis surj_pair)
  show ?case
  proof (cases "i < length ps")
    case True
    have ok: "round_ok b ps i w d b2 i2 w2 d2"
      using flush_round_ok [OF "1.prems"(1,2,3) True round] .
    then have r: "wal_becomes w d w2 d2 (wal_log w d @ batch_results b2 i i2)" "batch_rep b2 ps" "batch_open b2 i2"
      "i \<le> i2" "i2 \<le> length ps" "\<And>k. k < i \<Longrightarrow> Append_result b2 k = Append_result b k"
      by (auto simp: round_ok_def)
    have rest: "flush_loop os b2 i2 w2 d2 = (b1, w1, d1)"
      using "1.prems"(5) True by (subst (asm) flush_loop.simps) (simp add: len round)
    have ok2: "round_ok b2 ps i2 w2 d2 b1 (length ps) w1 d1"
      using "1.IH" [OF _ round [symmetric] refl refl] True r rest by (simp add: len wal_becomes_def)
    then have s: "wal_becomes w2 d2 w1 d1 (wal_log w2 d2 @ batch_results b1 i2 (length ps))" "batch_rep b1 ps"
      "batch_open b1 (length ps)" "\<And>k. k < i2 \<Longrightarrow> Append_result b1 k = Append_result b2 k"
      by (auto simp: round_ok_def)
    have "wal_log w2 d2 = wal_log w d @ batch_results b2 i i2"
      using r(1) by (simp add: wal_becomes_def)
    moreover have "batch_results b1 i (length ps) = batch_results b2 i i2 @ batch_results b1 i2 (length ps)"
      using batch_results_append [OF r(4,5), of b1] batch_results_cong [OF r(2) s(2,4) r(5), of i] by simp
    ultimately have "wal_becomes w d w1 d1 (wal_log w d @ batch_results b1 i (length ps))"
      using wal_becomes_trans [OF r(1) s(1)] by simp
    then show ?thesis
      using r(4,5,6) s by (simp add: round_ok_def)
  next
    case False
    then have "b1 = b" "w1 = w" "d1 = d" "i = length ps"
      using "1.prems"(4,5) by (simp_all add: len flush_loop.simps)
    then show ?thesis
      using "1.prems" wal_becomes_syscall [OF "1.prems"(1) refl] by (simp add: round_ok_def batch_results_def)
  qed
qed

end
