(* ===== verification/WalOps.thy ===== *)
theory WalOps
  imports WalInv
begin

text \<open>
  Acknowledgements, the reading of pending records, syncing and closing: what they do to the abstract
  log of the write-ahead log.
\<close>

subsection \<open>Acknowledgements\<close>

lemma filter_with_offsets:
  "filter (\<lambda>r. fst r \<noteq> off) (with_offsets i l) =
     (if of_SegmentID off = i then with_offsets i (filter (\<lambda>(pos, p). pos \<noteq> of_Position off) l) else with_offsets i l)"
  by (cases off) (auto simp: with_offsets_def filter_map o_def case_prod_unfold filter_id_conv)

lemma filter_other_log:
  assumes "sg_id seg \<noteq> of_SegmentID off"
  shows "filter (\<lambda>r. fst r \<noteq> off) (seg_log d seg) = seg_log d seg"
  using assms by (simp add: seg_log_def filter_with_offsets)

lemma seg_ack_rep:
  assumes rep: "seg_rep d seg ps m" and pos: "pos \<in> fst ` set (seg_records d seg)"
  shows "seg_rep d (seg_ack seg pos) ps m"
    "seg_log d (seg_ack seg pos) = filter (\<lambda>r. fst r \<noteq> \<lparr> of_SegmentID = sg_id seg, of_Position = pos \<rparr>) (seg_log d seg)"
proof -
  let ?l = "place (sg_pendingPosition seg) (drop m ps)"
  have log: "seg_log d seg = with_offsets (sg_id seg) (filter (\<lambda>(q, p). q \<notin> set (sg_acked seg)) ?l)"
    using seg_log_rep [OF rep] .
  have k: "m \<le> length ps" "sg_pendingPosition seg = length (encode_all (take m ps))"
    using rep unfolding seg_rep_def by blast+
  consider (before) "pos < sg_pendingPosition seg" | (acked) "pos \<in> set (sg_acked seg)"
    | (none) "sg_unacked seg = 0"
    | (ack) "pos \<in> fst ` set ?l" "pos \<notin> set (sg_acked seg)" "sg_unacked seg \<noteq> 0"
    using pos place_split [OF k(1), of 0] place_positions [of pos _ 0 "take m ps"] k(2)
    unfolding seg_records_rep [OF rep] by (fastforce simp: recordHeaderSize_def)
  then have "seg_rep d (seg_ack seg pos) ps m \<and> seg_log d (seg_ack seg pos) =
      filter (\<lambda>r. fst r \<noteq> \<lparr> of_SegmentID = sg_id seg, of_Position = pos \<rparr>) (seg_log d seg)"
  proof cases
    case before
    then have "filter (\<lambda>(q, p). q \<noteq> pos) (filter (\<lambda>(q, p). q \<notin> set (sg_acked seg)) ?l) =
        filter (\<lambda>(q, p). q \<notin> set (sg_acked seg)) ?l"
      by (auto intro!: filter_cong dest!: place_positions)
    then show ?thesis
      using before rep by (simp add: seg_ack_def log filter_with_offsets)
  next
    case acked
    then have "seg_ack seg pos = seg"
      by (simp add: seg_ack_def)
    moreover have "filter (\<lambda>(q, p). q \<noteq> pos) (filter (\<lambda>(q, p). q \<notin> set (sg_acked seg)) ?l) =
        filter (\<lambda>(q, p). q \<notin> set (sg_acked seg)) ?l"
      using acked by (auto intro!: filter_cong)
    ultimately show ?thesis
      using rep by (simp add: log filter_with_offsets)
  next
    case none
    then have "seg_ack seg pos = seg" "seg_log d seg = []"
      using seg_log_acked [of d seg] rep by (auto simp: seg_ack_def seg_inv_def)
    then show ?thesis
      using rep by simp
  next
    case ack
    have "sg_pendingPosition seg \<le> pos" "pos < sg_size seg"
      using ack(1) k place_positions [of pos _ "sg_pendingPosition seg" "drop m ps"] rep
        place_positions [of pos _ 0 ps] place_split [OF k(1), of 0]
      by (fastforce simp: seg_rep_def recordHeaderSize_def)+
    then have eq: "seg_ack seg pos = seg\<lparr>sg_acked := pos # sg_acked seg, sg_unacked := sg_unacked seg - 1\<rparr>"
      using ack by (simp add: seg_ack_def)
    have rep1: "seg_rep d (seg_ack seg pos) ps m"
      using rep ack(1,2) unfolding seg_rep_def eq by auto
    have "filter (\<lambda>(q, p). q \<noteq> pos) (filter (\<lambda>(q, p). q \<notin> set (sg_acked seg)) ?l) =
        filter (\<lambda>(q, p). q \<notin> insert pos (set (sg_acked seg))) ?l"
      by (auto intro!: filter_cong)
    then show ?thesis
      using rep1 seg_log_rep [OF rep1] by (simp add: log filter_with_offsets eq)
  qed
  then show "seg_rep d (seg_ack seg pos) ps m"
    "seg_log d (seg_ack seg pos) = filter (\<lambda>r. fst r \<noteq> \<lparr> of_SegmentID = sg_id seg, of_Position = pos \<rparr>) (seg_log d seg)"
    by auto
qed

lemma seg_ack_fields [simp]: "sg_id (seg_ack seg pos) = sg_id seg" "sg_path (seg_ack seg pos) = sg_path seg"
  "sg_size (seg_ack seg pos) = sg_size seg" "sg_file (seg_ack seg pos) = sg_file seg"
  by (simp_all add: seg_ack_def)

text \<open>An offset that an append returned, or that belongs to a segment already gone.\<close>

definition ack_ok :: "WAL \<Rightarrow> 'x disk \<Rightarrow> Offset \<Rightarrow> bool" where
  "ack_ok w d off \<longleftrightarrow> (\<forall>seg \<in> set (wal_segs w). sg_id seg = of_SegmentID off \<longrightarrow>
     of_Position off \<in> fst ` set (seg_records d seg))"

lemma ack_sealed_none:
  "\<forall>s \<in> set ss. sg_id s \<noteq> of_SegmentID off \<Longrightarrow> ack_sealed os off before ss w d = (w, d)"
  by (induction ss arbitrary: before) auto

lemma ack_sealed_at:
  assumes "\<forall>s \<in> set xs. sg_id s \<noteq> of_SegmentID off" "sg_id s = of_SegmentID off"
  shows "ack_sealed os off before (xs @ s # ys) w d =
    (let s1 = seg_ack s (of_Position off)
     in if sg_unacked s1 \<le> 0
        then (w\<lparr>w_totalSz := w_totalSz w - int (sg_size s), w_sealed := before @ xs @ ys\<rparr>, snd (os_Remove os (sg_path s) d))
        else (w\<lparr>w_sealed := before @ xs @ s1 # ys\<rparr>, d))"
  using assms by (induction xs arbitrary: before) (auto simp: Let_def)

lemma filter_logs_other:
  assumes "\<forall>s \<in> set ss. sg_id s \<noteq> of_SegmentID off"
  shows "filter (\<lambda>r. fst r \<noteq> off) (concat (map (seg_log d) ss)) = concat (map (seg_log d) ss)"
  using assms by (induction ss) (simp_all add: filter_other_log)

lemma ids_differ:
  assumes "wal_inv w d" "wal_segs w = xs @ seg # ys"
  shows "\<forall>s \<in> set xs. sg_id s \<noteq> sg_id seg" "\<forall>s \<in> set ys. sg_id s \<noteq> sg_id seg"
  using assms by (auto simp: wal_inv_def sorted_wrt_append)

lemma ack_segment:
  assumes inv: "wal_inv w d" and segs: "wal_segs w = xs @ seg # ys" and sid: "sg_id seg = of_SegmentID off"
    and ok: "ack_ok w d off"
  shows "filter (\<lambda>r. fst r \<noteq> off) (wal_log w d) =
      concat (map (seg_log d) xs) @ seg_log d (seg_ack seg (of_Position off)) @ concat (map (seg_log d) ys)"
    "seg_inv d (seg_ack seg (of_Position off))"
proof -
  have pos: "of_Position off \<in> fst ` set (seg_records d seg)"
    using ok segs sid by (auto simp: ack_ok_def)
  obtain ps m where rep: "seg_rep d seg ps m"
    using wal_inv_path(3) [OF inv, of seg] segs by (auto simp: seg_inv_def)
  have off: "\<lparr> of_SegmentID = sg_id seg, of_Position = of_Position off \<rparr> = off"
    using sid by (cases off) simp
  show "seg_inv d (seg_ack seg (of_Position off))"
    using seg_ack_rep(1) [OF rep pos] by (auto simp: seg_inv_def)
  show "filter (\<lambda>r. fst r \<noteq> off) (wal_log w d) =
      concat (map (seg_log d) xs) @ seg_log d (seg_ack seg (of_Position off)) @ concat (map (seg_log d) ys)"
    using ids_differ [OF inv segs] seg_ack_rep(2) [OF rep pos, unfolded off] sid
    by (simp add: wal_log_segs [OF segs] filter_logs_other)
qed

lemma ack_sealed_becomes:
  assumes inv: "wal_inv w d" and act: "\<forall>seg. w_active w = Some seg \<longrightarrow> sg_id seg \<noteq> of_SegmentID off"
    and ok: "ack_ok w d off" and eq: "ack_sealed os off [] (w_sealed w) w d = (w1, d1)"
  shows "wal_becomes w d w1 d1 (filter (\<lambda>r. fst r \<noteq> off) (wal_log w d))"
proof (cases "\<exists>s \<in> set (w_sealed w). sg_id s = of_SegmentID off")
  case False
  then have "w1 = w" "d1 = d"
    using eq by (simp_all add: ack_sealed_none)
  moreover have "filter (\<lambda>r. fst r \<noteq> off) (wal_log w d) = wal_log w d"
    unfolding wal_log_def using False act
    by (intro filter_logs_other) (auto simp: wal_segs_def split: option.splits)
  ultimately show ?thesis
    using wal_becomes_syscall [OF inv refl] by simp
next
  case True
  then obtain xs s ys where split: "w_sealed w = xs @ s # ys" "sg_id s = of_SegmentID off"
    "\<forall>s \<in> set xs. sg_id s \<noteq> of_SegmentID off"
    by (auto dest!: split_list_first_prop)
  let ?ys = "ys @ (case w_active w of None \<Rightarrow> [] | Some seg \<Rightarrow> [seg])"
  let ?s = "seg_ack s (of_Position off)"
  have segs: "wal_segs w = xs @ s # ?ys"
    by (simp add: wal_segs_def split)
  have seg: "seg_inv d s"
    using wal_inv_path(3) [OF inv, of s] segs by simp
  note ack = ack_segment [OF inv segs split(2) ok]
  have sealed: "\<And>s. s \<in> set (w_sealed w) \<Longrightarrow> \<not> sg_file s \<and> sg_unacked s > 0"
    using inv by (simp add: wal_inv_def)
  note eq1 = eq [unfolded split(1) ack_sealed_at [OF split(3,2)] Let_def]
  show ?thesis
  proof (cases "sg_unacked ?s \<le> 0")
    case True
    then have w1: "w1 = w\<lparr>w_totalSz := w_totalSz w - int (sg_size s), w_sealed := xs @ ys\<rparr>"
      and d1: "d1 = snd (os_Remove os (sg_path s) d)"
      using eq1 by auto
    have "wal_becomes w d w1 d1 (concat (map (seg_log d) (xs @ ?ys)))"
      by (rule drop_segment [OF inv segs])
        (use w1 d1 sealed split remove_frame [OF seg] in \<open>auto simp: wal_segs_def\<close>)
    then show ?thesis
      using ack(1) seg_log_acked [OF ack(2) True] by simp
  next
    case False
    then have w1: "w1 = w\<lparr>w_sealed := xs @ ?s # ys\<rparr>" "d1 = d"
      using eq1 by auto
    have "wal_becomes w d w1 d1 (concat (map (seg_log d) xs) @ seg_log d1 ?s @ concat (map (seg_log d) ?ys))"
      by (rule replace_segment [OF inv segs])
        (use w1 sealed split ack(2) False in \<open>auto simp: wal_segs_def\<close>)
    then show ?thesis
      using ack(1) w1 by simp
  qed
qed

lemma Ack_becomes:
  assumes inv: "wal_inv w d" and ok: "ack_ok w d off" and eq: "Ack os off w d = (w1, d1)"
  shows "wal_becomes w d w1 d1 (if w_closed w then wal_log w d else filter (\<lambda>r. fst r \<noteq> off) (wal_log w d))"
proof (cases "w_closed w")
  case True
  then show ?thesis
    using eq wal_becomes_syscall [OF inv refl] by (auto simp: Ack_def)
next
  case False
  show ?thesis
  proof (cases "Offset_IsZero off")
    case True
    have "\<forall>s \<in> set (wal_segs w). sg_id s \<noteq> of_SegmentID off"
      using True wal_inv_path(3) [OF inv] by (auto simp: Offset_IsZero_def seg_inv_def seg_rep_def)
    then have "filter (\<lambda>r. fst r \<noteq> off) (wal_log w d) = wal_log w d"
      unfolding wal_log_def by (rule filter_logs_other)
    then show ?thesis
      using eq True wal_becomes_syscall [OF inv refl] by (auto simp: Ack_def)
  next
    case nonzero: False
    show ?thesis
    proof (cases "\<exists>seg. w_active w = Some seg \<and> sg_id seg = of_SegmentID off")
      case True
      then obtain seg where seg: "w_active w = Some seg" "sg_id seg = of_SegmentID off"
        by blast
      have segs: "wal_segs w = w_sealed w @ seg # []"
        using wal_segs_active [OF seg(1)] by simp
      have w1: "w1 = w\<lparr>w_active := Some (seg_ack seg (of_Position off))\<rparr>" "d1 = d"
        using eq nonzero False seg by (auto simp: Ack_def)
      note ack = ack_segment [OF inv segs seg(2) ok]
      have "wal_becomes w d w1 d1 (concat (map (seg_log d) (w_sealed w)) @ seg_log d1 (seg_ack seg (of_Position off)) @
          concat (map (seg_log d) []))"
        by (rule replace_segment [OF inv segs]) (use w1 ack(2) inv in \<open>auto simp: wal_segs_def wal_inv_def\<close>)
      then show ?thesis
        using ack(1) w1 False by simp
    next
      case other: False
      have "ack_sealed os off [] (w_sealed w) w d = (w1, d1)"
        using eq nonzero False other by (auto simp: Ack_def split: option.splits)
      then show ?thesis
        using ack_sealed_becomes [OF inv _ ok] other False by auto
    qed
  qed
qed

subsection \<open>Reading pending records\<close>

definition reads_fail :: "'x os \<Rightarrow> bool" where
  "reads_fail os \<longleftrightarrow> (\<exists>op \<in> {IoOpen, IoRead}. \<exists>path x. fst (os_err os op path x) \<noteq> None)"

lemma syscall_error: "syscall os op path d = (Some e, d1) \<Longrightarrow> fst (os_err os op path (snd d)) = Some e"
  by (auto simp: syscall_def split: prod.splits)

lemma syscall_reads_fail: "syscall os op path d = (Some e, d1) \<Longrightarrow> op \<in> {IoOpen, IoRead} \<Longrightarrow> reads_fail os"
  using syscall_error [of os op path d e d1] unfolding reads_fail_def by (metis option.distinct(1))

lemma file_ReadAt_ok:
  assumes "file_ReadAt os path n pos d = (r, d1)" "pos + n \<le> length (file_data d path)"
  shows "fst d1 = fst d" "case r of Inr got \<Rightarrow> got = take n (drop pos (file_data d path)) | Inl e \<Rightarrow> reads_fail os"
proof -
  obtain e d2 where sys: "syscall os IoRead path d = (e, d2)"
    by (metis surj_pair)
  have fs: "fst d2 = fst d"
    using fst_syscall [OF sys] .
  show "fst d1 = fst d"
    using assms fs by (cases e) (auto simp: file_ReadAt_def sys split: if_splits)
  show "case r of Inr got \<Rightarrow> got = take n (drop pos (file_data d path)) | Inl e \<Rightarrow> reads_fail os"
    using assms fs syscall_reads_fail [of os IoRead path d] sys file_data_cong [of d2 path d]
    by (cases e) (auto simp: file_ReadAt_def)
qed

text \<open>The window holds bytes of the file.\<close>

definition window_ok :: "bytes \<Rightarrow> bytes \<Rightarrow> nat option \<Rightarrow> nat \<Rightarrow> nat \<Rightarrow> bool" where
  "window_ok bs buf wlen wstart pos \<longleftrightarrow>
     (case wlen of None \<Rightarrow> True
      | Some wl \<Rightarrow> wstart \<le> pos \<and> wl \<le> length buf \<and> wstart + wl \<le> length bs \<and> take wl buf = take wl (drop wstart bs))"

lemma fetch_window_ok:
  assumes win: "window_ok (file_data d path) buf wlen wstart pos" and sz: "pos + 8 \<le> sz" "sz \<le> length (file_data d path)"
    and buf: "8 \<le> length buf" and eq: "fetch_window os path sz buf wlen wstart pos d = (r, d1)"
  shows "fst d1 = fst d"
    "case r of Inl e \<Rightarrow> reads_fail os
     | Inr (buf1, wl, wstart1, rel) \<Rightarrow> length buf1 = length buf \<and> window_ok (file_data d path) buf1 (Some wl) wstart1 pos
         \<and> rel = pos - wstart1 \<and> rel + 8 \<le> wl"
proof -
  let ?n = "min (length buf) (sz - pos)"
  let ?refill = "case wlen of None \<Rightarrow> True | Some wl \<Rightarrow> pos - wstart + recordHeaderSize > wl"
  have "fst d1 = fst d \<and> (case r of Inl e \<Rightarrow> reads_fail os
     | Inr (buf1, wl, wstart1, rel) \<Rightarrow> length buf1 = length buf \<and> window_ok (file_data d path) buf1 (Some wl) wstart1 pos
         \<and> rel = pos - wstart1 \<and> rel + 8 \<le> wl)"
  proof (cases ?refill)
    case True
    obtain r1 d2 where rd: "file_ReadAt os path ?n pos d = (r1, d2)"
      by (metis surj_pair)
    have n: "pos + ?n \<le> length (file_data d path)" "8 \<le> ?n" "?n \<le> length buf"
      using sz buf by auto
    note got = file_ReadAt_ok [OF rd n(1)]
    have out: "(r, d1) = (case r1 of Inl e \<Rightarrow> Inl e | Inr g \<Rightarrow> Inr (g @ drop ?n buf, ?n, pos, 0), d2)"
      unfolding eq [symmetric] fetch_window_def using True rd by (simp add: Let_def split: sum.splits)
    show ?thesis
    proof (cases r1)
      case (Inl e)
      then show ?thesis
        using out got by simp
    next
      case (Inr g)
      then have "length g = ?n" "g = take ?n (drop pos (file_data d path))"
        using got(2) n by auto
      then show ?thesis
        using out got(1) Inr n by (simp add: window_ok_def)
    qed
  next
    case False
    then obtain wl where "wlen = Some wl" "pos - wstart + recordHeaderSize \<le> wl"
      by (auto split: option.splits)
    then show ?thesis
      using eq win by (auto simp: fetch_window_def window_ok_def recordHeaderSize_def)
  qed
  then show "fst d1 = fst d"
    "case r of Inl e \<Rightarrow> reads_fail os
     | Inr (buf1, wl, wstart1, rel) \<Rightarrow> length buf1 = length buf \<and> window_ok (file_data d path) buf1 (Some wl) wstart1 pos
         \<and> rel = pos - wstart1 \<and> rel + 8 \<le> wl"
    by auto
qed

lemma window_bytes:
  assumes "window_ok bs buf (Some wl) wstart pos" "pos - wstart + k + n \<le> wl"
  shows "take n (drop (pos - wstart + k) buf) = take n (drop (pos + k) bs)"
proof -
  have w: "wstart \<le> pos" "take wl buf = take wl (drop wstart bs)"
    using assms(1) by (auto simp: window_ok_def)
  have "take n (drop (pos - wstart + k) buf) = take n (drop (pos - wstart + k) (take wl buf))"
    using assms(2) by (simp add: drop_take min_def)
  also have "\<dots> = take n (drop (pos - wstart + k) (drop wstart bs))"
    unfolding w(2) using assms(2) by (simp add: drop_take min_def)
  also have "\<dots> = take n (drop (pos + k) bs)"
    using w(1) by (simp add: add.commute add.left_commute)
  finally show ?thesis .
qed

lemma fetch_payload_ok:
  assumes win: "window_ok (file_data d path) buf (Some wl) wstart pos" and fs: "fst d1 = fst d"
    and sz: "pos + 8 + n \<le> length (file_data d path)"
    and eq: "fetch_payload os path buf wl (pos - wstart) n pos d1 = (r, d2)"
  shows "fst d2 = fst d" "case r of Inr p \<Rightarrow> p = take n (drop (pos + 8) (file_data d path)) | Inl e \<Rightarrow> reads_fail os"
proof -
  have same: "file_data d1 path = file_data d path"
    using fs by (simp add: file_data_def)
  have "fst d2 = fst d \<and> (case r of Inr p \<Rightarrow> p = take n (drop (pos + 8) (file_data d path)) | Inl e \<Rightarrow> reads_fail os)"
  proof (cases "pos - wstart + 8 + n \<le> wl")
    case True
    then show ?thesis
      using eq fs window_bytes [OF win, of 8 n] by (auto simp: fetch_payload_def Let_def recordHeaderSize_def)
  next
    case False
    then have "file_ReadAt os path n (pos + 8) d1 = (r, d2)"
      using eq by (simp add: fetch_payload_def Let_def recordHeaderSize_def)
    from file_ReadAt_ok [OF this, unfolded same] show ?thesis
      using fs sz by simp
  qed
  then show "fst d2 = fst d" "case r of Inr p \<Rightarrow> p = take n (drop (pos + 8) (file_data d path)) | Inl e \<Rightarrow> reads_fail os"
    by auto
qed

text \<open>Dropping the acknowledged records at the front of a segment.\<close>

lemma encode_all_take_Suc:
  "j < length ps \<Longrightarrow> length (encode_all (take (Suc j) ps)) = length (encode_all (take j ps)) + 8 + length (ps ! j)"
  by (simp add: take_Suc_conv_app_nth recordHeaderSize_def)

lemma encode_all_take_less:
  assumes "m < j" "j \<le> length ps"
  shows "length (encode_all (take m ps)) < length (encode_all (take j ps))"
proof -
  have "take (j - m) (drop m ps) \<noteq> []"
    using assms by auto
  then show ?thesis
    using encode_all_take_drop [of m j ps] assms(1) by (cases "take (j - m) (drop m ps)") (auto simp: recordHeaderSize_def)
qed

lemma place_drop: "j < length ps \<Longrightarrow> place pos (drop j ps) = (pos, ps ! j) # place (pos + 8 + length (ps ! j)) (drop (Suc j) ps)"
  by (simp add: Cons_nth_drop_Suc [symmetric] recordHeaderSize_def)

definition same_segment :: "segmentRef \<Rightarrow> segmentRef \<Rightarrow> bool" where
  "same_segment seg seg1 \<longleftrightarrow> sg_id seg1 = sg_id seg \<and> sg_path seg1 = sg_path seg \<and> sg_file seg1 = sg_file seg \<and>
     sg_size seg1 = sg_size seg \<and> sg_unacked seg1 = sg_unacked seg"

lemma drop_acked_ok:
  assumes rep: "seg_rep d seg ps m" and j: "m \<le> j" "j < length ps"
    and pos: "pos = length (encode_all (take j ps))" "nxt = pos + 8 + length (ps ! j)"
  shows "\<exists>m1 \<le> Suc j. seg_rep d (drop_acked seg pos nxt) ps m1" "seg_log d (drop_acked seg pos nxt) = seg_log d seg"
    "same_segment seg (drop_acked seg pos nxt)"
    "q > pos \<Longrightarrow> q \<in> set (sg_acked (drop_acked seg pos nxt)) \<longleftrightarrow> q \<in> set (sg_acked seg)"
proof -
  have "(\<exists>m1 \<le> Suc j. seg_rep d (drop_acked seg pos nxt) ps m1) \<and> seg_log d (drop_acked seg pos nxt) = seg_log d seg"
  proof (cases "pos \<in> set (sg_acked seg) \<and> pos = sg_pendingPosition seg")
    case False
    then show ?thesis
      using rep j by (auto simp: drop_acked_def intro!: exI [of _ m])
  next
    case True
    then have eq: "drop_acked seg pos nxt = seg\<lparr>sg_acked := removeAll pos (sg_acked seg), sg_pendingPosition := nxt\<rparr>"
      unfolding drop_acked_def by (rule if_P)
    have k: "sg_pendingPosition seg = length (encode_all (take m ps))" "distinct (sg_acked seg)"
      "set (sg_acked seg) \<subseteq> fst ` set (place (sg_pendingPosition seg) (drop m ps))"
      using rep unfolding seg_rep_def by blast+
    then have m: "m = j"
      using encode_all_take_less [of m j ps] True pos j by (cases "m = j") auto
    have rest: "place pos (drop j ps) = (pos, ps ! j) # place nxt (drop (Suc j) ps)"
      using place_drop [OF j(2)] pos by simp
    have later: "pos \<notin> fst ` set (place nxt (drop (Suc j) ps))"
      using pos(2) by (auto dest!: place_positions)
    have sub: "set (removeAll pos (sg_acked seg)) \<subseteq> fst ` set (place nxt (drop (Suc j) ps))"
      using k(3) True rest m by auto
    have len: "int (length (removeAll pos (sg_acked seg))) = int (length (sg_acked seg)) - 1"
      using True k(2) length_pos_if_in_set [of pos "sg_acked seg"]
      by (auto simp: distinct_remove1_removeAll [symmetric] length_remove1 of_nat_diff Suc_le_eq)
    have rep1: "seg_rep d (drop_acked seg pos nxt) ps (Suc j)"
      using rep sub len j encode_all_take_Suc [OF j(2)] pos m unfolding seg_rep_def eq
      by (elim conjE) (simp add: distinct_removeAll)
    have "filter (\<lambda>(q, p). q \<notin> set (sg_acked seg)) (place pos (drop j ps)) =
        filter (\<lambda>(q, p). q \<notin> set (removeAll pos (sg_acked seg))) (place nxt (drop (Suc j) ps))"
      unfolding rest using True later by (force intro!: filter_cong)
    then have "seg_log d (drop_acked seg pos nxt) = seg_log d seg"
      using seg_log_rep [OF rep1, unfolded eq] seg_log_rep [OF rep] True m unfolding eq by simp
    then show ?thesis
      using rep1 by blast
  qed
  then show "\<exists>m1 \<le> Suc j. seg_rep d (drop_acked seg pos nxt) ps m1" "seg_log d (drop_acked seg pos nxt) = seg_log d seg"
    by auto
  show "same_segment seg (drop_acked seg pos nxt)"
    by (simp add: same_segment_def drop_acked_def)
  show "q > pos \<Longrightarrow> q \<in> set (sg_acked (drop_acked seg pos nxt)) \<longleftrightarrow> q \<in> set (sg_acked seg)"
    by (simp add: drop_acked_def)
qed

text \<open>The records from position \<open>pos\<close> on that a reader gets: those that wait and that it does not skip.\<close>

definition wanted :: "(Offset \<Rightarrow> bool) option \<Rightarrow> wal_record \<Rightarrow> bool" where
  "wanted skip r = (case skip of None \<Rightarrow> True | Some f \<Rightarrow> \<not> f (fst r))"

definition pending_from :: "(Offset \<Rightarrow> bool) option \<Rightarrow> segmentRef \<Rightarrow> nat \<Rightarrow> bytes list \<Rightarrow> wal_record list" where
  "pending_from skip seg pos ps =
     filter (wanted skip) (with_offsets (sg_id seg) (filter (\<lambda>(q, p). q \<notin> set (sg_acked seg)) (place pos ps)))"

lemma pending_from_Cons:
  "pending_from skip seg pos (p # ps) =
     (let off = \<lparr> of_SegmentID = sg_id seg, of_Position = pos \<rparr>; rest = pending_from skip seg (pos + 8 + length p) ps
      in if pos \<notin> set (sg_acked seg) \<and> (case skip of None \<Rightarrow> True | Some f \<Rightarrow> \<not> f off) then (off, p) # rest else rest)"
  by (auto simp: pending_from_def with_offsets_def wanted_def Let_def recordHeaderSize_def split: option.splits)

lemma pending_from_cong:
  assumes "sg_id seg1 = sg_id seg" "\<And>q. q \<ge> pos \<Longrightarrow> q \<in> set (sg_acked seg1) \<longleftrightarrow> q \<in> set (sg_acked seg)"
  shows "pending_from skip seg1 pos ps = pending_from skip seg pos ps"
proof -
  have "filter (\<lambda>(q, p). q \<notin> set (sg_acked seg1)) (place pos ps) = filter (\<lambda>(q, p). q \<notin> set (sg_acked seg)) (place pos ps)"
    using assms(2) by (auto intro!: filter_cong dest!: place_positions)
  then show ?thesis
    by (simp add: pending_from_def assms(1))
qed

text \<open>The bytes at a record.\<close>

lemma record_bytes:
  assumes rep: "seg_rep d seg ps m" and j: "j < length ps" and pos: "pos = length (encode_all (take j ps))"
  shows "take 4 (take 8 (drop pos (file_data d (sg_path seg)))) = AppendUint32 (of_nat (length (ps ! j)))"
    "drop 4 (take 8 (drop pos (file_data d (sg_path seg)))) = AppendUint32 (ChecksumIEEE (ps ! j))"
    "take (length (ps ! j)) (drop (pos + 8) (file_data d (sg_path seg))) = ps ! j"
    "pos + 8 + length (ps ! j) \<le> sg_size seg" "sg_size seg \<le> length (file_data d (sg_path seg))"
    "valid_payload (ps ! j)"
proof -
  obtain t where t: "file_data d (sg_path seg) = encode_all ps @ t" and sz: "sg_size seg = length (encode_all ps)"
    and valid: "list_all valid_payload ps"
    using rep unfolding seg_rep_def by blast
  have split: "encode_all ps = encode_all (take j ps) @ encode_record (ps ! j) @ encode_all (drop (Suc j) ps)"
    using id_take_nth_drop [OF j] by (metis concat.simps(2) concat_append list.simps(9) map_append)
  have at: "drop pos (file_data d (sg_path seg)) = encode_record (ps ! j) @ encode_all (drop (Suc j) ps) @ t"
    unfolding t split pos by simp
  show "take 4 (take 8 (drop pos (file_data d (sg_path seg)))) = AppendUint32 (of_nat (length (ps ! j)))"
    "drop 4 (take 8 (drop pos (file_data d (sg_path seg)))) = AppendUint32 (ChecksumIEEE (ps ! j))"
    unfolding at by (simp_all add: encode_record_def)
  have "drop (pos + 8) (file_data d (sg_path seg)) = drop 8 (drop pos (file_data d (sg_path seg)))"
    by (simp add: add.commute)
  then show "take (length (ps ! j)) (drop (pos + 8) (file_data d (sg_path seg))) = ps ! j"
    unfolding at by (simp add: encode_record_def)
  show "pos + 8 + length (ps ! j) \<le> sg_size seg"
    unfolding sz split pos by (simp add: recordHeaderSize_def)
  show "sg_size seg \<le> length (file_data d (sg_path seg))"
    unfolding sz t by simp
  show "valid_payload (ps ! j)"
    using valid j by (auto simp: list_all_length)
qed

lemma window_ok_mono:
  "window_ok bs buf (Some wl) ws pos \<Longrightarrow> pos \<le> nxt \<Longrightarrow> window_ok bs buf (Some wl) ws nxt"
  by (auto simp: window_ok_def)

text \<open>One turn of the loop, on a segment that keeps the invariant.\<close>

lemma read_pending_turn:
  assumes rep: "seg_rep d seg ps m" and j: "j < length ps" and pos: "pos = length (encode_all (take j ps))"
    and win: "window_ok (file_data d (sg_path seg)) buf wlen wstart pos" and buf: "8 \<le> length buf"
    and fs: "fst d0 = fst d" and out: "int (length out) < limit"
    and off: "off = \<lparr> of_SegmentID = sg_id seg, of_Position = pos \<rparr>" and nxt: "nxt = pos + 8 + length (ps ! j)"
    and eq: "read_pending_loop os limit skip (sg_size seg) buf wlen wstart pos seg out d0 = ((e, out1), seg1, buf1, d1)"
  shows "(e \<noteq> None \<and> reads_fail os \<and> seg1 = seg \<and> length buf1 = length buf \<and> fst d1 = fst d) \<or>
    (\<exists>buf2 wl ws d2. length buf2 = length buf \<and> window_ok (file_data d (sg_path seg)) buf2 (Some wl) ws nxt \<and> fst d2 = fst d \<and>
       (if pos \<notin> set (sg_acked seg) \<and> (case skip of None \<Rightarrow> True | Some f \<Rightarrow> \<not> f off)
        then read_pending_loop os limit skip (sg_size seg) buf2 (Some wl) ws nxt seg (out @ [(off, ps ! j)]) d2
               = ((e, out1), seg1, buf1, d1)
        else read_pending_loop os limit skip (sg_size seg) buf2 (Some wl) ws nxt (drop_acked seg pos nxt) out d2
               = ((e, out1), seg1, buf1, d1)))"
proof -
  note rec = record_bytes [OF rep j pos]
  have same: "file_data d0 (sg_path seg) = file_data d (sg_path seg)"
    using fs by (simp add: file_data_def)
  have sz: "pos < sg_size seg"
    using rec(4) by simp
  obtain r d2 where fw: "fetch_window os (sg_path seg) (sg_size seg) buf wlen wstart pos d0 = (r, d2)"
    by (metis surj_pair)
  have "pos + 8 \<le> sg_size seg"
    using rec(4) by simp
  note window = fetch_window_ok [OF win [folded same] this rec(5) [folded same] buf fw, unfolded same]
  show ?thesis
  proof (cases r)
    case (Inl err)
    have "((e, out1), seg1, buf1, d1) = ((Some err, out), seg, buf, d2)"
      unfolding eq [symmetric] using fw sz out by (subst read_pending_loop.simps) (simp add: Inl)
    then show ?thesis
      using window fs Inl by simp
  next
    case (Inr v)
    then obtain buf2 wl ws rel where r: "r = Inr (buf2, wl, ws, rel)"
      by (cases v) auto
    then have w: "length buf2 = length buf" "window_ok (file_data d (sg_path seg)) buf2 (Some wl) ws pos"
      "rel = pos - ws" "pos - ws + 8 \<le> wl" "fst d2 = fst d"
      using window fs by auto
    have header: "take 8 (drop rel buf2) = take 8 (drop pos (file_data d (sg_path seg)))"
      using window_bytes [OF w(2), of 0 8] w(3,4) by simp
    have n: "unat (Uint32 (take 4 (take 8 (drop rel buf2)))) = length (ps ! j)"
      unfolding header rec(1) using unat_length_payload [OF rec(6)] by simp
    have crc: "Uint32 (drop 4 (take 8 (drop rel buf2))) = ChecksumIEEE (ps ! j)"
      unfolding header rec(2) by simp
    have len: "\<not> (length (ps ! j) = 0 \<or> maxRecordBytes < length (ps ! j) \<or> sg_size seg < pos + 8 + length (ps ! j))"
      using rec(4,6) by (auto simp: valid_payload_def)
    have win2: "window_ok (file_data d (sg_path seg)) buf2 (Some wl) ws nxt"
      using window_ok_mono [OF w(2)] nxt by simp
    let ?want = "pos \<notin> set (sg_acked seg) \<and> (case skip of None \<Rightarrow> True | Some f \<Rightarrow> \<not> f off)"
    have step: "((e, out1), seg1, buf1, d1) =
        (if ?want
         then case fetch_payload os (sg_path seg) buf2 wl rel (length (ps ! j)) pos d2 of
                (Inl e, d3) \<Rightarrow> ((Some e, out), seg, buf2, d3)
              | (Inr payload, d3) \<Rightarrow>
                  (if ChecksumIEEE payload \<noteq> ChecksumIEEE (ps ! j) then ((Some ErrCorruptRecord, out), seg, buf2, d3)
                   else read_pending_loop os limit skip (sg_size seg) buf2 (Some wl) ws nxt seg (out @ [(off, payload)]) d3)
         else read_pending_loop os limit skip (sg_size seg) buf2 (Some wl) ws nxt (drop_acked seg pos nxt) out d2)"
      unfolding eq [symmetric]
      by (subst read_pending_loop.simps, unfold fw r)
        (simp only: sz out simp_thms if_True prod.case sum.case Let_def recordHeaderSize_def n crc if_not_P [OF len] off nxt)
    show ?thesis
    proof (cases ?want)
      case False
      have "read_pending_loop os limit skip (sg_size seg) buf2 (Some wl) ws nxt (drop_acked seg pos nxt) out d2
          = ((e, out1), seg1, buf1, d1)"
        using step unfolding if_not_P [OF False] by simp
      then show ?thesis
        unfolding if_not_P [OF False] using w win2 by blast
    next
      case True
      obtain r3 d3 where fp: "fetch_payload os (sg_path seg) buf2 wl rel (length (ps ! j)) pos d2 = (r3, d3)"
        by (metis surj_pair)
      have p: "fst d3 = fst d" "case r3 of Inr p \<Rightarrow> p = ps ! j | Inl e \<Rightarrow> reads_fail os"
        using fetch_payload_ok [OF w(2) w(5) _ fp [unfolded w(3)], unfolded rec(3)] rec(4,5) by auto
      note step1 = step [unfolded if_P [OF True] fp prod.case]
      show ?thesis
      proof (cases r3)
        case (Inl err)
        then show ?thesis
          using step1 p w by auto
      next
        case (Inr p3)
        then have "read_pending_loop os limit skip (sg_size seg) buf2 (Some wl) ws nxt seg (out @ [(off, ps ! j)]) d3
            = ((e, out1), seg1, buf1, d1)"
          using step1 p by simp
        then show ?thesis
          unfolding if_P [OF True] using w win2 p(1) by blast
      qed
    qed
  qed
qed

text \<open>What reading a segment changes and returns; \<open>L\<close> are the records to read.\<close>

definition read_ok :: "'x os \<Rightarrow> int \<Rightarrow> 'x disk \<Rightarrow> segmentRef \<Rightarrow> bytes \<Rightarrow> wal_record list \<Rightarrow> wal_record list
    \<Rightarrow> goerr option \<Rightarrow> wal_record list \<Rightarrow> segmentRef \<Rightarrow> bytes \<Rightarrow> 'x disk \<Rightarrow> bool" where
  "read_ok os limit d seg buf out L e out1 seg1 buf1 d1 \<longleftrightarrow>
     fst d1 = fst d \<and> seg_inv d seg1 \<and> seg_log d seg1 = seg_log d seg \<and> same_segment seg seg1 \<and> length buf1 = length buf \<and>
     (case e of Some err \<Rightarrow> reads_fail os | None \<Rightarrow> out1 = out @ take (nat (limit - int (length out))) L)"

lemma same_segment_refl [simp]: "same_segment seg seg"
  by (simp add: same_segment_def)

lemma same_segment_trans: "same_segment a b \<Longrightarrow> same_segment b c \<Longrightarrow> same_segment a c"
  by (simp add: same_segment_def)

lemma read_pending_loop_ok:
  assumes "seg_rep d seg ps m" "m \<le> j" "j \<le> length ps" "pos = length (encode_all (take j ps))"
    "window_ok (file_data d (sg_path seg)) buf wlen wstart pos" "8 \<le> length buf" "fst d0 = fst d" "int (length out) \<le> limit"
    "read_pending_loop os limit skip (sg_size seg) buf wlen wstart pos seg out d0 = ((e, out1), seg1, buf1, d1)"
  shows "read_ok os limit d seg buf out (pending_from skip seg pos (drop j ps)) e out1 seg1 buf1 d1"
  using assms
proof (induction "length ps - j" arbitrary: j m pos buf wlen wstart d0 out seg)
  case 0
  then have j: "j = length ps" "pos = sg_size seg"
    by (auto simp: seg_rep_def)
  then have "e = None" "out1 = out" "seg1 = seg" "buf1 = buf" "d1 = d0"
    using "0.prems"(9) by (simp_all add: read_pending_loop.simps)
  then show ?case
    using j "0.prems"(1,7) by (auto simp: read_ok_def seg_inv_def pending_from_def with_offsets_def)
next
  case (Suc n)
  then have j: "j < length ps" and n: "n = length ps - Suc j"
    by auto
  define nxt where "nxt = pos + 8 + length (ps ! j)"
  define off where "off = \<lparr> of_SegmentID = sg_id seg, of_Position = pos \<rparr>"
  let ?want = "pos \<notin> set (sg_acked seg) \<and> (case skip of None \<Rightarrow> True | Some f \<Rightarrow> \<not> f off)"
  let ?rest = "pending_from skip seg nxt (drop (Suc j) ps)"
  have nxt_pos: "nxt = length (encode_all (take (Suc j) ps))"
    using encode_all_take_Suc [OF j] Suc.prems(4) nxt_def by simp
  have L: "pending_from skip seg pos (drop j ps) = (if ?want then (off, ps ! j) # ?rest else ?rest)"
    unfolding off_def using j by (simp add: Cons_nth_drop_Suc [symmetric] pending_from_Cons Let_def nxt_def)
  have inv: "seg_inv d seg"
    using Suc.prems(1) by (auto simp: seg_inv_def)
  show ?case
  proof (cases "int (length out) < limit")
    case False
    then have "e = None" "out1 = out" "seg1 = seg" "buf1 = buf" "d1 = d0"
      using Suc.prems(9) by (simp_all add: read_pending_loop.simps)
    then show ?thesis
      using False Suc.prems(7) inv by (simp add: read_ok_def)
  next
    case True
    from read_pending_turn [OF Suc.prems(1) j Suc.prems(4,5,6,7) True off_def nxt_def Suc.prems(9)]
    consider (failed) "e \<noteq> None" "reads_fail os" "seg1 = seg" "length buf1 = length buf" "fst d1 = fst d"
      | (turn) buf2 wl ws d2 where "length buf2 = length buf" "window_ok (file_data d (sg_path seg)) buf2 (Some wl) ws nxt"
          "fst d2 = fst d"
          "if ?want
           then read_pending_loop os limit skip (sg_size seg) buf2 (Some wl) ws nxt seg (out @ [(off, ps ! j)]) d2
                  = ((e, out1), seg1, buf1, d1)
           else read_pending_loop os limit skip (sg_size seg) buf2 (Some wl) ws nxt (drop_acked seg pos nxt) out d2
                  = ((e, out1), seg1, buf1, d1)"
      by blast
    then show ?thesis
    proof cases
      case failed
      then show ?thesis
        using inv by (auto simp: read_ok_def)
    next
      case turn
      have buf2: "8 \<le> length buf2"
        using turn(1) Suc.prems(6) by simp
      show ?thesis
      proof (cases ?want)
        case w: True
        have out: "int (length (out @ [(off, ps ! j)])) \<le> limit" and m: "m \<le> Suc j"
          using True Suc.prems(2) by auto
        have "nat (limit - int (length out)) = Suc (nat (limit - int (length (out @ [(off, ps ! j)]))))"
          using True by simp
        moreover have "read_ok os limit d seg buf2 (out @ [(off, ps ! j)]) ?rest e out1 seg1 buf1 d1"
          using Suc.hyps(1) [OF n Suc.prems(1) m _ nxt_pos turn(2) buf2 turn(3) out] j turn(4) unfolding if_P [OF w] by simp
        ultimately show ?thesis
          using turn(1) unfolding L if_P [OF w] by (auto simp: read_ok_def split: option.splits)
      next
        case w: False
        let ?seg = "drop_acked seg pos nxt"
        note drop = drop_acked_ok [OF Suc.prems(1,2) j Suc.prems(4) nxt_def]
        obtain m1 where m1: "m1 \<le> Suc j" "seg_rep d ?seg ps m1"
          using drop(1) by blast
        have same: "sg_path ?seg = sg_path seg" "sg_size ?seg = sg_size seg" "sg_id ?seg = sg_id seg"
          using drop(3) by (simp_all add: same_segment_def)
        have "read_ok os limit d ?seg buf2 out (pending_from skip ?seg nxt (drop (Suc j) ps)) e out1 seg1 buf1 d1"
          using Suc.hyps(1) [OF n m1(2,1) _ nxt_pos, of buf2 "Some wl" ws d2 out] j turn buf2 Suc.prems(8) w same by auto
        moreover have "pending_from skip ?seg nxt (drop (Suc j) ps) = ?rest"
          using drop(4) same(3) nxt_def by (intro pending_from_cong) auto
        ultimately show ?thesis
          using turn(1) drop(2,3) same_segment_trans unfolding L if_not_P [OF w] by (auto simp: read_ok_def)
      qed
    qed
  qed
qed

definition buf_ok :: "bytes \<Rightarrow> bool" where
  "buf_ok buf \<longleftrightarrow> buf = [] \<or> length buf = pendingReadWindow"

lemma readPendingSegment_ok:
  fixes d d0 :: "'x disk"
  assumes inv: "seg_inv d seg" and buf: "buf_ok buf" and fs: "fst d0 = fst d" and out: "int (length out) \<le> limit"
    and eq: "readPendingSegment os limit skip buf seg out d0 = ((e, out1), seg1, buf1, d1)"
  shows "fst d1 = fst d" "seg_inv d seg1" "seg_log d seg1 = seg_log d seg" "same_segment seg seg1" "buf_ok buf1"
    "case e of Some err \<Rightarrow> reads_fail os
     | None \<Rightarrow> out1 = out @ take (nat (limit - int (length out))) (filter (wanted skip) (seg_log d seg))"
proof -
  have "fst d1 = fst d \<and> seg_inv d seg1 \<and> seg_log d seg1 = seg_log d seg \<and> same_segment seg seg1 \<and> buf_ok buf1 \<and>
    (case e of Some err \<Rightarrow> reads_fail os
     | None \<Rightarrow> out1 = out @ take (nat (limit - int (length out))) (filter (wanted skip) (seg_log d seg)))"
  proof (cases "sg_unacked seg = 0")
    case True
    then have "e = None \<and> out1 = out \<and> seg1 = seg \<and> buf1 = buf \<and> d1 = d0"
      using eq by (auto simp: readPendingSegment_def)
    then show ?thesis
      using inv buf fs seg_log_acked [OF inv] True by simp
  next
    case False
    obtain e1 d2 where sys: "syscall os IoOpen (sg_path seg) d0 = (e1, d2)"
      by (metis surj_pair)
    have d2: "fst d2 = fst d"
      using fst_syscall [OF sys] fs by simp
    obtain ps m where rep: "seg_rep d seg ps m"
      using inv by (auto simp: seg_inv_def)
    then have present: "gm_get (fst d2) (sg_path seg) \<noteq> None" and m: "m \<le> length ps"
      and pos: "sg_pendingPosition seg = length (encode_all (take m ps))"
      unfolding seg_rep_def d2 by blast+
    show ?thesis
    proof (cases e1)
      case (Some err)
      then have "e \<noteq> None \<and> seg1 = seg \<and> buf1 = buf \<and> d1 = d2"
        using eq False sys by (auto simp: readPendingSegment_def os_Open_def)
      then show ?thesis
        using inv buf d2 syscall_reads_fail [OF sys [unfolded Some]] by auto
    next
      case None
      let ?buf = "if buf = [] then replicate pendingReadWindow 0 else buf"
      have len: "length ?buf = pendingReadWindow" "8 \<le> length ?buf"
        using buf by (auto simp: buf_ok_def pendingReadWindow_def)
      have "read_pending_loop os limit skip (sg_size seg) ?buf None 0 (sg_pendingPosition seg) seg out d2 = ((e, out1), seg1, buf1, d1)"
        using eq False sys None present by (simp add: readPendingSegment_def os_Open_def)
      from read_pending_loop_ok [OF rep order_refl m pos _ len(2) d2 out this]
      have "read_ok os limit d seg ?buf out (pending_from skip seg (sg_pendingPosition seg) (drop m ps)) e out1 seg1 buf1 d1"
        by (simp add: window_ok_def)
      then show ?thesis
        using len(1) seg_log_rep [OF rep] by (auto simp: read_ok_def pending_from_def buf_ok_def split: option.splits)
    qed
  qed
  then show "fst d1 = fst d" "seg_inv d seg1" "seg_log d seg1 = seg_log d seg" "same_segment seg seg1" "buf_ok buf1"
    "case e of Some err \<Rightarrow> reads_fail os
     | None \<Rightarrow> out1 = out @ take (nat (limit - int (length out))) (filter (wanted skip) (seg_log d seg))"
    by auto
qed

lemma read_sealed_ok:
  fixes d d0 :: "'x disk"
  assumes "\<forall>s \<in> set ss. seg_inv d s" "buf_ok buf" "fst d0 = fst d" "int (length out) < limit"
    "read_sealed os limit skip buf ss out d0 = ((e, full, out1), ss1, buf1, d1)"
  shows "fst d1 = fst d \<and> buf_ok buf1 \<and> list_all2 same_segment ss ss1 \<and> (\<forall>s \<in> set ss1. seg_inv d s) \<and>
    map (seg_log d) ss1 = map (seg_log d) ss \<and>
    (case e of Some err \<Rightarrow> reads_fail os
     | None \<Rightarrow> out1 = out @ take (nat (limit - int (length out))) (filter (wanted skip) (concat (map (seg_log d) ss))) \<and>
               full = (int (length out1) = limit))"
  using assms
proof (induction ss arbitrary: buf d0 out e full out1 ss1 buf1 d1)
  case (Cons s ss)
  obtain e2 out2 s2 buf2 d2 where seg: "readPendingSegment os limit skip buf s out d0 = ((e2, out2), s2, buf2, d2)"
    by (metis surj_pair)
  have "seg_inv d s"
    using Cons.prems(1) by simp
  note ok = readPendingSegment_ok [OF this Cons.prems(2,3) less_imp_le [OF Cons.prems(4)] seg]
  have refl: "list_all2 same_segment ss ss"
    by (simp add: list_all2_refl)
  show ?case
  proof (cases e2)
    case (Some err)
    then have "e = Some err \<and> ss1 = s2 # ss \<and> buf1 = buf2 \<and> d1 = d2"
      using Cons.prems(5) seg by auto
    then show ?thesis
      using ok Cons.prems(1) refl Some by auto
  next
    case None
    let ?L = "filter (wanted skip) (seg_log d s)" and ?k = "nat (limit - int (length out))"
    let ?R = "filter (wanted skip) (concat (map (seg_log d) ss))"
    have out2: "out2 = out @ take ?k ?L"
      using ok(6) None by simp
    show ?thesis
    proof (cases "int (length out2) = limit")
      case True
      then have eq: "e = None \<and> full \<and> out1 = out2 \<and> ss1 = s2 # ss \<and> buf1 = buf2 \<and> d1 = d2"
        using Cons.prems(5) seg None by auto
      have "?k \<le> length ?L"
        using True out2 Cons.prems(4) by auto
      then have "take ?k (?L @ ?R) = take ?k ?L"
        by simp
      then show ?thesis
        using eq ok Cons.prems(1) refl out2 True by auto
    next
      case False
      obtain r ss2 buf3 d3 where rest: "read_sealed os limit skip buf2 ss out2 d2 = (r, ss2, buf3, d3)"
        by (metis surj_pair)
      have eq: "r = (e, full, out1) \<and> ss1 = s2 # ss2 \<and> buf1 = buf3 \<and> d1 = d3"
        using Cons.prems(5) seg None False rest by auto
      have less: "int (length out2) < limit" "length ?L \<le> ?k" "nat (limit - int (length out2)) = ?k - length ?L"
        using False out2 Cons.prems(4) by (auto simp: min_def split: if_splits)
      have "out2 = out @ ?L"
        using out2 less(2) by simp
      then have key: "out2 @ take (nat (limit - int (length out2))) ?R = out @ take ?k (?L @ ?R)"
        using less(2,3) by simp
      have ss: "\<forall>s \<in> set ss. seg_inv d s"
        using Cons.prems(1) by simp
      note ih = Cons.IH [OF ss ok(5,1) less(1) rest [unfolded eq [THEN conjunct1]], unfolded key]
      show ?thesis
        using ih ok(2,3,4) eq by (cases e) simp_all
    qed
  qed
qed auto

end
