(* ===== verification/WalSys.thy ===== *)
theory WalSys
  imports WalCommit WalOps
begin

text \<open>
  The write-ahead log under concurrent callers: the step relation of the commits, acknowledgements,
  reads, syncs and the closing, and that every step does to the abstract log what its event says.
\<close>

subsection \<open>Reading\<close>

lemma same_segments:
  assumes "list_all2 same_segment ss ss1"
  shows "map sg_id ss1 = map sg_id ss" "map sg_size ss1 = map sg_size ss"
    "map sg_file ss1 = map sg_file ss" "map sg_unacked ss1 = map sg_unacked ss"
  using assms by (induction rule: list_all2_induct) (auto simp: same_segment_def)

lemma map_eq_ball:
  assumes "map f xs = map g ys" "\<forall>y \<in> set ys. P (g y)"
  shows "\<forall>x \<in> set xs. P (f x)"
proof -
  have "\<forall>v \<in> set (map g ys). P v"
    using assms(2) by simp
  then show ?thesis
    unfolding assms(1) [symmetric] by simp
qed

text \<open>Segments that are equal but for what a read records in them.\<close>

lemma reread_segments:
  assumes inv: "wal_inv w d" and segs: "list_all2 same_segment (wal_segs w) (wal_segs w1)"
    "list_all2 same_segment (w_sealed w) (w_sealed w1)" "\<forall>s \<in> set (wal_segs w1). seg_inv d s"
    "map (seg_log d) (wal_segs w1) = map (seg_log d) (wal_segs w)"
    and w1: "w_opts w1 = w_opts w" "w_nextID w1 = w_nextID w" "w_totalSz w1 = w_totalSz w" "buf_ok (w_readBuf w1)"
    and fs: "fst d1 = fst d"
  shows "wal_becomes w d w1 d1 (wal_log w d)"
proof -
  note same = same_segments [OF segs(1)] and sealed = same_segments [OF segs(2)]
  have "\<forall>s \<in> set (wal_segs w1). sg_id s < w_nextID w1"
    using map_eq_ball [OF same(1), of "\<lambda>i. i < w_nextID w"] inv w1 by (simp add: wal_inv_def)
  moreover have "\<forall>s \<in> set (w_sealed w1). \<not> sg_file s" "\<forall>s \<in> set (w_sealed w1). 0 < sg_unacked s"
    using map_eq_ball [OF sealed(3), of Not] map_eq_ball [OF sealed(4), of "\<lambda>n. 0 < n"] inv
    by (simp_all add: wal_inv_def)
  ultimately have inv1: "wal_inv w1 d"
    using inv segs(3) w1 same by (simp add: wal_inv_def buf_ok_def)
  moreover have "wal_log w1 d = wal_log w d"
    by (simp add: wal_log_def segs(4))
  ultimately show ?thesis
    using wal_frame [OF inv1, of d1] fs w1 by (simp add: wal_becomes_def)
qed

lemma ReadPending_becomes:
  assumes inv: "wal_inv w d" and eq: "ReadPending os limit skip w d = (r, w1, d1)"
  shows "wal_becomes w d w1 d1 (wal_log w d)"
    "case r of Inr recs \<Rightarrow> recs = take (nat limit) (filter (wanted skip) (wal_log w d))
     | Inl e \<Rightarrow> w_closed w \<or> reads_fail os"
proof -
  have "wal_becomes w d w1 d1 (wal_log w d) \<and>
    (case r of Inr recs \<Rightarrow> recs = take (nat limit) (filter (wanted skip) (wal_log w d))
     | Inl e \<Rightarrow> w_closed w \<or> reads_fail os)"
  proof (cases "w_closed w \<or> limit \<le> 0")
    case True
    then show ?thesis
      using eq wal_becomes_syscall [OF inv refl] by (cases "w_closed w") (auto simp: ReadPending_def)
  next
    case False
    obtain e full out ss buf d2 where sealed: "read_sealed os limit skip (w_readBuf w) (w_sealed w) [] d = ((e, full, out), ss, buf, d2)"
      by (metis surj_pair)
    have seg: "\<forall>s \<in> set (w_sealed w). seg_inv d s" and bok: "buf_ok (w_readBuf w)"
      using inv by (auto simp: wal_inv_def wal_segs_def buf_ok_def)
    have ok: "fst d2 = fst d" "buf_ok buf" "list_all2 same_segment (w_sealed w) ss" "\<forall>s \<in> set ss. seg_inv d s"
      "map (seg_log d) ss = map (seg_log d) (w_sealed w)"
      "case e of Some err \<Rightarrow> reads_fail os
       | None \<Rightarrow> out = take (nat limit) (filter (wanted skip) (concat (map (seg_log d) (w_sealed w)))) \<and>
                 full = (int (length out) = limit)"
      using read_sealed_ok [OF seg bok refl _ sealed] False by (auto split: option.splits)
    let ?act = "case w_active w of None \<Rightarrow> [] | Some seg \<Rightarrow> [seg]"
    let ?w1 = "w\<lparr>w_sealed := ss, w_readBuf := buf\<rparr>"
    have act: "\<forall>s \<in> set ?act. seg_inv d s"
      using inv by (simp add: wal_inv_def wal_segs_def)
    have stop: "wal_becomes w d ?w1 d2 (wal_log w d)"
      by (rule reread_segments [OF inv])
        (use ok act in \<open>auto simp: wal_segs_def list_all2_refl intro!: list_all2_appendI split: option.splits\<close>)
    show ?thesis
    proof (cases "e \<noteq> None \<or> full \<or> w_active w = None")
      case True
      then have out: "w1 = ?w1 \<and> d1 = d2 \<and> r = (case e of None \<Rightarrow> Inr out | Some err \<Rightarrow> Inl err)"
        using eq False sealed by (auto simp: ReadPending_def Let_def split: option.splits)
      have "out = take (nat limit) (filter (wanted skip) (wal_log w d))" if "e = None"
      proof (cases "w_active w")
        case None
        then show ?thesis
          using ok(6) that by (simp add: wal_log_def wal_segs_none)
      next
        case (Some seg)
        then have "int (length out) = limit"
          using True ok(6) that by auto
        then have "nat limit \<le> length (filter (wanted skip) (concat (map (seg_log d) (w_sealed w))))"
          using ok(6) that by auto
        then show ?thesis
          using ok(6) that by (simp add: wal_log_def wal_segs_def)
      qed
      then show ?thesis
        using out stop ok(6) by (auto split: option.splits)
    next
      case more: False
      then obtain seg where e: "e = None" and nf: "\<not> full" and a: "w_active w = Some seg"
        by auto
      have outle: "int (length out) \<le> limit"
        and out: "out = filter (wanted skip) (concat (map (seg_log d) (w_sealed w)))"
        using ok(6) e nf False by (auto simp: min_def split: if_splits)
      obtain e2 out2 seg2 buf2 d3 where rd: "readPendingSegment os limit skip buf seg out d2 = ((e2, out2), seg2, buf2, d3)"
        by (metis surj_pair)
      have sinv: "seg_inv d seg"
        using act a by simp
      note ok2 = readPendingSegment_ok [OF sinv ok(2,1) outle rd]
      have res: "w1 = ?w1\<lparr>w_active := Some seg2, w_readBuf := buf2\<rparr>" "d1 = d3"
        "r = (case e2 of None \<Rightarrow> Inr out2 | Some err \<Rightarrow> Inl err)"
        using eq False sealed e nf a rd by (auto simp: ReadPending_def Let_def)
      have "wal_becomes w d w1 d1 (wal_log w d)"
        by (rule reread_segments [OF inv])
          (use ok ok2 a in \<open>auto simp: res wal_segs_def intro!: list_all2_appendI\<close>)
      moreover have "out2 = take (nat limit) (filter (wanted skip) (wal_log w d))" if "e2 = None"
        using ok2(6) that out outle by (simp add: wal_log_def wal_segs_active [OF a] nat_diff_distrib)
      ultimately show ?thesis
        using res(3) ok2(6) by (auto split: option.splits)
    qed
  qed
  then show "wal_becomes w d w1 d1 (wal_log w d)"
    "case r of Inr recs \<Rightarrow> recs = take (nat limit) (filter (wanted skip) (wal_log w d))
     | Inl e \<Rightarrow> w_closed w \<or> reads_fail os"
    by auto
qed

subsection \<open>Syncing and closing\<close>

lemma wal_becomes_flags:
  assumes inv: "wal_inv w d" and fs: "fst d1 = fst d"
  shows "wal_becomes w d (w\<lparr>w_closing := a, w_closed := b, w_lastFsyncErr := e\<rparr>) d1 (wal_log w d)"
    "wal_becomes w d (w\<lparr>w_lastFsyncErr := e\<rparr>) d1 (wal_log w d)"
proof -
  have "wal_inv (w\<lparr>w_closing := a, w_closed := b, w_lastFsyncErr := e\<rparr>) d" "wal_inv (w\<lparr>w_lastFsyncErr := e\<rparr>) d"
    using inv by (simp_all add: wal_inv_def)
  then show "wal_becomes w d (w\<lparr>w_closing := a, w_closed := b, w_lastFsyncErr := e\<rparr>) d1 (wal_log w d)"
    "wal_becomes w d (w\<lparr>w_lastFsyncErr := e\<rparr>) d1 (wal_log w d)"
    using wal_becomes_syscall [of _ d d1] wal_becomes_syscall [OF inv fs] fs
    by (simp_all add: wal_becomes_def wal_log_def)
qed

lemma fsync_finish_becomes:
  assumes inv: "wal_inv w d" and eq: "fsync_finish os f w d = (w1, d1)"
  shows "wal_becomes w d w1 d1 (wal_log w d)"
proof -
  have fs: "fst d1 = fst d" and w1: "w1 = w \<or> (\<exists>e. w1 = w\<lparr>w_lastFsyncErr := e\<rparr>)"
    using eq by (auto simp: fsync_finish_def Let_def dest: fst_syscall split: prod.splits option.splits if_splits)
  from w1 show ?thesis
    using wal_becomes_syscall [OF inv fs] wal_becomes_flags(2) [OF inv fs] by auto
qed

lemma Close_begin_becomes:
  assumes inv: "wal_inv w d" and eq: "Close_begin os w d = Some (w1, d1)"
  shows "wal_becomes w d w1 d1 (wal_log w d)"
proof -
  obtain w2 where w2: "fsyncOnce os (w\<lparr>w_closing := True\<rparr>) d = (w2, d1)" "w1 = w2\<lparr>w_closed := True\<rparr>"
    using eq by (auto simp: Close_begin_def split: if_splits prod.splits)
  have "fst d1 = fst d \<and> (w2 = w\<lparr>w_closing := True\<rparr> \<or> (\<exists>e. w2 = w\<lparr>w_closing := True, w_lastFsyncErr := e\<rparr>))"
    using w2(1) by (auto simp: fsyncOnce_def fsync_finish_def Let_def dest: fst_syscall split: prod.splits option.splits if_splits)
  then obtain e where fs: "fst d1 = fst d" and "w1 = w\<lparr>w_closing := True, w_closed := True, w_lastFsyncErr := e\<rparr>"
    using w2(2) by (cases w) auto
  then show ?thesis
    using wal_becomes_flags(1) [OF inv fs] by simp
qed

lemma close_file_ok:
  assumes "close_file os seg d = (errs, seg1, d1)"
  shows "fst d1 = fst d" "seg1 = seg\<lparr>sg_file := False\<rparr>"
proof -
  show "fst d1 = fst d"
    using assms by (auto simp: close_file_def dest!: fst_syscall split: if_splits prod.splits)
  show "seg1 = seg\<lparr>sg_file := False\<rparr>"
    using assms by (cases seg) (auto simp: close_file_def split: if_splits prod.splits)
qed

lemma Close_end_becomes:
  assumes inv: "wal_inv w d" and eq: "Close_end os w d = (e, w1, d1)"
  shows "wal_becomes w d w1 d1 (wal_log w d)"
proof (cases "w_active w")
  case None
  then show ?thesis
    using eq wal_becomes_syscall [OF inv refl] by (simp add: Close_end_def)
next
  case (Some seg)
  obtain errs seg1 d2 where cl: "close_file os seg d = (errs, seg1, d2)"
    by (metis surj_pair)
  note cf = close_file_ok [OF cl]
  note segs = wal_segs_active [OF Some]
  have seg: "seg_inv d seg"
    using wal_inv_path(3) [OF inv, of seg] segs by simp
  have sealed: "\<And>s. s \<in> set (w_sealed w) \<Longrightarrow> \<not> sg_file s \<and> sg_unacked s > 0"
    using inv by (simp add: wal_inv_def)
  have seg2: "seg_inv d2 seg"
    using seg seg_inv_frame [of d2 seg d] cf(1) by simp
  show ?thesis
  proof (cases "sg_unacked seg \<le> 0")
    case True
    then have w1: "w1 = w\<lparr>w_totalSz := w_totalSz w - int (sg_size seg), w_active := None\<rparr>"
      and d1: "d1 = snd (os_Remove os (sg_path seg) d2)"
      using eq Some cl cf(2) by (auto simp: Close_end_def split: prod.splits)
    have "wal_becomes w d w1 d1 (concat (map (seg_log d) (w_sealed w @ [])))"
      by (rule drop_segment [OF inv])
        (use segs w1 d1 sealed remove_frame [OF seg2] cf(1) in \<open>auto simp: wal_segs_def\<close>)
    then show ?thesis
      using wal_log_segs [of w "w_sealed w" seg "[]" d] segs seg_log_acked [OF seg True] by simp
  next
    case False
    then have w1: "w1 = w\<lparr>w_active := Some seg1\<rparr>" "d1 = d2"
      using eq Some cl cf(2) by (auto simp: Close_end_def)
    have "wal_becomes w d w1 d1 (concat (map (seg_log d) (w_sealed w)) @ seg_log d1 seg1 @ concat (map (seg_log d) []))"
      by (rule replace_segment [OF inv])
        (use segs w1 cf sealed seg_inv_no_file [OF seg2] in \<open>auto simp: wal_segs_def\<close>)
    moreover have "seg_log d1 seg1 = seg_log d seg"
      using cf w1(2) seg_log_frame [of d2 seg d] by simp
    ultimately show ?thesis
      using wal_log_segs [of w "w_sealed w" seg "[]" d] segs by simp
  qed
qed

lemma Stats_pending:
  assumes "wal_inv w d"
  shows "st_Pending (Stats w) = int (length (wal_log w d))"
proof -
  have "int (length (concat (map (seg_log d) ss))) = sum_list (map sg_unacked ss)" if "\<forall>s \<in> set ss. seg_inv d s" for ss
    using that by (induction ss) (simp_all add: length_seg_log)
  from this [of "wal_segs w"] show ?thesis
    using assms by (simp add: Stats_def wal_log_def wal_inv_def wal_segs_def Let_def split: option.splits)
qed

subsection \<open>Steps\<close>

text \<open>
  An \<^verbatim>\<open>Append\<close> joins the accumulating batch; a leader takes that batch when none is in flight and
  writes it round by round; acknowledgements, reads, syncs and closing interleave with the rounds.
  Closing waits for the batch in flight.
\<close>

inductive wal_step :: "'x os \<Rightarrow> 'x walsys \<Rightarrow> wal_event \<Rightarrow> 'x walsys \<Rightarrow> bool" for os where
  step_append: "Append_begin (sy_wal s) p (sy_cur s) = Inr (cur, idx) \<Longrightarrow> wal_step os s Silent (s\<lparr>sy_cur := cur\<rparr>)"
| step_lead: "sy_flight s = None \<Longrightarrow> wal_step os s Silent (s\<lparr>sy_cur := getAppendBatch, sy_flight := Some (sy_cur s, 0)\<rparr>)"
| step_round: "sy_flight s = Some (b, i) \<Longrightarrow> i < batch_len b \<Longrightarrow>
    flush_round os b i (sy_wal s) (sy_disk s) = ((b1, i1), w1, d1) \<Longrightarrow>
    wal_step os s (Published (batch_results b1 i i1)) (s\<lparr>sy_wal := w1, sy_disk := d1, sy_flight := Some (b1, i1)\<rparr>)"
| step_finish: "sy_flight s = Some (b, i) \<Longrightarrow> \<not> i < batch_len b \<Longrightarrow> wal_step os s Silent (s\<lparr>sy_flight := None\<rparr>)"
| step_ack: "ack_ok (sy_wal s) (sy_disk s) off \<Longrightarrow> Ack os off (sy_wal s) (sy_disk s) = (w1, d1) \<Longrightarrow>
    wal_step os s (if w_closed (sy_wal s) then Silent else Acked off) (s\<lparr>sy_wal := w1, sy_disk := d1\<rparr>)"
| step_read: "ReadPending os limit skip (sy_wal s) (sy_disk s) = (r, w1, d1) \<Longrightarrow>
    wal_step os s Silent (s\<lparr>sy_wal := w1, sy_disk := d1\<rparr>)"
| step_fsync: "fsync_finish os f (sy_wal s) (sy_disk s) = (w1, d1) \<Longrightarrow>
    wal_step os s Silent (s\<lparr>sy_wal := w1, sy_disk := d1\<rparr>)"
| step_sync: "Sync os (sy_wal s) (sy_disk s) = (e, d1) \<Longrightarrow> wal_step os s Silent (s\<lparr>sy_disk := d1\<rparr>)"
| step_close: "Close_begin os (sy_wal s) (sy_disk s) = Some (w1, d1) \<Longrightarrow>
    wal_step os s Silent (s\<lparr>sy_wal := w1, sy_disk := d1\<rparr>)"
| step_closed: "sy_flight s = None \<Longrightarrow> w_closed (sy_wal s) \<Longrightarrow> Close_end os (sy_wal s) (sy_disk s) = (e, w1, d1) \<Longrightarrow>
    wal_step os s Silent (s\<lparr>sy_wal := w1, sy_disk := d1\<rparr>)"

inductive_cases wal_stepE: "wal_step os s ev s'"

definition sys_inv :: "'x walsys \<Rightarrow> bool" where
  "sys_inv s \<longleftrightarrow> wal_inv (sy_wal s) (sy_disk s) \<and>
     (\<exists>ps. batch_rep (sy_cur s) ps \<and> batch_open (sy_cur s) 0) \<and>
     (case sy_flight s of None \<Rightarrow> True
      | Some (b, i) \<Rightarrow> (\<exists>ps. batch_rep b ps \<and> batch_open b i \<and> i \<le> length ps))"

abbreviation sys_log :: "'x walsys \<Rightarrow> wal_record list" where
  "sys_log s \<equiv> wal_log (sy_wal s) (sy_disk s)"

fun log_step :: "wal_record list \<Rightarrow> wal_event \<Rightarrow> wal_record list" where
  "log_step L (Published rs) = L @ rs"
| "log_step L (Acked off) = filter (\<lambda>r. fst r \<noteq> off) L"
| "log_step L Silent = L"

lemma Append_begin_rep:
  assumes "Append_begin w p cur = Inr (b, idx)" "batch_rep cur ps" "batch_open cur 0"
  shows "batch_rep b (ps @ [p])" "batch_open b 0" "idx = length ps"
proof -
  have "valid_payload p" and add: "batch_add cur p (ChecksumIEEE p) = (b, idx)"
    using assms(1) by (auto simp: Append_begin_def valid_payload_def split: if_splits option.splits)
  then show "batch_rep b (ps @ [p])" "batch_open b 0" "idx = length ps"
    using batch_add_rep [OF assms(2,3)] by auto
qed

lemma wal_step_ok:
  assumes "wal_step os s ev s'" "sys_inv s"
  shows "sys_inv s' \<and> wal_becomes (sy_wal s) (sy_disk s) (sy_wal s') (sy_disk s') (log_step (sys_log s) ev)"
  using assms
proof (induction rule: wal_step.induct)
  case (step_append s p cur idx)
  then show ?case
    using Append_begin_rep [OF step_append(1)] wal_becomes_syscall [of "sy_wal s" "sy_disk s"]
    by (auto simp: sys_inv_def)
next
  case (step_lead s)
  then show ?case
    using wal_becomes_syscall [of "sy_wal s" "sy_disk s"] by (auto simp: sys_inv_def intro: exI [of _ "[]"])
next
  case (step_round s b i b1 i1 w1 d1)
  then obtain ps where b: "batch_rep b ps" "batch_open b i" and inv: "wal_inv (sy_wal s) (sy_disk s)"
    by (auto simp: sys_inv_def)
  have i: "i < length ps"
    using step_round(2) batch_rep_len [OF b(1)] by simp
  from flush_round_ok [OF inv b i step_round(3)] show ?case
    using step_round by (auto simp: sys_inv_def round_ok_def wal_becomes_def)
next
  case (step_finish s b i)
  then show ?case
    using wal_becomes_syscall [of "sy_wal s" "sy_disk s"] by (auto simp: sys_inv_def)
next
  case (step_ack s off w1 d1)
  then show ?case
    using Ack_becomes [OF _ step_ack(1,2)] by (auto simp: sys_inv_def wal_becomes_def)
next
  case (step_read limit skip s r w1 d1)
  then show ?case
    using ReadPending_becomes(1) [OF _ step_read(1)] by (auto simp: sys_inv_def wal_becomes_def)
next
  case (step_fsync f s w1 d1)
  then show ?case
    using fsync_finish_becomes [OF _ step_fsync(1)] by (auto simp: sys_inv_def wal_becomes_def)
next
  case (step_sync s e d1)
  then have "fst d1 = fst (sy_disk s)"
    by (auto simp: Sync_def dest: fst_syscall split: option.splits if_splits)
  then show ?case
    using step_sync wal_becomes_syscall [of "sy_wal s" "sy_disk s" d1] by (auto simp: sys_inv_def wal_becomes_def)
next
  case (step_close s w1 d1)
  then show ?case
    using Close_begin_becomes [OF _ step_close(1)] by (auto simp: sys_inv_def wal_becomes_def)
next
  case (step_closed s e w1 d1)
  then show ?case
    using Close_end_becomes [OF _ step_closed(3)] by (auto simp: sys_inv_def wal_becomes_def)
qed

text \<open>Runs, with the events of their steps.\<close>

inductive wal_run :: "'x os \<Rightarrow> 'x walsys \<Rightarrow> wal_event list \<Rightarrow> 'x walsys \<Rightarrow> bool" for os where
  run_start: "wal_run os s [] s"
| run_step: "wal_run os s tr s1 \<Longrightarrow> wal_step os s1 ev s2 \<Longrightarrow> wal_run os s (tr @ [ev]) s2"

lemma wal_run_ok:
  assumes "wal_run os s tr s'" "sys_inv s"
  shows "sys_inv s' \<and> wal_becomes (sy_wal s) (sy_disk s) (sy_wal s') (sy_disk s') (foldl log_step (sys_log s) tr)"
  using assms
proof (induction rule: wal_run.induct)
  case (run_start s)
  then show ?case
    using wal_becomes_syscall [of "sy_wal s" "sy_disk s"] by (auto simp: sys_inv_def)
next
  case (run_step s tr s1 ev s2)
  then have one: "wal_becomes (sy_wal s) (sy_disk s) (sy_wal s1) (sy_disk s1) (foldl log_step (sys_log s) tr)" and inv: "sys_inv s1"
    by auto
  have "sys_log s1 = foldl log_step (sys_log s) tr"
    using one by (simp add: wal_becomes_def)
  then show ?case
    using wal_step_ok [OF run_step(2) inv] wal_becomes_trans [OF one] by auto
qed

end
