(* ===== verification/WalRecover.thy ===== *)
theory WalRecover
  imports WalSys "HOL-Library.Sublist"
begin

text \<open>
  Opening a write-ahead log: what recovery reads, that it establishes the invariant, and that after a
  crash it brings back every record that waits for its acknowledgement.
\<close>

subsection \<open>Reading a segment\<close>

definition faulty :: "'x os \<Rightarrow> bool" where
  "faulty os \<longleftrightarrow> (\<exists>op path x. fst (os_err os op path x) \<noteq> None)"

lemma syscall_faulty: "syscall os op path d = (Some e, d1) \<Longrightarrow> faulty os"
  using syscall_error [of os op path d e d1] unfolding faulty_def by (metis option.distinct(1))

lemma not_faulty_syscall: "\<not> faulty os \<Longrightarrow> fst (syscall os op path d) = None"
  using syscall_faulty [of os op path d] by (cases "syscall os op path d") (metis fst_conv not_None_eq)

text \<open>The records of a segment file that is read without faults.\<close>

definition file_records :: "'x disk \<Rightarrow> nat \<times> string \<Rightarrow> wal_record list" where
  "file_records d f = with_offsets (fst f) (place 0 (decode_all (file_data d (snd f))))"

lemma readSegment_ok:
  assumes eq: "readSegment os path d = (r, d1)" and present: "gm_get (fst d) path \<noteq> None"
  shows "fst d1 = fst d"
    "case r of Inl e \<Rightarrow> faulty os
     | Inr (recs, valid) \<Rightarrow> (\<exists>ps t. list_all valid_payload ps \<and> recs = place 0 ps \<and> valid = length (encode_all ps) \<and>
         file_data d path = encode_all ps @ t \<and> (\<not> faulty os \<longrightarrow> ps = decode_all (file_data d path)))"
proof -
  obtain e d2 where sys: "syscall os IoOpen path d = (e, d2)"
    by (metis surj_pair)
  have fs: "fst d2 = fst d"
    using fst_syscall [OF sys] .
  have "fst d1 = fst d \<and> (case r of Inl e \<Rightarrow> faulty os
     | Inr (recs, valid) \<Rightarrow> (\<exists>ps t. list_all valid_payload ps \<and> recs = place 0 ps \<and> valid = length (encode_all ps) \<and>
         file_data d path = encode_all ps @ t \<and> (\<not> faulty os \<longrightarrow> ps = decode_all (file_data d path))))"
  proof (cases e)
    case (Some err)
    then have "\<exists>e'. r = Inl e'" "d1 = d2"
      using eq sys by (auto simp: readSegment_def os_Open_def)
    then show ?thesis
      using fs syscall_faulty [OF sys [unfolded Some]] by auto
  next
    case None
    obtain recs valid x1 where rd: "read_records os path (file_data d path) 0 (snd d2) = ((recs, valid), x1)"
      by (metis surj_pair)
    have same: "file_data (fst d, x) path = file_data d path" for x
      by (simp add: file_data_def)
    have out: "r = Inr (recs, valid)" "d1 = (fst d2, x1)"
      using eq sys None fs present rd by (auto simp: readSegment_def os_Open_def same split: prod.splits)
    obtain ps t where ps: "list_all valid_payload ps" "recs = place 0 ps" "valid = length (encode_all ps)"
      "file_data d path = encode_all ps @ t"
      using read_records_prefix [OF rd] by auto
    have "ps = decode_all (file_data d path)" if "\<not> faulty os"
    proof -
      have "\<And>y. fst (os_err os IoRead path y) = None"
        using that by (auto simp: faulty_def)
      from read_records_no_faults [OF this, of "file_data d path" 0 "snd d2"] rd ps(2)
      have "place 0 ps = place 0 (decode_all (file_data d path))"
        by simp
      then have "map snd (place 0 ps) = map snd (place 0 (decode_all (file_data d path)))"
        by (rule arg_cong)
      then show ?thesis
        by simp
    qed
    then show ?thesis
      using out ps fs by auto
  qed
  then show "fst d1 = fst d"
    "case r of Inl e \<Rightarrow> faulty os
     | Inr (recs, valid) \<Rightarrow> (\<exists>ps t. list_all valid_payload ps \<and> recs = place 0 ps \<and> valid = length (encode_all ps) \<and>
         file_data d path = encode_all ps @ t \<and> (\<not> faulty os \<longrightarrow> ps = decode_all (file_data d path)))"
    by auto
qed

lemma truncate_torn_ok:
  assumes eq: "truncate_torn os path n d = (e, d1)" and present: "gm_get (fst d) path \<noteq> None" "path \<noteq> ''''"
    and bytes: "file_data d path = bs @ t" "n = length bs"
  shows "e \<noteq> None \<Longrightarrow> faulty os" "\<exists>t'. file_data d1 path = bs @ t'" "gm_get (fst d1) path \<noteq> None"
    "\<And>name. name \<noteq> path \<Longrightarrow> gm_get (fst d1) name = gm_get (fst d) name" "dir_evolves insecure (fst d) (fst d1)"
proof -
  obtain e1 d2 where st: "syscall os IoStat path d = (e1, d2)"
    by (metis surj_pair)
  have fs: "fst d2 = fst d"
    using fst_syscall [OF st] .
  obtain e3 d3 where tr: "os_Truncate os path n d2 = (e3, d3)"
    by (metis surj_pair)
  have "(e = None \<and> d1 = d2) \<or> (e3 = e \<or> e = Wrapf e3 (''wal: truncate '' @ path)) \<and> d1 = d3"
    using eq st tr by (auto simp: truncate_torn_def split: option.splits if_splits)
  then consider (kept) "e = None" "d1 = d2" | (cut) "e \<noteq> None \<longrightarrow> e3 \<noteq> None" "d1 = d3"
    by (auto simp: Wrapf_def wrap_with_def)
  then have "(e \<noteq> None \<longrightarrow> faulty os) \<and> (\<exists>t'. file_data d1 path = bs @ t') \<and> gm_get (fst d1) path \<noteq> None \<and>
    (\<forall>name. name \<noteq> path \<longrightarrow> gm_get (fst d1) name = gm_get (fst d) name) \<and> dir_evolves insecure (fst d) (fst d1)"
  proof cases
    case kept
    then show ?thesis
      using fs bytes present by (auto simp: file_data_def)
  next
    case cut
    note eff = os_Truncate_effect [OF tr]
    have "faulty os" if "e3 \<noteq> None"
      using tr that by (auto simp: os_Truncate_def dest: syscall_faulty split: prod.splits option.splits)
    moreover have "\<exists>t'. file_data d3 path = bs @ t'"
      using bytes fs present by (auto simp: file_data_def eff(1) on_file_get split: option.splits)
    moreover have "gm_get (fst d3) path \<noteq> None" "\<forall>name. name \<noteq> path \<longrightarrow> gm_get (fst d3) name = gm_get (fst d) name"
      using present fs by (auto simp: eff(1) on_file_get)
    ultimately show ?thesis
      using cut eff(2) [OF present(2), of insecure] fs by auto
  qed
  then show "e \<noteq> None \<Longrightarrow> faulty os" "\<exists>t'. file_data d1 path = bs @ t'" "gm_get (fst d1) path \<noteq> None"
    "\<And>name. name \<noteq> path \<Longrightarrow> gm_get (fst d1) name = gm_get (fst d) name" "dir_evolves insecure (fst d) (fst d1)"
    by auto
qed

subsection \<open>Recovering segments\<close>

lemma place_Nil_iff [simp]: "place pos ps = [] \<longleftrightarrow> ps = []"
  by (cases ps) simp_all

lemma recovered_segment_rep:
  assumes "gm_get (fst d) (segment_name i) \<noteq> None" "file_data d (segment_name i) = encode_all ps @ t"
    "list_all valid_payload ps" "0 < i" "valid = length (encode_all ps)"
  shows "seg_rep d (recovered_segment i (segment_name i) (place 0 ps) valid) ps 0"
  using assms by (simp add: seg_rep_def recovered_segment_def)

lemma add_recovered:
  assumes inv: "wal_inv w d" and act: "w_active w = None" and rep: "seg_rep d1 seg ps 0"
    and seg: "seg = recovered_segment i (segment_name i) (place 0 ps) valid" "ps \<noteq> []" "valid = length (encode_all ps)"
    and ids: "\<forall>s \<in> set (w_sealed w). sg_id s < i"
    and fs: "\<And>n. n \<noteq> segment_name i \<Longrightarrow> gm_get (fst d1) n = gm_get (fst d) n"
      "dir_evolves (wo_insecurePermissions (w_opts w)) (fst d) (fst d1)"
    and w1: "w1 = w\<lparr>w_sealed := w_sealed w @ [seg], w_totalSz := w_totalSz w + int valid,
                    w_nextID := (if i \<ge> w_nextID w then i + 1 else w_nextID w)\<rparr>"
  shows "wal_becomes w d w1 d1 (wal_log w d @ with_offsets i (place 0 ps))"
proof -
  have segs: "wal_segs w = w_sealed w" "wal_segs w1 = w_sealed w @ [seg]"
    by (simp_all add: wal_segs_def act w1)
  have old: "gm_get (fst d1) (sg_path s) = gm_get (fst d) (sg_path s)" if "s \<in> set (wal_segs w)" for s
    using wal_inv_path(1) [OF inv that] ids that segs fs(1) by auto
  note frame = wal_frame [OF inv old]
  have "wal_inv w1 d1"
    using frame(1) rep ids seg unfolding wal_inv_def segs
    by (auto simp: w1 seg_inv_def recovered_segment_def sorted_wrt_append intro: order.strict_trans2)
  moreover have "wal_log w1 d1 = wal_log w d @ with_offsets i (place 0 ps)"
    using frame(2) seg_log_rep [OF rep] unfolding wal_log_def segs by (simp add: seg(1) recovered_segment_def)
  ultimately show ?thesis
    using fs(2) by (simp add: wal_becomes_def w1)
qed

lemma drop_empty_file:
  assumes inv: "wal_inv w d" and act: "w_active w = None" and ids: "\<forall>s \<in> set (w_sealed w). sg_id s < i"
  shows "wal_becomes w d w (snd (os_Remove os (segment_name i) d)) (wal_log w d)"
proof -
  let ?d = "snd (os_Remove os (segment_name i) d)"
  have "gm_get (fst ?d) (sg_path s) = gm_get (fst d) (sg_path s)" if "s \<in> set (wal_segs w)" for s
    using wal_inv_path(1) [OF inv that] ids that act by (auto simp: wal_segs_def os_Remove_get)
  then show ?thesis
    using wal_frame [OF inv, of ?d] dir_evolves_os_Remove [of "segment_name i"] by (simp add: wal_becomes_def)
qed

text \<open>The segment files that recovery goes through.\<close>

definition segs_ok :: "'x disk \<Rightarrow> (nat \<times> string) list \<Rightarrow> bool" where
  "segs_ok d segs \<longleftrightarrow> sorted_wrt (<) (map fst segs) \<and>
     (\<forall>(i, name) \<in> set segs. name = segment_name i \<and> 0 < i \<and> gm_get (fst d) name \<noteq> None)"

definition recovers :: "'x os \<Rightarrow> (nat \<times> string) list \<Rightarrow> WAL \<Rightarrow> 'x disk \<Rightarrow> wal_record list \<Rightarrow> WAL \<Rightarrow> 'x disk \<Rightarrow> bool" where
  "recovers os segs w d new w1 d1 \<longleftrightarrow>
     wal_becomes w d w1 d1 (wal_log w d @ new) \<and> w_active w1 = None \<and> w_nextID w \<le> w_nextID w1 \<and>
     (\<forall>n. (\<forall>i \<in> fst ` set segs. i + 1 \<le> n) \<and> w_nextID w \<le> n \<longrightarrow> w_nextID w1 \<le> n) \<and>
     w_closed w1 = w_closed w \<and>
     (\<forall>n. n \<notin> snd ` set segs \<longrightarrow> gm_get (fst d1) n = gm_get (fst d) n) \<and>
     (\<not> faulty os \<longrightarrow> new = concat (map (file_records d) segs) \<and>
        (\<forall>(i, name) \<in> set segs. gm_get (fst d1) name = None \<or> i < w_nextID w1))"

lemma recovers_step:
  assumes first: "wal_becomes w d w1 d1 (wal_log w d @ new1)" "w_nextID w \<le> w_nextID w1" "w_closed w1 = w_closed w"
      "\<And>n. i + 1 \<le> n \<Longrightarrow> w_nextID w \<le> n \<Longrightarrow> w_nextID w1 \<le> n"
      "\<And>n. n \<noteq> name \<Longrightarrow> gm_get (fst d1) n = gm_get (fst d) n"
      "\<not> faulty os \<Longrightarrow> new1 = file_records d (i, name) \<and> (gm_get (fst d1) name = None \<or> i < w_nextID w1)"
    and rest: "recovers os segs w1 d1 new2 w2 d2" and name: "name \<notin> snd ` set segs"
  shows "recovers os ((i, name) # segs) w d (new1 @ new2) w2 d2"
proof -
  have r: "wal_becomes w1 d1 w2 d2 (wal_log w1 d1 @ new2)" "w_active w2 = None" "w_nextID w1 \<le> w_nextID w2"
    "\<And>n. (\<forall>i \<in> fst ` set segs. i + 1 \<le> n) \<Longrightarrow> w_nextID w1 \<le> n \<Longrightarrow> w_nextID w2 \<le> n" "w_closed w2 = w_closed w1"
    "\<And>n. n \<notin> snd ` set segs \<Longrightarrow> gm_get (fst d2) n = gm_get (fst d1) n"
    "\<not> faulty os \<Longrightarrow> new2 = concat (map (file_records d1) segs)"
    "\<not> faulty os \<Longrightarrow> \<forall>(i, name) \<in> set segs. gm_get (fst d2) name = None \<or> i < w_nextID w2"
    using rest unfolding recovers_def by auto
  have "wal_log w1 d1 = wal_log w d @ new1"
    using first(1) by (simp add: wal_becomes_def)
  then have "wal_becomes w d w2 d2 (wal_log w d @ new1 @ new2)"
    using wal_becomes_trans [OF first(1) r(1)] by simp
  moreover have same: "file_records d1 f = file_records d f" if "f \<in> set segs" for f
  proof -
    have "snd f \<noteq> name"
      using that name by auto
    then show ?thesis
      using file_data_cong [OF first(5)] by (simp add: file_records_def)
  qed
  have "\<not> faulty os \<Longrightarrow> new1 @ new2 = concat (map (file_records d) ((i, name) # segs))"
    using first(6) r(7) same by (simp cong: map_cong)
  moreover have "\<not> faulty os \<Longrightarrow> gm_get (fst d2) name = None \<or> i < w_nextID w2"
    using first(6) r(3) r(6) [OF name] by auto
  moreover have "w_nextID w2 \<le> n" if "\<forall>j \<in> fst ` set ((i, name) # segs). j + 1 \<le> n" "w_nextID w \<le> n" for n
    using that first(4) [of n] r(4) [of n] by simp
  moreover have "gm_get (fst d2) n = gm_get (fst d) n" if "n \<notin> snd ` set ((i, name) # segs)" for n
    using that first(5) [of n] r(6) [of n] by simp
  ultimately show ?thesis
    unfolding recovers_def using first(2,3) r(2,3,5,8) by simp
qed

lemma segs_ok_Cons:
  assumes "segs_ok d ((i, name) # segs)"
  shows "name = segment_name i" "0 < i" "gm_get (fst d) name \<noteq> None" "name \<notin> snd ` set segs"
    "(\<And>n. n \<noteq> name \<Longrightarrow> gm_get (fst d1) n = gm_get (fst d) n) \<Longrightarrow> segs_ok d1 segs"
    "f \<in> set segs \<Longrightarrow> i < fst f"
proof -
  have s: "sorted_wrt (<) (map fst segs)" "\<forall>j \<in> fst ` set segs. i < j"
    "\<forall>(i, name) \<in> set segs. name = segment_name i \<and> 0 < i \<and> gm_get (fst d) name \<noteq> None"
    using assms by (auto simp: segs_ok_def)
  show "name = segment_name i" "0 < i" "gm_get (fst d) name \<noteq> None"
    using assms by (auto simp: segs_ok_def)
  then show new: "name \<notin> snd ` set segs"
    using s by fastforce
  show "f \<in> set segs \<Longrightarrow> i < fst f"
    using s(2) by blast
  show "segs_ok d1 segs" if "\<And>n. n \<noteq> name \<Longrightarrow> gm_get (fst d1) n = gm_get (fst d) n"
  proof -
    have "gm_get (fst d1) (snd f) = gm_get (fst d) (snd f)" if "f \<in> set segs" for f
      using that new \<open>\<And>n. n \<noteq> name \<Longrightarrow> gm_get (fst d1) n = gm_get (fst d) n\<close> by (metis imageI)
    then show ?thesis
      using s(1,3) unfolding segs_ok_def by fastforce
  qed
qed

lemma not_faulty_Remove:
  assumes "\<not> faulty os"
  shows "gm_get (fst (snd (os_Remove os path d))) path = None"
  using not_faulty_syscall [OF assms, of IoRemove path d]
  by (cases "syscall os IoRemove path d") (auto simp: os_Remove_def)

lemma recover_segments_ok:
  assumes "wal_inv w d" "w_active w = None" "segs_ok d segs" "\<forall>s \<in> set (w_sealed w). \<forall>f \<in> set segs. sg_id s < fst f"
    "recover_segments os segs w d rec = (r, d1)"
  shows "case r of Inl e \<Rightarrow> faulty os | Inr (rec1, w1) \<Rightarrow> (\<exists>new. rec1 = rec @ new \<and> recovers os segs w d new w1 d1)"
  using assms
proof (induction segs arbitrary: w d rec)
  case Nil
  then show ?case
    using wal_becomes_syscall [OF Nil.prems(1) refl] by (auto simp: recovers_def)
next
  case (Cons f segs)
  obtain i name where f: "f = (i, name)"
    by fastforce
  note ok = segs_ok_Cons [OF Cons.prems(3) [unfolded f]]
  have ids: "\<forall>s \<in> set (w_sealed w). sg_id s < i" "\<forall>s \<in> set (w_sealed w). \<forall>f \<in> set segs. sg_id s < fst f"
    using Cons.prems(4) f by auto
  obtain r0 d2 where rd: "readSegment os name d = (r0, d2)"
    by (metis surj_pair)
  note seg = readSegment_ok [OF rd ok(3)]
  show ?case
  proof (cases r0)
    case (Inl e)
    then show ?thesis
      using Cons.prems(5) f rd seg(2) by auto
  next
    case (Inr v)
    then obtain recs valid where r0: "r0 = Inr (recs, valid)"
      by (cases v) auto
    obtain ps t where ps: "list_all valid_payload ps" "recs = place 0 ps" "valid = length (encode_all ps)"
      "file_data d name = encode_all ps @ t" "\<not> faulty os \<longrightarrow> ps = decode_all (file_data d name)"
      using seg(2) [unfolded r0 sum.case prod.case] by blast
    have rec_d: "file_records d (i, name) = with_offsets i (place 0 ps)" if "\<not> faulty os"
      using ps(5) that by (simp add: file_records_def)
    have inv2: "wal_inv w d2" "wal_log w d2 = wal_log w d"
      using wal_frame [OF Cons.prems(1), of d2] seg(1) by simp_all
    show ?thesis
    proof (cases "ps = []")
      case True
      define d3 where "d3 = snd (os_Remove os name d2)"
      have eq: "recover_segments os segs w d3 rec = (r, d1)"
        using Cons.prems(5) f rd r0 ps(2) True by (simp add: d3_def)
      have frame: "\<And>n. n \<noteq> name \<Longrightarrow> gm_get (fst d3) n = gm_get (fst d) n"
        using os_Remove_get [of _ name os d2] seg(1) by (simp add: d3_def)
      have first: "wal_becomes w d w d3 (wal_log w d @ [])"
        using drop_empty_file [OF inv2(1) Cons.prems(2) ids(1)] inv2(2) seg(1) ok(1)
        by (simp add: wal_becomes_def d3_def)
      have inv3: "wal_inv w d3"
        using first by (simp add: wal_becomes_def)
      have "recovers os (f # segs) w d ([] @ new) w1 d1" if "recovers os segs w d3 new w1 d1" for new w1
        unfolding f by (rule recovers_step [OF first _ _ _ frame _ that ok(4)])
          (use rec_d True not_faulty_Remove [of os name d2] in \<open>auto simp: d3_def with_offsets_def\<close>)
      then show ?thesis
        using Cons.IH [OF inv3 Cons.prems(2) ok(5) [OF frame] ids(2) eq] by (auto split: sum.splits)
    next
      case False
      have bytes: "file_data d2 name = encode_all ps @ t"
        using ps(4) seg(1) by (simp add: file_data_def)
      have path: "gm_get (fst d2) name \<noteq> None" "name \<noteq> ''''"
        using ok(1,3) seg(1) by auto
      obtain e d3 where tr: "truncate_torn os name valid d2 = (e, d3)"
        by (metis surj_pair)
      note cut = truncate_torn_ok [OF tr path bytes ps(3)]
      show ?thesis
      proof (cases e)
        case (Some err)
        then have "r = Inl err"
          using Cons.prems(5) False tr Some by (simp add: f rd r0 ps(2))
        then show ?thesis
          using cut(1) Some by simp
      next
        case None
        define s where "s = recovered_segment i name recs valid"
        define w3 where "w3 = w\<lparr>w_sealed := w_sealed w @ [s], w_totalSz := w_totalSz w + int valid,
          w_nextID := (if i \<ge> w_nextID w then i + 1 else w_nextID w)\<rparr>"
        have eq: "recover_segments os segs w3 d3 (rec @ with_offsets i recs) = (r, d1)"
          using Cons.prems(5) False tr None by (simp add: f rd r0 ps(2) w3_def s_def)
        have frame: "\<And>n. n \<noteq> name \<Longrightarrow> gm_get (fst d3) n = gm_get (fst d) n"
          using cut(4) seg(1) by simp
        obtain t' where "file_data d3 name = encode_all ps @ t'"
          using cut(2) by blast
        then have rep: "seg_rep d3 s ps 0"
          unfolding s_def ps(2) ok(1) using cut(3) ok(1,2) ps(1,3) by (intro recovered_segment_rep) simp_all
        have first: "wal_becomes w d w3 d3 (wal_log w d @ with_offsets i (place 0 ps))"
          by (rule add_recovered [OF Cons.prems(1,2) rep _ False ps(3) ids(1) _ _ w3_def])
            (use frame cut(5) seg(1) ok(1) ps(2) in \<open>auto simp: s_def\<close>)
        have inv3: "wal_inv w3 d3"
          using first by (simp add: wal_becomes_def)
        have act3: "w_active w3 = None" and ids3: "\<forall>s \<in> set (w_sealed w3). \<forall>f \<in> set segs. sg_id s < fst f"
          using Cons.prems(2) ids(2) ok(6) by (auto simp: w3_def s_def recovered_segment_def)
        have "recovers os (f # segs) w d (with_offsets i recs @ new) w1 d1" if "recovers os segs w3 d3 new w1 d1" for new w1
          unfolding f ps(2) by (rule recovers_step [OF first _ _ _ frame _ that ok(4)])
            (use rec_d in \<open>auto simp: w3_def\<close>)
        then show ?thesis
          using Cons.IH [OF inv3 act3 ok(5) [OF frame] ids3 eq] by (auto split: sum.splits)
      qed
    qed
  qed
qed

subsection \<open>Directories\<close>

text \<open>
  A directory as the log leaves it: segment files bear the names the log gives them and everything
  the log looks at has the right kind and permissions.
\<close>

definition perm_ok :: "bool \<Rightarrow> bool \<Rightarrow> wal_file \<Rightarrow> bool" where
  "perm_ok insecure windows c \<longleftrightarrow> insecure \<or> windows \<or> fl_mode c mod 64 = 0"

definition disk_ok :: "bool \<Rightarrow> bool \<Rightarrow> (string, wal_file) gomap \<Rightarrow> bool" where
  "disk_ok insecure windows fs \<longleftrightarrow> gm_wf fs \<and>
     (\<forall>c. gm_get fs '''' = Some c \<longrightarrow> fl_kind c = Directory \<and> perm_ok insecure windows c) \<and>
     (\<forall>name c i. gm_get fs name = Some c \<and> segment_id name = Some i \<longrightarrow>
        name = segment_name i \<and> 0 < i \<and> fl_kind c = Regular \<and> perm_ok insecure windows c)"

lemma segment_id_Nil [simp]: "segment_id [] = None"
  by (simp add: segment_id_def CutSuffix_def)

lemma dir_evolves_disk_ok:
  assumes "dir_evolves insecure fs fs'" "disk_ok insecure windows fs"
  shows "disk_ok insecure windows fs'"
proof -
  have "name = segment_name i \<and> 0 < i \<and> fl_kind c' = Regular \<and> perm_ok insecure windows c'"
    if c': "gm_get fs' name = Some c'" and id: "segment_id name = Some i" for name c' i
  proof -
    have "(\<exists>c. gm_get fs name = Some c \<and> fl_kind c' = fl_kind c \<and> fl_mode c' = fl_mode c) \<or>
        (\<exists>j > 0. name = segment_name j \<and> fl_kind c' = Regular \<and> (insecure \<or> fl_mode c' mod 64 = 0))"
      using assms(1) c' by (simp add: dir_evolves_def)
    then consider
      (old) c where "gm_get fs name = Some c" "fl_kind c' = fl_kind c" "fl_mode c' = fl_mode c"
      | (new) j where "0 < j" "name = segment_name j" "fl_kind c' = Regular" "insecure \<or> fl_mode c' mod 64 = 0"
      by (elim disjE exE conjE) simp_all
    then show ?thesis
    proof cases
      case old
      then show ?thesis
        using assms(2) id unfolding disk_ok_def perm_ok_def by auto
    next
      case new
      then show ?thesis
        using id by (auto simp: segment_id_name perm_ok_def split: if_splits)
    qed
  qed
  then show ?thesis
    using assms unfolding disk_ok_def dir_evolves_def by auto
qed

abbreviation dir_segments :: "'x disk \<Rightarrow> (nat \<times> string) list" where
  "dir_segments d \<equiv> segment_files (filter (\<lambda>name. name \<noteq> '''') (map fst (fst d)))"

lemma ids_distinct:
  assumes "distinct names" "\<And>name i. name \<in> set names \<Longrightarrow> segment_id name = Some i \<Longrightarrow> name = segment_name i"
  shows "distinct (map fst (concat (map (\<lambda>name. case segment_id name of None \<Rightarrow> [] | Some i \<Rightarrow> [(i, name)]) names)))"
  using assms
proof (induction names)
  case (Cons name names)
  show ?case
  proof (cases "segment_id name")
    case (Some i)
    have "\<forall>n \<in> set names. segment_id n \<noteq> Some i"
      using Cons.prems Some by (metis distinct.simps(2) list.set_intros(1,2))
    then have "i \<notin> fst ` set (concat (map (\<lambda>name. case segment_id name of None \<Rightarrow> [] | Some i \<Rightarrow> [(i, name)]) names))"
      by (force split: option.splits)
    then show ?thesis
      using Cons Some by simp
  qed (use Cons in simp)
qed simp

lemma dir_segments_set:
  "set (dir_segments d) = {(i, name). gm_get (fst d) name \<noteq> None \<and> segment_id name = Some i}"
proof -
  have "set (dir_segments d) = {(i, name). name \<in> fst ` set (fst d) \<and> name \<noteq> '''' \<and> segment_id name = Some i}"
    by (auto simp: segment_files_def split: option.splits)
  also have "\<dots> = {(i, name). gm_get (fst d) name \<noteq> None \<and> segment_id name = Some i}"
    by (auto simp: gm_get_None_iff)
  finally show ?thesis .
qed

lemma dir_segments_ok:
  assumes "disk_ok insecure windows (fst d)"
  shows "segs_ok d (dir_segments d)"
proof -
  let ?names = "filter (\<lambda>name. name \<noteq> '''') (map fst (fst d))"
  have names: "name = segment_name i \<and> 0 < i" if "gm_get (fst d) name \<noteq> None" "segment_id name = Some i" for name i
    using assms that unfolding disk_ok_def by blast
  have "distinct (map fst (concat (map (\<lambda>name. case segment_id name of None \<Rightarrow> [] | Some i \<Rightarrow> [(i, name)]) ?names)))"
    using names assms by (intro ids_distinct) (auto simp: disk_ok_def gm_get_None_iff)
  then have "distinct (map fst (dir_segments d))"
    unfolding segment_files_def distinct_map by simp
  moreover have "sorted (map fst (dir_segments d))"
    by (simp add: segment_files_def)
  ultimately show ?thesis
    using names dir_segments_set [of d] by (auto simp: segs_ok_def strict_sorted_iff)
qed

subsection \<open>Opening\<close>

lemma validatePath_ok:
  assumes eq: "validatePath os windows path directory insecure d = (e, d1)"
  shows "fst d1 = fst d"
    "gm_get (fst d) path = Some c \<Longrightarrow> fl_kind c = (if directory then Directory else Regular) \<Longrightarrow>
       perm_ok insecure windows c \<Longrightarrow> e \<noteq> None \<Longrightarrow> faulty os"
proof -
  obtain e2 d2 where st: "syscall os IoStat path d = (e2, d2)"
    by (metis surj_pair)
  have fs: "fst d2 = fst d"
    using fst_syscall [OF st] .
  show "fst d1 = fst d"
    using eq fs by (cases e2) (auto simp: validatePath_def st split: prod.splits option.splits if_splits)
  assume "gm_get (fst d) path = Some c" "fl_kind c = (if directory then Directory else Regular)"
    "perm_ok insecure windows c" "e \<noteq> None"
  then have "e2 \<noteq> None"
    using eq fs by (cases d2) (auto simp: validatePath_def st perm_ok_def split: option.splits if_splits)
  then show "faulty os"
    using syscall_faulty [of os IoStat path d] st by auto
qed

lemma validate_all_ok:
  assumes "validate_all os windows insecure paths d = (e, d1)"
    "\<forall>path \<in> set paths. \<exists>c. gm_get (fst d) path = Some c \<and> fl_kind c = Regular \<and> perm_ok insecure windows c"
  shows "fst d1 = fst d \<and> (e \<noteq> None \<longrightarrow> faulty os)"
  using assms
proof (induction paths arbitrary: d)
  case (Cons path paths)
  obtain e2 d2 where v: "validatePath os windows path False insecure d = (e2, d2)"
    by (metis surj_pair)
  obtain c where c: "gm_get (fst d) path = Some c" "fl_kind c = Regular" "perm_ok insecure windows c"
    using Cons.prems(2) by auto
  note ok = validatePath_ok(1) [OF v] validatePath_ok(2) [OF v c(1) _ c(3)]
  show ?case
  proof (cases e2)
    case None
    then have "validate_all os windows insecure paths d2 = (e, d1)"
      using Cons.prems(1) v by simp
    then show ?thesis
      using Cons.IH [of d2] Cons.prems(2) ok(1) by simp
  next
    case (Some err)
    then show ?thesis
      using Cons.prems(1) v ok c(2) by auto
  qed
qed simp

lemma MkdirAll_ok:
  assumes eq: "os_MkdirAll os mode d = (e, d1)" and ok: "disk_ok insecure windows (fst d)"
    and mode: "insecure \<or> mode mod 64 = 0"
  shows "e \<noteq> None \<Longrightarrow> faulty os"
    "e = None \<Longrightarrow> disk_ok insecure windows (fst d1)"
    "e = None \<Longrightarrow> \<exists>c. gm_get (fst d1) '''' = Some c \<and> fl_kind c = Directory \<and> perm_ok insecure windows c"
    "e = None \<Longrightarrow> dir_segments d1 = dir_segments d"
    "e = None \<Longrightarrow> name \<noteq> '''' \<Longrightarrow> gm_get (fst d1) name = gm_get (fst d) name"
proof -
  obtain e2 d2 where sys: "syscall os IoMkdir '''' d = (e2, d2)"
    by (metis surj_pair)
  have fs: "fst d2 = fst d"
    using fst_syscall [OF sys] .
  let ?new = "\<lparr> fl_kind = Directory, fl_data = [], fl_mode = mode \<rparr>"
  have dir: "fl_kind c = Directory \<and> perm_ok insecure windows c" if "gm_get (fst d) '''' = Some c" for c
    using ok that by (auto simp: disk_ok_def)
  have out: "fst d1 = (if gm_get (fst d) '''' = None then gm_put '''' ?new (fst d) else fst d)" if "e2 = None" "e = None"
    using eq fs that by (cases d2) (auto simp: os_MkdirAll_def sys split: option.splits)
  show "faulty os" if "e \<noteq> None"
  proof -
    have "e2 \<noteq> None"
      using eq fs that dir by (cases d2) (auto simp: os_MkdirAll_def sys split: option.splits if_splits)
    then show ?thesis
      using syscall_faulty [of os IoMkdir "''''" d] sys by auto
  qed
  assume "e = None"
  then have "e2 = None"
    using eq by (cases e2) (auto simp: os_MkdirAll_def sys)
  note out = out [OF this \<open>e = None\<close>]
  have perm: "perm_ok insecure windows ?new"
    using mode by (auto simp: perm_ok_def)
  show "disk_ok insecure windows (fst d1)"
    using ok perm unfolding out disk_ok_def by auto
  show "\<exists>c. gm_get (fst d1) '''' = Some c \<and> fl_kind c = Directory \<and> perm_ok insecure windows c"
    using dir perm unfolding out by auto
  show "gm_get (fst d1) name = gm_get (fst d) name" if "name \<noteq> ''''"
    using that unfolding out by auto
  show "dir_segments d1 = dir_segments d"
    unfolding out by (simp add: gm_put_def update_keys)
qed

lemma wal_inv_empty: "wal_inv \<lparr> w_opts = opts, w_active = None, w_sealed = [], w_nextID = 1, w_totalSz = 0,
    w_closed = False, w_closing = False, w_readBuf = [], w_lastFsyncErr = None \<rparr> d"
  by (simp add: wal_inv_def wal_segs_def)

lemma wal_recover_ok:
  assumes eq: "wal_recover os windows w d = (r, d1)" and ok: "disk_ok (wo_insecurePermissions (w_opts w)) windows (fst d)"
    and w: "wal_inv w d" "w_active w = None" "w_sealed w = []"
  shows "case r of Inl e \<Rightarrow> faulty os | Inr (recs, w1) \<Rightarrow> recovers os (dir_segments d) w d recs w1 d1"
proof -
  let ?ins = "wo_insecurePermissions (w_opts w)"
  obtain e2 d2 where sys: "syscall os IoReadDir '''' d = (e2, d2)"
    by (metis surj_pair)
  have fs: "fst d2 = fst d"
    using fst_syscall [OF sys] .
  obtain e3 d3 where va: "validate_all os windows ?ins (map snd (dir_segments d)) d2 = (e3, d3)"
    by (metis surj_pair)
  have paths: "\<forall>path \<in> set (map snd (dir_segments d)). \<exists>c. gm_get (fst d2) path = Some c \<and> fl_kind c = Regular \<and> perm_ok ?ins windows c"
  proof
    fix path
    assume "path \<in> set (map snd (dir_segments d))"
    then obtain i c where "segment_id path = Some i" "gm_get (fst d) path = Some c"
      using dir_segments_set [of d] by auto
    then show "\<exists>c. gm_get (fst d2) path = Some c \<and> fl_kind c = Regular \<and> perm_ok ?ins windows c"
      using ok fs unfolding disk_ok_def by auto
  qed
  have va_ok: "fst d3 = fst d" "e3 \<noteq> None \<Longrightarrow> faulty os"
    using validate_all_ok [OF va paths] fs by auto
  show ?thesis
  proof (cases "e2 = None \<and> e3 = None")
    case False
    have "e2 \<noteq> None \<Longrightarrow> faulty os"
      using syscall_faulty [of os IoReadDir "''''" d] sys by auto
    moreover have "\<exists>e. r = Inl e"
      using eq False va fs by (auto simp: wal_recover_def sys Let_def split: option.splits)
    ultimately show ?thesis
      using va_ok(2) False by auto
  next
    case True
    have rec: "recover_segments os (dir_segments d) w d3 [] = (r, d1)"
      using eq True va fs by (auto simp: wal_recover_def sys Let_def)
    have segs: "segs_ok d3 (dir_segments d)"
      using dir_segments_ok [OF ok] va_ok(1) by (simp add: segs_ok_def)
    have inv3: "wal_inv w d3" "wal_log w d3 = wal_log w d"
      using wal_frame [OF w(1), of d3] va_ok(1) by simp_all
    have same: "file_records d3 = file_records d"
      using va_ok(1) by (intro ext) (simp add: file_records_def file_data_def)
    from recover_segments_ok [OF inv3(1) w(2) segs _ rec] w(3) show ?thesis
      using inv3(2) va_ok(1) by (auto simp: recovers_def wal_becomes_def same split: sum.splits)
  qed
qed

text \<open>Segment numbers that leave room for the next one.\<close>

definition ids_bounded :: "'x disk \<Rightarrow> bool" where
  "ids_bounded d \<longleftrightarrow> (\<forall>i. gm_get (fst d) (segment_name i) \<noteq> None \<longrightarrow> i + 1 < 2 ^ 64)"

text \<open>The records that opening a directory without faults returns.\<close>

definition dir_records :: "'x disk \<Rightarrow> wal_record list" where
  "dir_records d = concat (map (file_records d) (dir_segments d))"

lemma openNewActive_error:
  assumes "openNewActiveLocked os w d = (Some e, w1, d1)" "gm_get (fst d) (segment_name (w_nextID w)) = None"
  shows "faulty os"
proof -
  obtain e2 d2 where sys: "syscall os IoCreate (segment_name (w_nextID w)) d = (e2, d2)"
    by (metis surj_pair)
  have "e2 \<noteq> None"
    using assms fst_syscall [OF sys]
    by (cases d2) (auto simp: openNewActiveLocked_def os_Create_def sys Let_def split: option.splits prod.splits if_splits)
  then show ?thesis
    using syscall_faulty [of os IoCreate "segment_name (w_nextID w)" d] sys by auto
qed

lemma recovers_name_free:
  assumes rec: "recovers os (dir_segments d) w d recs w1 d1" and nf: "\<not> faulty os"
    and ok: "disk_ok insecure windows (fst d)" and bound: "ids_bounded d" and w: "w_nextID w = 1"
  shows "gm_get (fst d1) (segment_name (w_nextID w1)) = None"
proof (rule ccontr)
  assume present: "gm_get (fst d1) (segment_name (w_nextID w1)) \<noteq> None"
  have small: "\<forall>i \<in> fst ` set (dir_segments d). i + 1 \<le> 2 ^ 64 - 1"
  proof
    fix i
    assume "i \<in> fst ` set (dir_segments d)"
    then have "\<exists>name. gm_get (fst d) name \<noteq> None \<and> segment_id name = Some i"
      unfolding dir_segments_set by auto
    then have "gm_get (fst d) (segment_name i) \<noteq> None"
      using ok unfolding disk_ok_def by blast
    then show "i + 1 \<le> 2 ^ 64 - 1"
      using bound by (fastforce simp: ids_bounded_def)
  qed
  then have "w_nextID w1 \<le> 2 ^ 64 - 1"
    using rec w unfolding recovers_def by simp
  then have lt: "w_nextID w1 < 2 ^ 64"
    by simp
  show False
  proof (cases "segment_name (w_nextID w1) \<in> snd ` set (dir_segments d)")
    case True
    then obtain i where i: "(i, segment_name (w_nextID w1)) \<in> set (dir_segments d)"
      by auto
    then have "i = w_nextID w1"
      using dir_segments_set [of d] lt by (auto simp: segment_id_name)
    then show False
      using rec nf i present unfolding recovers_def by auto
  next
    case False
    then have "gm_get (fst d) (segment_name (w_nextID w1)) \<noteq> None"
      using rec present unfolding recovers_def by simp
    then have "(w_nextID w1, segment_name (w_nextID w1)) \<in> set (dir_segments d)"
      using dir_segments_set [of d] lt by (auto simp: segment_id_name)
    then show False
      using False by force
  qed
qed

lemma Open_ok:
  assumes eq: "Open os windows dir opts d = (r, d1)" and ok: "disk_ok (wo_insecurePermissions opts) windows (fst d)"
  shows "case r of
      Inr (w, recs) \<Rightarrow> wal_inv w d1 \<and> wal_log w d1 = recs \<and> w_opts w = opts \<and>
        disk_ok (wo_insecurePermissions opts) windows (fst d1) \<and> (\<not> faulty os \<longrightarrow> recs = dir_records d)
    | Inl e \<Rightarrow> faulty os \<or> dir = '''' \<or> \<not> ids_bounded d"
proof (cases "dir = ''''")
  case True
  then show ?thesis
    using eq by (auto simp: Open_def)
next
  case dir: False
  let ?ins = "wo_insecurePermissions opts"
  obtain e2 d2 where mk: "os_MkdirAll os (if ?ins then 493 else 448) d = (e2, d2)"
    by (metis surj_pair)
  have mode: "?ins \<or> (if ?ins then 493 else 448 :: nat) mod 64 = 0"
    by simp
  note mkdir = MkdirAll_ok [OF mk ok mode]
  show ?thesis
  proof (cases e2)
    case (Some err)
    then show ?thesis
      using eq mkdir(1) dir by (auto simp: Open_def mk)
  next
    case None
    obtain e3 d3 where va: "validatePath os windows '''' True ?ins d2 = (e3, d3)"
      by (metis surj_pair)
    obtain c where c: "gm_get (fst d2) '''' = Some c" "fl_kind c = Directory" "perm_ok ?ins windows c"
      using mkdir(3) None by blast
    note vp = validatePath_ok(1) [OF va] validatePath_ok(2) [OF va c(1) _ c(3)]
    show ?thesis
    proof (cases e3)
      case (Some err)
      then show ?thesis
        using eq vp(2) c(2) dir None by (auto simp: Open_def mk va)
    next
      case e3: None
      define w0 where "w0 = \<lparr> w_opts = opts, w_active = None, w_sealed = [], w_nextID = 1, w_totalSz = 0,
        w_closed = False, w_closing = False, w_readBuf = [], w_lastFsyncErr = None \<rparr>"
      obtain r4 d4 where rc: "wal_recover os windows w0 d3 = (r4, d4)"
        by (metis surj_pair)
      have w0: "wal_inv w0 d3" "w_active w0 = None" "w_sealed w0 = []" "w_opts w0 = opts" "w_nextID w0 = 1"
        using wal_inv_empty [of opts d3] by (simp_all add: w0_def)
      have ok3: "disk_ok ?ins windows (fst d3)"
        using mkdir(2) [OF None] vp(1) by simp
      have rec: "case r4 of Inl e \<Rightarrow> faulty os | Inr (recs, w1) \<Rightarrow> recovers os (dir_segments d3) w0 d3 recs w1 d4"
        using wal_recover_ok [OF rc _ w0(1-3)] ok3 w0(4) by simp
      have out: "(r, d1) = (case r4 of Inl e \<Rightarrow> (Inl e, d4)
          | Inr (recs, w) \<Rightarrow> (case openNewActiveLocked os w d4 of (Some e, w1, d5) \<Rightarrow> (Inl e, d5)
              | (None, w1, d5) \<Rightarrow> (Inr (w1, recs), d5)))"
        unfolding eq [symmetric] Open_def using dir rc [unfolded w0_def] by (simp add: mk va None e3 split: sum.splits)
      show ?thesis
      proof (cases r4)
        case (Inl err)
        then show ?thesis
          using rec out by auto
      next
        case (Inr v)
        then obtain recs w where r4: "r4 = Inr (recs, w)"
          by (cases v) auto
        have rec: "recovers os (dir_segments d3) w0 d3 recs w d4"
          using rec r4 by simp
        have becomes: "wal_becomes w0 d3 w d4 recs" and act: "w_active w = None"
          using rec by (auto simp: recovers_def wal_log_def wal_segs_def w0(2,3))
        have seen: "dir_segments d3 = dir_segments d" "gm_get (fst d3) n = gm_get (fst d) n" if "n \<noteq> ''''" for n
          using mkdir(4) [OF None] mkdir(5) [OF None that] vp(1) by simp_all
        obtain e5 w5 d5 where new: "openNewActiveLocked os w d4 = (e5, w5, d5)"
          by (metis surj_pair)
        have inv4: "wal_inv w d4" "wal_log w d4 = recs"
          using becomes by (simp_all add: wal_becomes_def)
        have all: "wal_becomes w0 d3 w5 d5 recs"
          using openNewActiveLocked_becomes [OF inv4(1) act new] wal_becomes_trans [OF becomes] inv4(2) by simp
        show ?thesis
        proof (cases e5)
          case (Some err)
          have "faulty os \<or> \<not> ids_bounded d"
          proof (rule ccontr)
            assume "\<not> (faulty os \<or> \<not> ids_bounded d)"
            moreover have "ids_bounded d3 = ids_bounded d"
              unfolding ids_bounded_def using seen(2) by simp
            ultimately have nf: "\<not> faulty os" and bound: "ids_bounded d3"
              by simp_all
            from openNewActive_error [OF new [unfolded Some] recovers_name_free [OF rec nf ok3 bound w0(5)]] nf
            show False
              by simp
          qed
          then show ?thesis
            using out r4 new Some by auto
        next
          case None
          have "file_records d3 f = file_records d f" if "f \<in> set (dir_segments d)" for f
          proof -
            have "snd f \<noteq> ''''"
              using that dir_segments_set [of d] by auto
            then show ?thesis
              using seen(2) [of "snd f"] by (simp add: file_records_def file_data_def)
          qed
          then have "\<not> faulty os \<Longrightarrow> recs = dir_records d"
            using rec seen(1) [of "''a''"] by (simp add: recovers_def dir_records_def cong: map_cong)
          moreover have "disk_ok ?ins windows (fst d5)"
            using all w0(4) dir_evolves_disk_ok [OF _ ok3] unfolding wal_becomes_def by simp
          ultimately show ?thesis
            using out r4 new None all w0(4) by (simp add: wal_becomes_def)
        qed
      qed
    qed
  qed
qed

subsection \<open>Crashes\<close>

text \<open>
  The files after a crash: of a write that was under way, the first \<open>k\<close> bytes may have reached the file.
\<close>

definition crash_disk :: "'x walsys \<Rightarrow> nat \<Rightarrow> 'x disk" where
  "crash_disk s k =
     (case (w_active (sy_wal s), sy_flight s) of
        (Some seg, Some (b, i)) \<Rightarrow>
          (if sg_file seg
           then on_file (sg_path seg)
                  (\<lambda>c. c\<lparr>fl_data := fl_data c @ take k (drop (ab_starts b ! i) (ab_buf b))\<rparr>) (sy_disk s)
           else sy_disk s)
      | _ \<Rightarrow> sy_disk s)"

lemma crash_disk_data: "\<exists>t. file_data (crash_disk s k) name = file_data (sy_disk s) name @ t"
  by (auto simp: crash_disk_def file_data_def on_file_get split: option.splits prod.splits)

lemma crash_disk_present: "gm_get (fst (crash_disk s k)) name \<noteq> None \<longleftrightarrow> gm_get (fst (sy_disk s)) name \<noteq> None"
  by (auto simp: crash_disk_def on_file_get split: option.splits prod.splits)

lemma crash_disk_evolves:
  assumes "sys_inv s"
  shows "dir_evolves insecure (fst (sy_disk s)) (fst (crash_disk s k))"
proof -
  have "sg_path seg \<noteq> ''''" if "w_active (sy_wal s) = Some seg" for seg
    using wal_inv_path(1) [of "sy_wal s" "sy_disk s" seg] assms that by (simp add: sys_inv_def wal_segs_def)
  then show ?thesis
    by (auto simp: crash_disk_def intro!: dir_evolves_on_file split: option.splits prod.splits)
qed

lemma strict_sorted_subseq:
  fixes f :: "'a \<Rightarrow> nat"
  assumes "sorted_wrt (<) (map f xs)" "sorted_wrt (<) (map f ys)" "set xs \<subseteq> set ys"
  shows "subseq xs ys"
  using assms
proof (induction ys arbitrary: xs)
  case (Cons y ys)
  show ?case
  proof (cases xs)
    case (Cons x xs')
    show ?thesis
    proof (cases "x = y")
      case True
      have "set xs' \<subseteq> set ys"
        using Cons.prems Cons True by auto
      then show ?thesis
        using Cons.IH [of xs'] Cons.prems Cons True by simp
    next
      case False
      have "f y < f x"
        using Cons.prems(2,3) Cons False by auto
      then have "y \<notin> set xs"
        using Cons.prems(1) Cons by auto
      then have "subseq xs ys"
        using Cons.IH [of xs] Cons.prems by auto
      then show ?thesis
        by (rule list_emb_Cons)
    qed
  qed simp
qed simp

lemma subseq_concat_map: "subseq xs ys \<Longrightarrow> subseq (concat (map h xs)) (concat (map h ys))"
  by (induction rule: list_emb.induct) (auto intro: list_emb_append_mono list_emb_append2)

lemma subseq_concat_map2:
  "(\<And>x. x \<in> set xs \<Longrightarrow> subseq (g x) (h x)) \<Longrightarrow> subseq (concat (map g xs)) (concat (map h xs))"
  by (induction xs) (auto intro: list_emb_append_mono)

lemma seg_log_on_disk:
  assumes "seg_inv d seg" "file_data d' (sg_path seg) = file_data d (sg_path seg) @ t"
  shows "subseq (seg_log d seg) (file_records d' (sg_id seg, sg_path seg))"
proof -
  obtain ps m where rep: "seg_rep d seg ps m"
    using assms(1) by (auto simp: seg_inv_def)
  then obtain t0 where "file_data d (sg_path seg) = encode_all ps @ t0" and valid: "list_all valid_payload ps"
    by (auto simp: seg_rep_def)
  then have "decode_all (file_data d' (sg_path seg)) = ps @ decode_all (t0 @ t)"
    using assms(2) decode_encode_all [OF valid, of "t0 @ t"] by simp
  then have "file_records d' (sg_id seg, sg_path seg) =
      with_offsets (sg_id seg) (place 0 ps) @ with_offsets (sg_id seg) (place (length (encode_all ps)) (decode_all (t0 @ t)))"
    by (simp add: file_records_def place_append with_offsets_def)
  moreover have "subseq (seg_log d seg) (with_offsets (sg_id seg) (place 0 ps))"
    unfolding seg_log_def seg_records_rep [OF rep] with_offsets_def by (intro subseq_map subseq_filter_left)
  ultimately show ?thesis
    by (simp add: list_emb_append2 subseq_rev_drop_many)
qed

lemma log_survives:
  assumes inv: "wal_inv w d" and ok: "disk_ok insecure windows (fst d')" and bound: "ids_bounded d"
    and present: "\<And>name. gm_get (fst d') name \<noteq> None \<longleftrightarrow> gm_get (fst d) name \<noteq> None"
    and bytes: "\<And>name. \<exists>t. file_data d' name = file_data d name @ t"
  shows "subseq (wal_log w d) (dir_records d')"
proof -
  let ?f = "\<lambda>seg. (sg_id seg, sg_path seg)"
  have files: "set (map ?f (wal_segs w)) \<subseteq> set (dir_segments d')"
  proof
    fix f
    assume "f \<in> set (map ?f (wal_segs w))"
    then obtain seg where seg: "seg \<in> set (wal_segs w)" "f = ?f seg"
      by auto
    then have path: "sg_path seg = segment_name (sg_id seg)" "gm_get (fst d) (sg_path seg) \<noteq> None"
      using wal_inv_path [OF inv seg(1)] by (auto simp: seg_inv_def seg_rep_def)
    then have "sg_id seg + 1 < 2 ^ 64"
      using bound unfolding ids_bounded_def by metis
    then show "f \<in> set (dir_segments d')"
      using path present seg(2) unfolding dir_segments_set by (simp add: segment_id_name)
  qed
  have "subseq (map ?f (wal_segs w)) (dir_segments d')"
  proof (rule strict_sorted_subseq [where f = fst])
    show "sorted_wrt (<) (map fst (map ?f (wal_segs w)))"
      using inv by (simp add: wal_inv_def o_def)
    show "sorted_wrt (<) (map fst (dir_segments d'))"
      using dir_segments_ok [OF ok] by (simp add: segs_ok_def)
  qed (use files in simp)
  then have "subseq (concat (map (file_records d') (map ?f (wal_segs w)))) (dir_records d')"
    unfolding dir_records_def by (rule subseq_concat_map)
  moreover have "subseq (wal_log w d) (concat (map (\<lambda>seg. file_records d' (?f seg)) (wal_segs w)))"
    unfolding wal_log_def
  proof (rule subseq_concat_map2)
    fix seg
    assume "seg \<in> set (wal_segs w)"
    then show "subseq (seg_log d seg) (file_records d' (?f seg))"
      using wal_inv_path(3) [OF inv] bytes seg_log_on_disk by blast
  qed
  ultimately show ?thesis
    using subseq_order.trans by (fastforce simp: o_def)
qed

text \<open>Opening after a crash, when no system call fails.\<close>

lemma crash_reopens:
  assumes inv: "sys_inv s" and ok: "disk_ok (wo_insecurePermissions opts) windows (fst (sy_disk s))"
    and bound: "ids_bounded (sy_disk s)" and fine: "\<not> faulty os2" "dir \<noteq> ''''"
  shows "\<exists>w2 recs2 d2. Open os2 windows dir opts (crash_disk s k) = (Inr (w2, recs2), d2) \<and>
    subseq (wal_log (sy_wal s) (sy_disk s)) recs2 \<and> wal_log w2 d2 = recs2"
proof -
  let ?d = "crash_disk s k"
  have ok1: "disk_ok (wo_insecurePermissions opts) windows (fst ?d)"
    using dir_evolves_disk_ok [OF crash_disk_evolves [OF inv] ok] .
  have bound1: "ids_bounded ?d"
    using bound crash_disk_present unfolding ids_bounded_def by blast
  obtain r d2 where opn: "Open os2 windows dir opts ?d = (r, d2)"
    by (metis surj_pair)
  have "subseq (wal_log (sy_wal s) (sy_disk s)) (dir_records ?d)"
    by (rule log_survives [OF _ ok1 bound crash_disk_present crash_disk_data]) (use inv in \<open>simp add: sys_inv_def\<close>)
  then show ?thesis
    using Open_ok [OF opn ok1] fine bound1 opn by (cases r) auto
qed

end
