(* ===== verification/Wal.thy ===== *)
theory Wal
  imports WalRecover
begin

text \<open>
  The properties of the write-ahead log: it behaves as a log of records under concurrent callers,
  failing system calls and closing, its readers see that log, and a crash loses none of its records.
\<close>

subsection \<open>A log that opens on a directory and runs\<close>

definition sys_start :: "WAL \<Rightarrow> 'x disk \<Rightarrow> 'x walsys" where
  "sys_start w d = \<lparr> sy_wal = w, sy_disk = d, sy_cur = getAppendBatch, sy_flight = None \<rparr>"

lemma reachable_ok:
  assumes "disk_ok (wo_insecurePermissions opts) windows (fst d)" "Open os windows dir opts d = (Inr (w, recs), d1)"
    "wal_run os (sys_start w d1) tr s"
  shows "sys_inv s" "wal_log (sy_wal s) (sy_disk s) = foldl log_step recs tr"
    "disk_ok (wo_insecurePermissions opts) windows (fst (sy_disk s))"
proof -
  have start: "wal_inv w d1" "wal_log w d1 = recs" "w_opts w = opts" "disk_ok (wo_insecurePermissions opts) windows (fst d1)"
    using Open_ok [OF assms(2,1)] by auto
  then have "sys_inv (sys_start w d1)"
    by (auto simp: sys_inv_def sys_start_def intro: exI [of _ "[]"])
  from wal_run_ok [OF assms(3) this] show "sys_inv s" "wal_log (sy_wal s) (sy_disk s) = foldl log_step recs tr"
    "disk_ok (wo_insecurePermissions opts) windows (fst (sy_disk s))"
    using start dir_evolves_disk_ok by (auto simp: sys_start_def wal_becomes_def)
qed

text \<open>
  C9: A write-ahead log is a log. Open it on a directory, with any system calls failing in any way, and
  let callers append in group commits, acknowledge offsets they were given, read, sync and close, in
  any interleaving: the records that wait for their acknowledgement are at every moment those that
  recovery returned and those that appends reported as written, in that order, less those that were
  acknowledged. Rolling over to a new segment, undoing a failed write and removing files never loses,
  doubles or reorders one, and the number of pending records in the statistics is exact.
\<close>

theorem wal_follows_log:
  assumes "disk_ok (wo_insecurePermissions opts) windows (fst d)" "Open os windows dir opts d = (Inr (w, recs), d1)"
    "wal_run os (sys_start w d1) tr s"
  shows "wal_log (sy_wal s) (sy_disk s) = foldl log_step recs tr \<and>
    st_Pending (Stats (sy_wal s)) = int (length (foldl log_step recs tr))"
  using reachable_ok [OF assms] Stats_pending [of "sy_wal s" "sy_disk s"] by (simp add: sys_inv_def)

text \<open>
  C8: A crash loses no pending record. Whenever the process stops, with a write of the group commit
  possibly cut short after any number of bytes, opening the directory again succeeds when no system
  call fails, and returns every record that was written and not acknowledged, in the order of the log;
  the reopened log holds exactly what it returned.
\<close>

theorem wal_crash_recovery:
  assumes "disk_ok (wo_insecurePermissions opts) windows (fst d)" "Open os windows dir opts d = (Inr (w, recs), d1)"
    "wal_run os (sys_start w d1) tr s" "ids_bounded (sy_disk s)" "\<not> faulty os2" "dir \<noteq> ''''"
  shows "\<exists>w2 recs2 d2. Open os2 windows dir opts (crash_disk s k) = (Inr (w2, recs2), d2) \<and>
    subseq (foldl log_step recs tr) recs2 \<and> wal_log w2 d2 = recs2"
  using crash_reopens [OF reachable_ok(1,3) [OF assms(1-3)] assms(4-6)] reachable_ok(2) [OF assms(1-3)] by simp

text \<open>
  C10: Readers see the log. \<^verbatim>\<open>ReadPending\<close> returns the first \<^verbatim>\<open>limit\<close> records that wait for their
  acknowledgement and that the caller does not skip, with their payloads, whatever the read window
  and whatever acknowledged positions it drops on the way; it fails only on a closed log or when
  opening or reading a file fails.
\<close>

theorem ReadPending_returns_log:
  assumes "disk_ok (wo_insecurePermissions opts) windows (fst d)" "Open os windows dir opts d = (Inr (w, recs), d1)"
    "wal_run os (sys_start w d1) tr s" "ReadPending os limit skip (sy_wal s) (sy_disk s) = (r, w2, d2)"
  shows "case r of Inr out \<Rightarrow> out = take (nat limit) (filter (wanted skip) (foldl log_step recs tr))
    | Inl e \<Rightarrow> w_closed (sy_wal s) \<or> reads_fail os"
proof -
  note run = reachable_ok [OF assms(1-3)]
  have "wal_inv (sy_wal s) (sy_disk s)"
    using run(1) by (simp add: sys_inv_def)
  from ReadPending_becomes(2) [OF this assms(4)] show ?thesis
    unfolding run(2) .
qed

subsection \<open>Damaged files\<close>

lemma decode_damaged:
  assumes valid: "valid_payload (pre @ b # post)" and diff: "b \<noteq> c"
  shows "decode_all (take 8 (encode_record (pre @ b # post)) @ (pre @ c # post) @ t) = []"
proof -
  let ?p = "pre @ b # post" and ?q = "pre @ c # post"
  let ?f = "take 8 (encode_record ?p) @ ?q @ t"
  have head: "take 8 (encode_record ?p) = AppendUint32 (of_nat (length ?p)) @ AppendUint32 (ChecksumIEEE ?p)"
    by (simp add: encode_record_def)
  have n: "unat (Uint32 (take 4 ?f)) = length ?p"
    unfolding head using unat_length_payload [OF valid] by simp
  have crc: "Uint32 (take 4 (drop 4 ?f)) = ChecksumIEEE ?p"
    unfolding head by simp
  have rest: "take (length ?p) (drop recordHeaderSize ?f) = ?q"
    unfolding head recordHeaderSize_def by simp
  show ?thesis
    by (subst decode_all.simps) (simp only: Let_def n crc rest ChecksumIEEE_detects_byte [OF diff, symmetric] simp_thms if_True)
qed

text \<open>
  C11: Recovery trusts no damaged record. When one byte of the payload of a record has changed on disk,
  reading the segment returns exactly the records before it and their length, to which recovery cuts
  the file: the checksum of a payload that differs in one byte is never the one in the header.
\<close>

theorem readSegment_stops_at_damage:
  assumes "\<not> faulty os" "list_all valid_payload ps" "valid_payload (pre @ b # post)" "b \<noteq> c"
    "file_data d path = encode_all ps @ take 8 (encode_record (pre @ b # post)) @ (pre @ c # post) @ t"
    "gm_get (fst d) path \<noteq> None"
  shows "fst (readSegment os path d) = Inr (place 0 ps, length (encode_all ps))"
proof -
  obtain r d1 where rd: "readSegment os path d = (r, d1)"
    by (metis surj_pair)
  have "decode_all (file_data d path) = ps"
    using decode_encode_all [OF assms(2)] decode_damaged [OF assms(3,4)] by (simp add: assms(5))
  then show ?thesis
    using readSegment_ok(2) [OF rd assms(6)] assms(1) rd by (cases r) auto
qed

subsection \<open>Witnesses\<close>

definition fine_os :: "unit os" where
  "fine_os = \<lparr> os_err = (\<lambda>op path x. (None, x)), os_write = (\<lambda>path n x. ((n, None), x)) \<rparr>"

lemma not_faulty_fine [simp]: "\<not> faulty fine_os"
  by (simp add: faulty_def fine_os_def)

lemma fine_syscall [simp]: "syscall fine_os op path d = (None, d)"
  by (cases d) (simp add: syscall_def fine_os_def)

definition small_opts :: wal_options where
  "small_opts = \<lparr> wo_insecurePermissions = False, wo_maxSegmentBytes = 100, wo_maxBytes = 0 \<rparr>"

definition fresh_seg :: segmentRef where
  "fresh_seg = \<lparr> sg_id = 1, sg_path = segment_name 1, sg_file = True, sg_size = 0, sg_records = 0,
     sg_unacked = 0, sg_acked = [], sg_pendingPosition = 0 \<rparr>"

definition fresh_wal :: WAL where
  "fresh_wal = \<lparr> w_opts = small_opts, w_active = Some fresh_seg, w_sealed = [], w_nextID = 2, w_totalSz = 0,
     w_closed = False, w_closing = False, w_readBuf = [], w_lastFsyncErr = None \<rparr>"

definition fresh_disk :: "unit disk" where
  "fresh_disk = ([('''', \<lparr> fl_kind = Directory, fl_data = [], fl_mode = 448 \<rparr>),
                  (segment_name 1, \<lparr> fl_kind = Regular, fl_data = [], fl_mode = 384 \<rparr>)], ())"

lemma open_fresh: "Open fine_os False ''wal'' small_opts ([], ()) = (Inr (fresh_wal, []), fresh_disk)"
  by (simp add: Open_def os_MkdirAll_def validatePath_def wal_recover_def segment_files_def openNewActiveLocked_def
      os_Create_def Let_def small_opts_def fresh_wal_def fresh_seg_def fresh_disk_def gm_put_def gm_get_def)

lemma disk_ok_empty: "disk_ok insecure windows []"
  by (simp add: disk_ok_def)

definition batch_of :: "bytes \<Rightarrow> appendBatch" where
  "batch_of p = fst (batch_add getAppendBatch p (ChecksumIEEE p))"

abbreviation first_off :: Offset where
  "first_off \<equiv> \<lparr> of_SegmentID = 1, of_Position = 0 \<rparr>"

definition one_wal :: WAL where
  "one_wal = fresh_wal\<lparr>w_active := Some (fresh_seg\<lparr>sg_size := 9, sg_records := 1, sg_unacked := 1\<rparr>), w_totalSz := 9\<rparr>"

definition one_disk :: "unit disk" where
  "one_disk = ([('''', \<lparr> fl_kind = Directory, fl_data = [], fl_mode = 448 \<rparr>),
                (segment_name 1, \<lparr> fl_kind = Regular, fl_data = encode_record [7], fl_mode = 384 \<rparr>)], ())"

lemmas witness_defs = fresh_wal_def fresh_seg_def fresh_disk_def small_opts_def one_wal_def one_disk_def
  batch_of_def batch_add_def getAppendBatch_def batch_len_def batch_size_def

lemma append_fresh: "Append_begin fresh_wal [7] getAppendBatch = Inr (batch_of [7], 0)"
  "Append_begin one_wal [8] getAppendBatch = Inr (batch_of [8], 0)"
  by (simp_all add: Append_begin_def witness_defs maxRecordBytes_def Let_def)

lemma run_end_one: "run_end (batch_of p) m 0 0 0 = 1"
  by (simp add: run_end.simps witness_defs Let_def)

lemma round_fresh:
  "flush_round fine_os (batch_of [7]) 0 fresh_wal fresh_disk =
     (((batch_of [7])\<lparr>ab_offs := [first_off]\<rparr>, 1), one_wal, one_disk)"
  using run_end_one [of "[7]" 100]
  by (simp add: flush_round_def witness_defs Let_def file_Write_def fine_os_def on_file_def gm_get_def gm_put_def encode_record_def)

lemma results_fresh: "batch_results ((batch_of [7])\<lparr>ab_offs := [first_off]\<rparr>) 0 1 = [(first_off, [7])]"
  by (simp add: batch_results_def Append_result_def batch_payload_def witness_defs Let_def recordHeaderSize_def)

definition two_sys :: "unit walsys" where
  "two_sys = \<lparr> sy_wal = one_wal, sy_disk = one_disk, sy_cur = getAppendBatch, sy_flight = Some (batch_of [8], 0) \<rparr>"

lemma run_two:
  "wal_run fine_os (sys_start fresh_wal fresh_disk)
     [Silent, Silent, Published [(first_off, [7])], Silent, Silent, Silent] two_sys"
proof -
  let ?s0 = "sys_start fresh_wal fresh_disk"
  let ?b = "(batch_of [7])\<lparr>ab_offs := [first_off]\<rparr>"
  let ?s1 = "?s0\<lparr>sy_cur := batch_of [7]\<rparr>"
  let ?s2 = "?s1\<lparr>sy_cur := getAppendBatch, sy_flight := Some (batch_of [7], 0)\<rparr>"
  let ?s3 = "?s2\<lparr>sy_wal := one_wal, sy_disk := one_disk, sy_flight := Some (?b, 1)\<rparr>"
  let ?s4 = "?s3\<lparr>sy_flight := None\<rparr>"
  let ?s5 = "?s4\<lparr>sy_cur := batch_of [8]\<rparr>"
  have "wal_step fine_os ?s0 Silent ?s1"
    using step_append [of ?s0 "[7]" "batch_of [7]" 0 fine_os] append_fresh(1) by (simp add: sys_start_def)
  then have r1: "wal_run fine_os ?s0 ([] @ [Silent]) ?s1"
    by (rule run_step [OF run_start])
  have "wal_step fine_os ?s1 Silent ?s2"
    using step_lead [of ?s1 fine_os] by (simp add: sys_start_def)
  note r2 = run_step [OF r1 this]
  have "wal_step fine_os ?s2 (Published [(first_off, [7])]) ?s3"
    using step_round [of ?s2 "batch_of [7]" 0 fine_os ?b 1 one_wal one_disk] round_fresh results_fresh
    by (simp add: sys_start_def witness_defs Let_def)
  note r3 = run_step [OF r2 this]
  have "wal_step fine_os ?s3 Silent ?s4"
    using step_finish [of ?s3 ?b 1 fine_os] by (simp add: batch_len_def)
  note r4 = run_step [OF r3 this]
  have "wal_step fine_os ?s4 Silent ?s5"
    using step_append [of ?s4 "[8]" "batch_of [8]" 0 fine_os] append_fresh(2) by (simp add: sys_start_def)
  note r5 = run_step [OF r4 this]
  have "wal_step fine_os ?s5 Silent (?s5\<lparr>sy_cur := getAppendBatch, sy_flight := Some (batch_of [8], 0)\<rparr>)"
    using step_lead [of ?s5 fine_os] by simp
  note r6 = run_step [OF r5 this]
  then show ?thesis
    by (simp add: two_sys_def sys_start_def)
qed

lemma empty_dir_ok: "disk_ok (wo_insecurePermissions small_opts) False (fst ([] :: (string, wal_file) gomap, ()))"
  by (simp add: disk_ok_empty)

text \<open>Two appends: the record of the first is written, the batch of the second is in flight.\<close>

theorem wal_follows_log_witness:
  "wal_log (sy_wal two_sys) (sy_disk two_sys) = [(first_off, [7])] \<and> st_Pending (Stats (sy_wal two_sys)) = 1"
  using wal_follows_log [OF empty_dir_ok open_fresh run_two] by simp

text \<open>The process stops after four bytes of the second write.\<close>

theorem wal_crash_recovery_witness:
  "\<exists>w2 recs2 d2. Open fine_os False ''wal'' small_opts (crash_disk two_sys 4) = (Inr (w2, recs2), d2) \<and>
    subseq [(first_off, [7])] recs2 \<and> wal_log w2 d2 = recs2"
proof -
  have "ids_bounded (sy_disk two_sys)"
    by (auto simp: ids_bounded_def two_sys_def one_disk_def gm_get_def)
  from wal_crash_recovery [OF empty_dir_ok open_fresh run_two this not_faulty_fine, of 4] show ?thesis
    by simp
qed

text \<open>A reader gets the record.\<close>

theorem ReadPending_returns_log_witness:
  "\<exists>w2 d2. ReadPending fine_os 5 None (sy_wal two_sys) (sy_disk two_sys) = (Inr [(first_off, [7])], w2, d2)"
proof -
  obtain r w2 d2 where rd: "ReadPending fine_os 5 None (sy_wal two_sys) (sy_disk two_sys) = (r, w2, d2)"
    by (metis surj_pair)
  have "\<not> w_closed (sy_wal two_sys)" "\<not> reads_fail fine_os"
    by (simp_all add: two_sys_def one_wal_def fresh_wal_def reads_fail_def fine_os_def)
  with ReadPending_returns_log [OF empty_dir_ok open_fresh run_two rd] have "r = Inr [(first_off, [7])]"
    by (cases r) (auto simp: wanted_def)
  with rd show ?thesis
    by blast
qed

text \<open>A file with a good record and one whose payload changed from 8 to 9.\<close>

theorem readSegment_stops_at_damage_witness:
  "fst (readSegment fine_os ''f'' ([(''f'', \<lparr> fl_kind = Regular,
      fl_data = encode_record [7] @ take 8 (encode_record [8]) @ [9], fl_mode = 384 \<rparr>)], ())) = Inr ([(0, [7])], 9)"
proof -
  let ?d = "([(''f'', \<lparr> fl_kind = Regular,
      fl_data = encode_record [7] @ take 8 (encode_record [8]) @ [9], fl_mode = 384 \<rparr>)], ())"
  have "fst (readSegment fine_os ''f'' ?d) = Inr (place 0 [[7]], length (encode_all [[7]]))"
    by (rule readSegment_stops_at_damage [of _ _ "[]" 8 "[]" 9 _ _ "[]"])
      (simp_all add: valid_payload_def maxRecordBytes_def file_data_def gm_get_def)
  then show ?thesis
    by (simp add: recordHeaderSize_def)
qed

subsection \<open>Read errors during recovery\<close>

text \<open>
  A read that fails is taken for the end of the file: opening a directory with a record in it then
  succeeds, returns nothing and replaces the file by an empty one.
\<close>

definition EIO :: goerr where
  "EIO = Sentinel ''syscall.EIO'' ''input/output error'' []"

definition bad_reads :: "unit os" where
  "bad_reads = fine_os\<lparr>os_err := (\<lambda>op path x. (if op = IoRead then Some EIO else None, x))\<rparr>"

lemma bad_reads_syscall: "op \<noteq> IoRead \<Longrightarrow> syscall bad_reads op path d = (None, d)"
  by (cases d) (simp add: syscall_def bad_reads_def)

lemma read_error_loses_records:
  "dir_records one_disk = [(first_off, [7])]"
  "\<exists>w d1. Open bad_reads False ''wal'' small_opts one_disk = (Inr (w, []), d1) \<and> file_data d1 (segment_name 1) = []"
proof -
  have segs: "segment_files [segment_name 1] = [(1, segment_name 1)]"
    by (simp add: segment_files_def segment_id_name)
  have "decode_all (encode_record [7]) = [[7]]"
    using decode_encode_record [of "[7]" "[]"] by (simp add: valid_payload_def maxRecordBytes_def)
  then show "dir_records one_disk = [(first_off, [7])]"
    using segs by (simp add: dir_records_def one_disk_def file_records_def file_data_def gm_get_def with_offsets_def)
  have rd: "read_records bad_reads path f 0 () = (([], 0), ())" for path f
    by (subst read_records.simps) (simp add: bad_reads_def)
  show "\<exists>w d1. Open bad_reads False ''wal'' small_opts one_disk = (Inr (w, []), d1) \<and> file_data d1 (segment_name 1) = []"
    using segs
    by (simp add: Open_def os_MkdirAll_def validatePath_def wal_recover_def openNewActiveLocked_def os_Create_def
        os_Open_def os_Remove_def readSegment_def Let_def small_opts_def one_disk_def gm_put_def gm_get_def gm_del_def
        file_data_def bad_reads_syscall rd)
qed

end
