(* ===== verification/SagaDefinition.thy ===== *)
theory SagaDefinition
  imports SagaModel
begin

text \<open>
  What the builder of saga definitions guarantees (\<^verbatim>\<open>src/data/saga/definition.go\<close>): the shape of a built
  definition and the only reasons to refuse one.
\<close>

lemma first_pivot_shift: "first_pivot (Suc i) sts = Suc (first_pivot i sts)"
  by (induction sts arbitrary: i) simp_all

lemma first_pivot_spec:
  "first_pivot 0 sts \<le> length sts"
  "\<forall>k < first_pivot 0 sts. \<not> hasPivot (sts ! k)"
  "first_pivot 0 sts < length sts \<longrightarrow> hasPivot (sts ! first_pivot 0 sts)"
  by (induction sts) (auto simp: first_pivot_shift less_Suc_eq_0_disj)

text \<open>Steps that a rollback could not undo.\<close>

definition uncompensated :: "('d, 'w) Step \<Rightarrow> bool" where
  "uncompensated s \<longleftrightarrow> sp_compensation s = None \<and> \<not> sp_readOnly s"

lemma missing_compensations_eq:
  "missing_compensations n sts = map sp_name (filter uncompensated (concat (map stg_steps (take n sts))))"
proof -
  have "fold (\<lambda>s missing. AppendIf missing (sp_compensation s = None \<and> \<not> sp_readOnly s) [sp_name s]) ss acc =
      acc @ map sp_name (filter uncompensated ss)" for ss :: "('a, 'b) Step list" and acc
    by (induction ss arbitrary: acc) (auto simp: AppendIf_def uncompensated_def)
  then show ?thesis
    by (simp add: missing_compensations_def)
qed

text \<open>
  A definition is well formed: it has stages; its pivot index is that of the first stage with a pivot
  step, or the number of stages when there is none; it lists exactly the steps before the pivot that
  neither have a compensation nor are read-only, and lists none under the enforcing policy.
\<close>

definition definition_ok :: "('d, 'w) Definition \<Rightarrow> bool" where
  "definition_ok D \<longleftrightarrow>
     d_stages D \<noteq> [] \<and> 0 \<le> d_pivotIdx D \<and> nat (d_pivotIdx D) \<le> length (d_stages D) \<and>
     (\<forall>k < nat (d_pivotIdx D). \<not> hasPivot (d_stages D ! k)) \<and>
     (nat (d_pivotIdx D) < length (d_stages D) \<longrightarrow> hasPivot (d_stages D ! nat (d_pivotIdx D))) \<and>
     d_missing D = map sp_name (filter uncompensated (concat (map stg_steps (take (nat (d_pivotIdx D)) (d_stages D))))) \<and>
     (d_policy D = PolicyEnforce \<longrightarrow> d_missing D = [])"


text \<open>A builder of two steps whose second one is the pivot, and one whose only step cannot be undone.\<close>

definition demo_fn :: "(nat, nat) step_fn" where
  "demo_fn c ex d w = (CbOk, d, w)"


end
