(* ===== verification/WalOffsets.thy ===== *)
theory WalOffsets
  imports WalRecover
begin

text \<open>
  The offsets of the write-ahead log: no two pending records share one, an offset is never given out
  twice, even after its record was acknowledged and its segment removed, and the flag that closes the
  log stays set.
\<close>

subsection \<open>Offsets of pending records\<close>

lemma seg_log_offset:
  assumes "seg_inv d seg" "(off, p) \<in> set (seg_log d seg)"
  shows "of_SegmentID off = sg_id seg" "of_Position off \<in> fst ` set (seg_records d seg)" "of_Position off < sg_size seg"
proof -
  obtain ps m where rep: "seg_rep d seg ps m"
    using assms(1) by (auto simp: seg_inv_def)
  show "of_SegmentID off = sg_id seg" and mem: "of_Position off \<in> fst ` set (seg_records d seg)"
    using assms(2) by (force simp: seg_log_def with_offsets_def)+
  have "sg_size seg = length (encode_all ps)"
    using rep unfolding seg_rep_def by blast
  then show "of_Position off < sg_size seg"
    using mem place_mono(2) [of "of_Position off" 0 ps] unfolding seg_records_rep [OF rep] by simp
qed

lemma seg_log_distinct:
  assumes "seg_inv d seg"
  shows "distinct (map fst (seg_log d seg))"
proof -
  obtain ps m where rep: "seg_rep d seg ps m"
    using assms by (auto simp: seg_inv_def)
  have eq: "map fst (seg_log d seg) = map (\<lambda>pos. \<lparr> of_SegmentID = sg_id seg, of_Position = pos \<rparr>)
      (filter (\<lambda>pos. pos \<notin> set (sg_acked seg)) (map fst (place (sg_pendingPosition seg) (drop m ps))))"
    unfolding seg_log_rep [OF rep] by (simp add: with_offsets_def filter_map o_def case_prod_unfold)
  show ?thesis
    unfolding eq by (subst distinct_map) (auto simp: inj_on_def intro!: distinct_filter place_distinct)
qed

lemma wal_log_distinct:
  assumes "wal_inv w d"
  shows "distinct (map fst (wal_log w d))"
proof -
  have "distinct (map fst (concat (map (seg_log d) ss)))"
    if "\<forall>s \<in> set ss. seg_inv d s" "sorted_wrt (<) (map sg_id ss)" for ss
    using that
  proof (induction ss)
    case (Cons s ss)
    have "of_SegmentID (fst r) = sg_id s" if "r \<in> set (seg_log d s)" for r
      using seg_log_offset(1) [of d s "fst r" "snd r"] that Cons.prems(1) by simp
    moreover have "\<exists>s' \<in> set ss. of_SegmentID (fst r) = sg_id s'" if "r \<in> set (concat (map (seg_log d) ss))" for r
      using seg_log_offset(1) [of d _ "fst r" "snd r"] that Cons.prems(1) by auto
    ultimately have "set (map fst (seg_log d s)) \<inter> set (map fst (concat (map (seg_log d) ss))) = {}"
      using Cons.prems(2) by force
    then show ?case
      using Cons seg_log_distinct [of d s] by simp
  qed simp
  from this [of "wal_segs w"] show ?thesis
    using assms by (simp add: wal_inv_def wal_log_def)
qed

lemma log_ack_ok:
  assumes "wal_inv w d" "off \<in> fst ` set (wal_log w d)"
  shows "ack_ok w d off"
proof -
  obtain seg p where seg: "seg \<in> set (wal_segs w)" "(off, p) \<in> set (seg_log d seg)"
    using assms(2) by (auto simp: wal_log_def)
  have inv: "seg_inv d seg"
    using assms(1) seg(1) by (simp add: wal_inv_def)
  have "inj_on sg_id (set (wal_segs w))"
    using assms(1) by (auto simp: wal_inv_def strict_sorted_iff distinct_map)
  then show ?thesis
    using seg_log_offset [OF inv seg(2)] seg(1) unfolding ack_ok_def by (metis inj_onD)
qed

subsection \<open>Offsets given out\<close>

definition issued :: "WAL \<Rightarrow> Offset \<Rightarrow> bool" where
  "issued w off \<longleftrightarrow> of_SegmentID off < w_nextID w \<and>
     (\<forall>seg. w_active w = Some seg \<longrightarrow> sg_id seg = of_SegmentID off \<longrightarrow> of_Position off < sg_size seg)"

lemma log_issued:
  assumes "wal_inv w d" "off \<in> fst ` set (wal_log w d)"
  shows "issued w off"
proof -
  obtain seg p where seg: "seg \<in> set (wal_segs w)" "(off, p) \<in> set (seg_log d seg)"
    using assms(2) by (auto simp: wal_log_def)
  have inv: "seg_inv d seg" "sg_id seg < w_nextID w"
    using assms(1) seg(1) by (simp_all add: wal_inv_def)
  have "inj_on sg_id (set (wal_segs w))"
    using assms(1) by (auto simp: wal_inv_def strict_sorted_iff distinct_map)
  moreover have "seg' \<in> set (wal_segs w)" if "w_active w = Some seg'" for seg'
    using that by (simp add: wal_segs_def)
  ultimately show ?thesis
    using seg_log_offset [OF inv(1) seg(2)] seg(1) inv(2) unfolding issued_def by (metis inj_onD)
qed

text \<open>What every operation does to the counters that offsets come from.\<close>

definition wal_grows :: "WAL \<Rightarrow> WAL \<Rightarrow> bool" where
  "wal_grows w w' \<longleftrightarrow> w_nextID w \<le> w_nextID w' \<and> (w_closed w \<longrightarrow> w_closed w') \<and>
     (\<forall>seg'. w_active w' = Some seg' \<longrightarrow> w_nextID w \<le> sg_id seg' \<or>
        (\<exists>seg. w_active w = Some seg \<and> sg_id seg = sg_id seg' \<and> sg_size seg \<le> sg_size seg'))"

lemma wal_grows_refl [simp, intro]: "wal_grows w w"
  by (auto simp: wal_grows_def)

lemma wal_grows_issued: "wal_grows w w' \<Longrightarrow> issued w off \<Longrightarrow> issued w' off"
  unfolding wal_grows_def issued_def by (metis leD order_less_le_trans)

lemma assign_offs_grows: "pos \<le> snd (assign_offs b i ks pos)"
  by (induction b i ks pos rule: assign_offs.induct) (simp_all add: order_trans [OF le_add1])

lemma seal_closed_grows: "wal_grows w (fst (seal_closed os w seg d))"
  by (simp add: seal_closed_def wal_grows_def)

lemma sealActiveLocked_grows:
  assumes "sealActiveLocked os w d = (e, w1, d1)"
  shows "wal_grows w w1" "e = None \<Longrightarrow> w_active w1 = None \<and> w_nextID w1 = w_nextID w \<and> w_closed w1 = w_closed w"
proof -
  have "(w1 = w \<and> (e \<noteq> None \<or> w_active w = None)) \<or> (\<exists>seg d2. (w1, d1) = seal_closed os w seg d2)"
    using assms by (auto simp: sealActiveLocked_def Wrap_def wrap_with_def split: option.splits if_splits prod.splits)
      (metis surj_pair)+
  then have "wal_grows w w1 \<and> (e = None \<longrightarrow> w_active w1 = None \<and> w_nextID w1 = w_nextID w \<and> w_closed w1 = w_closed w)"
    using seal_closed_grows by (auto simp: seal_closed_def split: if_splits) (simp_all add: wal_grows_def)
  then show "wal_grows w w1" "e = None \<Longrightarrow> w_active w1 = None \<and> w_nextID w1 = w_nextID w \<and> w_closed w1 = w_closed w"
    by simp_all
qed

lemma openNewActiveLocked_grows:
  assumes "openNewActiveLocked os w d = (e, w1, d1)" "w_active w = None"
  shows "w_closed w1 = w_closed w" "w_nextID w \<le> w_nextID w1" "\<forall>seg. w_active w1 = Some seg \<longrightarrow> sg_id seg = w_nextID w"
  using assms by (auto simp: openNewActiveLocked_def Let_def split: option.splits prod.splits)

lemma rollbackLocked_id:
  assumes "rollbackLocked os seg n err d = (err1, seg1, d1)"
  shows "sg_id seg1 = sg_id seg \<and> sg_size seg1 = sg_size seg"
  using assms by (auto simp: rollbackLocked_def split: if_splits option.splits prod.splits)

lemma flush_round_grows:
  assumes "flush_round os b i w d = ((b1, i1), w1, d1)"
  shows "wal_grows w w1"
proof (cases "\<exists>seg. w_active w = Some seg \<and> \<not> w_closed w \<and> sg_file seg")
  case False
  then show ?thesis
    using assms by (auto simp: flush_round_def Let_def split: option.splits if_splits)
next
  case True
  then obtain seg where seg: "w_active w = Some seg" "\<not> w_closed w" "sg_file seg"
    by blast
  show ?thesis
  proof (cases "int (sg_size seg + batch_size b i) > wo_maxSegmentBytes (w_opts w) \<and> sg_records seg > 0")
    case True
    obtain e2 w2 d2 where seal: "sealActiveLocked os w d = (e2, w2, d2)"
      by (metis surj_pair)
    obtain e3 w3 d3 where new: "openNewActiveLocked os w2 d2 = (e3, w3, d3)"
      by (metis surj_pair)
    have "w1 = (if e2 = None then w3 else w2)"
      using assms True seg by (auto simp: flush_round_def Let_def seal new split: option.splits)
    then show ?thesis
      using sealActiveLocked_grows [OF seal] openNewActiveLocked_grows [OF new] by (auto simp: wal_grows_def)
  next
    case False
    define j where "j = run_end b (wo_maxSegmentBytes (w_opts w)) i (sg_size seg) (sg_records seg)"
    have "\<exists>seg1. w_active w1 = Some seg1 \<and> sg_id seg1 = sg_id seg \<and> sg_size seg \<le> sg_size seg1 \<and>
        w_nextID w1 = w_nextID w \<and> w_closed w1 = w_closed w"
      using assms assign_offs_grows [of "sg_size seg" b "sg_id seg" "[i..<j]"]
      unfolding flush_round_write [OF seg False j_def, of os d]
      by (auto dest!: rollbackLocked_id split: option.splits prod.splits)
    then show ?thesis
      using seg by (auto simp: wal_grows_def)
  qed
qed

lemma Ack_grows: "wal_grows w (fst (Ack os off w d))"
proof -
  have "w_nextID (fst (ack_sealed os off before ss w d)) = w_nextID w \<and>
      w_active (fst (ack_sealed os off before ss w d)) = w_active w \<and>
      w_closed (fst (ack_sealed os off before ss w d)) = w_closed w" for before ss
    by (induction os off before ss w d rule: ack_sealed.induct) (simp_all add: Let_def)
  then show ?thesis
    by (auto simp: Ack_def wal_grows_def split: option.splits)
qed

lemma drop_acked_id [simp]: "sg_id (drop_acked seg pos nxt) = sg_id seg" "sg_size (drop_acked seg pos nxt) = sg_size seg"
  by (simp_all add: drop_acked_def)

lemma read_pending_loop_id:
  assumes "read_pending_loop os limit skip sz buf wlen wstart pos seg out d = (r, seg1, buf1, d1)"
  shows "sg_id seg1 = sg_id seg \<and> sg_size seg1 = sg_size seg"
  using assms
proof (induction "sz - pos" arbitrary: buf wlen wstart pos seg out d rule: less_induct)
  case less
  show ?case
  proof (cases "pos < sz \<and> int (length out) < limit")
    case True
    have dec: "sz - (pos + recordHeaderSize + n) < sz - pos" for n
      using True by (simp add: recordHeaderSize_def) linarith
    show ?thesis
      using less.prems True less.hyps [OF dec]
      by (subst (asm) read_pending_loop.simps) 
        (auto simp only: if_True Let_def drop_acked_id simp_thms prod.inject split: if_split_asm sum.splits prod.splits)
  next
    case False
    then show ?thesis
      using less.prems by (subst (asm) read_pending_loop.simps) (simp only: if_not_P, simp)
  qed
qed

lemma ReadPending_grows:
  assumes "ReadPending os limit skip w d = (r, w1, d1)"
  shows "wal_grows w w1"
proof -
  have seg: "sg_id seg1 = sg_id seg \<and> sg_size seg1 = sg_size seg"
    if "readPendingSegment os limit skip buf seg out d = (e, seg1, buf1, d1)" for buf seg out d e seg1 buf1 d1
    using that by (auto simp: readPendingSegment_def dest: read_pending_loop_id split: if_splits option.splits prod.splits)
  show ?thesis
    using assms by (auto simp: ReadPending_def Let_def wal_grows_def dest!: seg
        split: if_splits option.splits prod.splits)
qed

lemma fsync_finish_grows:
  assumes "fsync_finish os f w d = (w1, d1)"
  shows "wal_grows w w1"
  using assms by (auto simp: fsync_finish_def wal_grows_def Let_def split: option.splits prod.splits if_splits)

lemma Close_begin_grows:
  assumes "Close_begin os w d = Some (w1, d1)"
  shows "wal_grows w w1" "w_closed w1"
proof -
  obtain w2 d2 where w2: "fsyncOnce os (w\<lparr>w_closing := True\<rparr>) d = (w2, d2)" "w1 = w2\<lparr>w_closed := True\<rparr>"
    using assms by (auto simp: Close_begin_def split: if_splits prod.splits)
  have "wal_grows (w\<lparr>w_closing := True\<rparr>) w2"
    using w2(1) by (auto simp: fsyncOnce_def dest: fsync_finish_grows split: option.splits)
  then show "wal_grows w w1" "w_closed w1"
    by (simp_all add: w2(2) wal_grows_def)
qed

lemma Close_end_grows:
  assumes "Close_end os w d = (e, w1, d1)"
  shows "wal_grows w w1"
  using assms by (auto simp: Close_end_def close_file_def wal_grows_def split: option.splits prod.splits if_splits)

lemma wal_step_grows:
  assumes "wal_step os s ev s'"
  shows "wal_grows (sy_wal s) (sy_wal s')"
  using assms
proof cases
  case (step_ack off w1 d1)
  then show ?thesis
    using Ack_grows [of "sy_wal s" os off "sy_disk s"] by simp
qed (auto dest: flush_round_grows ReadPending_grows fsync_finish_grows Close_begin_grows(1) Close_end_grows)

subsection \<open>Offsets are new\<close>

lemma flush_round_fresh:
  assumes b: "batch_rep b ps" "batch_open b i" "i < length ps" and eq: "flush_round os b i w d = ((b1, i1), w1, d1)"
    and r: "r \<in> set (batch_results b1 i i1)"
  shows "\<not> issued w (fst r)"
proof -
  have len: "batch_len b = length ps"
    using batch_rep_len [OF b(1)] .
  have none: "batch_results (batch_fail b i (length ps) (Some e)) i (length ps) = []" for e
    by (rule batch_results_fail [OF b(1) order_refl])
  have empty: "batch_results b i i = []" for b i
    by (simp add: batch_results_def)
  show ?thesis
  proof (cases "\<exists>seg. w_active w = Some seg \<and> \<not> w_closed w \<and> sg_file seg \<and>
      \<not> (int (sg_size seg + batch_size b i) > wo_maxSegmentBytes (w_opts w) \<and> sg_records seg > 0)")
    case False
    have "batch_results b1 i i1 = []"
      using eq False none
      by (auto simp: flush_round_def Let_def len empty split: option.splits if_splits prod.splits)
    then show ?thesis
      using r by simp
  next
    case True
    then obtain seg where seg: "w_active w = Some seg" "\<not> w_closed w" "sg_file seg"
      "\<not> (int (sg_size seg + batch_size b i) > wo_maxSegmentBytes (w_opts w) \<and> sg_records seg > 0)"
      by blast
    define j where "j = run_end b (wo_maxSegmentBytes (w_opts w)) i (sg_size seg) (sg_records seg)"
    have j: "i \<le> j" "j \<le> length ps"
      using run_end_ge run_end_le [of i b] b(3) len by (auto simp: j_def)
    have fail: "batch_results (batch_fail b i j (Some e)) i j = []" for e
      by (rule batch_results_fail [OF b(1) j(2)])
    have roll: "\<exists>e1. err = Some e1" if "rollbackLocked os seg n (Some e) d = (err, seg1, d1)" for n e d err seg1 d1
      using that by (auto simp: rollbackLocked_def Wrap_def Wrapf_def wrap_with_def split: if_splits option.splits prod.splits)
    have "\<exists>pos. assign_offs b (sg_id seg) [i..<j] (sg_size seg) = (b1, pos) \<and> i1 = j"
    proof (rule ccontr)
      assume "\<not> ?thesis"
      then have "\<exists>e. b1 = batch_fail b i j (Some e) \<and> i1 = j"
        using eq unfolding flush_round_write [OF seg j_def, of os d] by (auto dest!: roll split: option.splits prod.splits)
      then show False
        using r fail by auto
    qed
    then obtain pos where "assign_offs b (sg_id seg) [i..<j] (sg_size seg) = (b1, pos)" "i1 = j"
      by blast
    then have "batch_results b1 i i1 = with_offsets (sg_id seg) (place (sg_size seg) (take (j - i) (drop i ps)))"
      using batch_results_published [OF b(1,2) j] by simp
    then have "of_SegmentID (fst r) = sg_id seg" "sg_size seg \<le> of_Position (fst r)"
      using r place_positions by (fastforce simp: with_offsets_def)+
    then show ?thesis
      using seg(1) by (auto simp: issued_def)
  qed
qed

lemma wal_step_fresh:
  assumes "wal_step os s (Published rs) s'" "sys_inv s" "r \<in> set rs"
  shows "\<not> issued (sy_wal s) (fst r)"
  using assms(1)
proof cases
  case (step_round b i b1 i1 w1 d1)
  then obtain ps where b: "batch_rep b ps" "batch_open b i"
    using assms(2) by (auto simp: sys_inv_def)
  moreover have "i < length ps"
    using step_round batch_rep_len [OF b(1)] by simp
  ultimately show ?thesis
    using flush_round_fresh [of b ps i os "sy_wal s" "sy_disk s" b1 i1 w1 d1 r] step_round assms(3) by simp
qed (auto split: if_splits)

end
