(* ===== verification/DispatchModel.thy ===== *)
theory DispatchModel
  imports WalOffsets Retry
begin

text \<open>
  The dispatch engine of \<^verbatim>\<open>src/service/dispatch\<close>: producers hand items to the engine, which keeps
  them in a buffered channel or in a write-ahead log, and workers deliver them to a sink in batches.

  Producers, workers and the call of \<^verbatim>\<open>Shutdown\<close> run at the same time. Each is a place in its code,
  kept in the state, and a step of the relation \<open>dispatch_step\<close> is what one of them does between two
  points where others can interfere: the locks, the channel operations, the atomic flags and the calls
  of the log. The sink is the environment: a step chooses whether a batch is stored or what error comes
  back. The codec is a pair of functions. Metrics, logging and the deadline of the context that the sink
  receives are left out.
\<close>

subsection \<open>Options\<close>

record 't codec =
  cd_Encode :: "'t \<Rightarrow> goerr + bytes"
  cd_Decode :: "bytes \<Rightarrow> goerr + 't"

text \<open>
  \<open>do_onDrop\<close> says that a drop handler is set. The jitter fraction enters with the random share of the
  environment, and \<open>do_walOpts\<close> are the resolved options of the log.
\<close>

record 't dispatch_options =
  do_bufferSize :: int
  do_batchSize :: int
  do_flushInterval :: duration
  do_workers :: int
  do_retryAttempts :: int
  do_retryBackoff :: duration
  do_retryMaxBackoff :: duration
  do_storeTimeout :: duration
  do_backPressure :: bool
  do_onDrop :: bool
  do_walEnabled :: bool
  do_walDir :: string
  do_walOpts :: wal_options
  do_codec :: "'t codec option"

definition DefaultRetryBackoff :: duration where
  "DefaultRetryBackoff = 100 * 10 ^ 6"

definition dispatch_defaultOptions :: "wal_options \<Rightarrow> 't dispatch_options" where
  "dispatch_defaultOptions wopts =
     \<lparr> do_bufferSize = 10000, do_batchSize = 100, do_flushInterval = 10 ^ 9, do_workers = 2, do_retryAttempts = 3,
       do_retryBackoff = DefaultRetryBackoff, do_retryMaxBackoff = 30 * 10 ^ 9, do_storeTimeout = 30 * 10 ^ 9,
       do_backPressure = False, do_onDrop = False, do_walEnabled = False, do_walDir = '''', do_walOpts = wopts,
       do_codec = None \<rparr>"

datatype 't dispatch_option =
    WithBackPressure
  | WithBatchSize int
  | WithBufferSize int
  | WithFlushInterval duration
  | WithOnDrop bool
  | WithRetryAttempts int
  | WithRetryBackoff duration
  | WithRetryMaxBackoff duration
  | WithStoreTimeout duration
  | WithWorkers int
  | WithWAL string "'t codec option" wal_options

fun apply_option :: "'t dispatch_option \<Rightarrow> 't dispatch_options \<Rightarrow> 't dispatch_options" where
  "apply_option WithBackPressure o' = o'\<lparr>do_backPressure := True\<rparr>"
| "apply_option (WithBatchSize v) o' = (if v \<le> 0 then o' else o'\<lparr>do_batchSize := v\<rparr>)"
| "apply_option (WithBufferSize v) o' = (if v \<le> 0 then o' else o'\<lparr>do_bufferSize := v\<rparr>)"
| "apply_option (WithFlushInterval v) o' = (if v \<le> 0 then o' else o'\<lparr>do_flushInterval := v\<rparr>)"
| "apply_option (WithOnDrop v) o' = o'\<lparr>do_onDrop := v\<rparr>"
| "apply_option (WithRetryAttempts v) o' = (if v < 0 then o' else o'\<lparr>do_retryAttempts := v\<rparr>)"
| "apply_option (WithRetryBackoff v) o' = (if v \<le> 0 then o' else o'\<lparr>do_retryBackoff := v\<rparr>)"
| "apply_option (WithRetryMaxBackoff v) o' = (if v \<le> 0 then o' else o'\<lparr>do_retryMaxBackoff := v\<rparr>)"
| "apply_option (WithStoreTimeout v) o' = (if v \<le> 0 then o' else o'\<lparr>do_storeTimeout := v\<rparr>)"
| "apply_option (WithWorkers v) o' = (if v \<le> 0 then o' else o'\<lparr>do_workers := v\<rparr>)"
| "apply_option (WithWAL dir codec wopts) o' =
     (if codec = None \<or> dir = '''' then o'
      else o'\<lparr>do_walEnabled := True, do_walDir := dir, do_walOpts := wopts, do_codec := codec\<rparr>)"

definition dispatch_newOptions :: "wal_options \<Rightarrow> 't dispatch_option list \<Rightarrow> 't dispatch_options" where
  "dispatch_newOptions wopts opts = foldl (\<lambda>o' f. apply_option f o') (dispatch_defaultOptions wopts) opts"

subsection \<open>The engine\<close>

definition ErrEngineClosed :: goerr where
  "ErrEngineClosed = Sentinel ''dispatch.ErrEngineClosed'' ''dispatch: engine closed'' []"

definition ErrAlreadyStarted :: goerr where
  "ErrAlreadyStarted = Sentinel ''dispatch.ErrAlreadyStarted'' ''dispatch: already started'' []"

definition ErrCodecRequired :: goerr where
  "ErrCodecRequired = Sentinel ''dispatch.ErrCodecRequired'' ''dispatch: codec required when WAL enabled'' []"

definition ErrSinkRequired :: goerr where
  "ErrSinkRequired = Sentinel ''dispatch.ErrSinkRequired'' ''dispatch: sink required'' []"

definition ErrQueueFull :: goerr where
  "ErrQueueFull = Sentinel ''dispatch.ErrQueueFull'' ''dispatch: queue full'' []"

definition ErrBacklog :: goerr where
  "ErrBacklog = Sentinel ''dispatch.ErrBacklog'' ''dispatch: undelivered backlog'' []"

definition ErrReplayDecode :: goerr where
  "ErrReplayDecode = Sentinel ''dispatch.ErrReplayDecode'' ''dispatch: replay decode failed'' []"

datatype Submission = Rejected | Queued | Logged

type_synonym 't envelope = "Offset \<times> 't"

text \<open>
  A producer in \<^verbatim>\<open>Enqueue\<close>, which holds the read lock of \<^verbatim>\<open>submitMu\<close>: past the checks, in the
  accumulating batch of the log, in the batch that is written, and back from the log with its result.
\<close>

datatype 't producer =
    Entered 't
  | InCur nat 't
  | InWrite nat 't
  | Written Offset "goerr option" 't

text \<open>
  A worker. \<open>Claim\<close>, \<open>Idle\<close> and \<open>Acking\<close> are places of \<^verbatim>\<open>durableWorker\<close>, \<open>Gather\<close> is the loop of
  \<^verbatim>\<open>worker\<close> with its batch (\<open>True\<close>: the draining loop), \<open>Storing\<close> and \<open>Pausing\<close> are places of
  \<^verbatim>\<open>storeBatch\<close> with the batch, the number of the attempt and where its caller goes on.
  \<open>Acking offs rem\<close> has stored the records at \<open>offs\<close> and has \<open>rem\<close> to acknowledge; a worker that has
  returned keeps the offsets it never released.
\<close>

datatype resume = ToClaim | ToGather bool | ToExit

datatype 't dworker =
    Claim
  | Idle
  | Gather "'t envelope list" bool
  | Storing resume "'t envelope list" int
  | Pausing resume "'t envelope list" int duration
  | Acking "Offset list" "Offset list"
  | Exited "Offset list"

text \<open>The call of \<^verbatim>\<open>Shutdown\<close> that won, with the errors it has collected.\<close>

datatype shutdown =
    Running
  | Locking
  | Waiting
  | Counting "goerr list"
  | ClosingLog "goerr list"
  | ClosedLog "goerr list"
  | Finishing "goerr list"
  | Down

record ('t, 'x) Engine =
  e_opts :: "'t dispatch_options"
  e_log :: "'x walsys option"
  e_submitted :: "'t envelope list"
  e_done :: bool
  e_drainDone :: bool
  e_canceled :: bool
  e_started :: bool
  e_ready :: bool
  e_closed :: bool
  e_dropped :: int
  e_wake :: nat
  e_inFlight :: "Offset set"
  e_lastError :: "goerr option"
  e_workers :: "'t dworker list"
  e_producers :: "'t producer list"
  e_shutdown :: shutdown
  e_disk :: "'x disk"

text \<open>
  What happens outside: the records \<^verbatim>\<open>Start\<close> read from the log and those written to it, the results
  of \<^verbatim>\<open>Enqueue\<close>, the calls of the drop handler, the batches stored and those given up, and the result
  of \<^verbatim>\<open>Shutdown\<close>.
\<close>

datatype 't dispatch_event =
    Recovered "wal_record list"
  | Wrote "wal_record list"
  | Accepted Submission Offset 't
  | Refused goerr 't
  | OnDrop 't
  | Stored "'t envelope list"
  | GaveUp "'t envelope list"
  | Returned "goerr option"

record 'x dispatch_env =
  dv_os :: "'x os"
  dv_windows :: bool
  dv_scaled :: "int \<Rightarrow> int option"
  dv_jitter :: "(int \<Rightarrow> int) option"

text \<open>\<open>sink\<close> says that the sink is not nil; \<open>d\<close> is the directory of the log.\<close>

definition NewEngine :: "bool \<Rightarrow> 't dispatch_options \<Rightarrow> 'x disk \<Rightarrow> goerr + ('t, 'x) Engine" where
  "NewEngine sink opts d =
     (if \<not> sink then Inl ErrSinkRequired
      else if do_walEnabled opts \<and> do_codec opts = None then Inl ErrCodecRequired
      else Inr \<lparr> e_opts = opts, e_log = None, e_submitted = [], e_done = False, e_drainDone = False,
                 e_canceled = False, e_started = False, e_ready = False, e_closed = False, e_dropped = 0,
                 e_wake = 0, e_inFlight = {}, e_lastError = None, e_workers = [], e_producers = [],
                 e_shutdown = Running, e_disk = d \<rparr>)"

definition engine_codec :: "('t, 'x) Engine \<Rightarrow> 't codec" where
  "engine_codec e = the (do_codec (e_opts e))"

text \<open>\<^verbatim>\<open>fmt.Errorf("%w: %w", ErrReplayDecode, err)\<close>\<close>

definition replay_error :: "goerr \<Rightarrow> goerr" where
  "replay_error err = Errorf (err_text ErrReplayDecode @ '': '' @ err_text err) [ErrReplayDecode, err]"

fun decode_records :: "'t codec \<Rightarrow> wal_record list \<Rightarrow> goerr + 't envelope list" where
  "decode_records c [] = Inr []"
| "decode_records c ((off, p) # rs) =
     (case cd_Decode c p of
        Inl err \<Rightarrow> Inl (replay_error err)
      | Inr item \<Rightarrow>
          (case decode_records c rs of Inl err \<Rightarrow> Inl err | Inr items \<Rightarrow> Inr ((off, item) # items)))"

text \<open>\<^verbatim>\<open>WAL.Close\<close> when no commit is in flight.\<close>

definition wal_Close :: "'x os \<Rightarrow> WAL \<Rightarrow> 'x disk \<Rightarrow> goerr option \<times> WAL \<times> 'x disk" where
  "wal_Close os w d =
     (case Close_begin os w d of None \<Rightarrow> (None, w, d) | Some (w1, d1) \<Rightarrow> Close_end os w1 d1)"

definition new_walsys :: "WAL \<Rightarrow> 'x disk \<Rightarrow> 'x walsys" where
  "new_walsys w d = \<lparr> sy_wal = w, sy_disk = d, sy_cur = getAppendBatch, sy_flight = None \<rparr>"

definition spawn_workers :: "'t dworker \<Rightarrow> ('t, 'x) Engine \<Rightarrow> ('t, 'x) Engine" where
  "spawn_workers wk e = e\<lparr>e_workers := replicate (nat (do_workers (e_opts e))) wk, e_ready := True\<rparr>"

text \<open>
  \<^verbatim>\<open>Start\<close> runs under \<^verbatim>\<open>lifecycleMu\<close>, and nothing else looks at the engine before \<^verbatim>\<open>ready\<close> is set: it
  is one step. It gives its error and the records it read.
\<close>

definition Engine_Start :: "'x dispatch_env \<Rightarrow> ('t, 'x) Engine \<Rightarrow> (goerr option \<times> wal_record list) \<times> ('t, 'x) Engine" where
  "Engine_Start V e =
     (if e_closed e then ((Some ErrEngineClosed, []), e)
      else if e_started e then ((Some ErrAlreadyStarted, []), e)
      else let e0 = e\<lparr>e_started := True\<rparr>
      in if \<not> do_walEnabled (e_opts e) then ((None, []), spawn_workers (Gather [] False) e0)
      else case Open (dv_os V) (dv_windows V) (do_walDir (e_opts e)) (do_walOpts (e_opts e)) (e_disk e) of
        (Inl err, d1) \<Rightarrow> ((Some err, []), e0\<lparr>e_disk := d1\<rparr>)
      | (Inr (w, recovered), d1) \<Rightarrow>
          (case decode_records (engine_codec e) recovered of
             Inl err \<Rightarrow>
               (case wal_Close (dv_os V) w d1 of
                  (cerr, w2, d2) \<Rightarrow>
                    ((errors_Join [Some err, cerr], recovered), e0\<lparr>e_log := Some (new_walsys w2 d2)\<rparr>))
           | Inr items \<Rightarrow> ((None, recovered), spawn_workers Claim (e0\<lparr>e_log := Some (new_walsys w d1)\<rparr>))))"

subsection \<open>Producers\<close>

definition notifyWorker :: "('t, 'x) Engine \<Rightarrow> ('t, 'x) Engine" where
  "notifyWorker e = (if int (e_wake e) < do_workers (e_opts e) then e\<lparr>e_wake := e_wake e + 1\<rparr> else e)"

definition dropItem :: "'t \<Rightarrow> ('t, 'x) Engine \<Rightarrow> 't dispatch_event list \<times> ('t, 'x) Engine" where
  "dropItem item e =
     (if do_onDrop (e_opts e) then [OnDrop item] else [], e\<lparr>e_dropped := e_dropped e + 1\<rparr>)"

definition remove_nth :: "nat \<Rightarrow> 'a list \<Rightarrow> 'a list" where
  "remove_nth k xs = take k xs @ drop (Suc k) xs"

text \<open>A call that drops its item and returns.\<close>

definition refuse :: "goerr \<Rightarrow> nat \<Rightarrow> 't \<Rightarrow> ('t, 'x) Engine \<Rightarrow> 't dispatch_event list \<times> ('t, 'x) Engine" where
  "refuse err k item e =
     (case dropItem item (e\<lparr>e_producers := remove_nth k (e_producers e)\<rparr>) of
        (evs, e1) \<Rightarrow> (evs @ [Refused err item], e1))"

text \<open>\<^verbatim>\<open>Enqueue\<close> up to the check under the read lock.\<close>

definition Enqueue_enter :: "'t \<Rightarrow> ('t, 'x) Engine \<Rightarrow> 't dispatch_event list \<times> ('t, 'x) Engine" where
  "Enqueue_enter item e =
     (if \<not> e_ready e \<or> e_closed e then ([Refused ErrEngineClosed item], e)
      else ([], e\<lparr>e_producers := e_producers e @ [Entered item]\<rparr>))"

text \<open>From there with a log, up to the wait for the batch.\<close>

definition Enqueue_append :: "nat \<Rightarrow> 't \<Rightarrow> 'x walsys \<Rightarrow> ('t, 'x) Engine \<Rightarrow> 't dispatch_event list \<times> ('t, 'x) Engine" where
  "Enqueue_append k item sy e =
     (case cd_Encode (engine_codec e) item of
        Inl err \<Rightarrow> refuse err k item e
      | Inr payload \<Rightarrow>
          (case Append_begin (sy_wal sy) payload (sy_cur sy) of
             Inl err \<Rightarrow> refuse err k item e
           | Inr (cur, idx) \<Rightarrow>
               ([], e\<lparr>e_log := Some (sy\<lparr>sy_cur := cur\<rparr>), e_producers := (e_producers e)[k := InCur idx item]\<rparr>)))"

text \<open>And from the result of \<^verbatim>\<open>Append\<close> on.\<close>

definition Enqueue_return ::
  "nat \<Rightarrow> Offset \<Rightarrow> goerr option \<Rightarrow> 't \<Rightarrow> ('t, 'x) Engine \<Rightarrow> 't dispatch_event list \<times> ('t, 'x) Engine" where
  "Enqueue_return k off err item e =
     (case err of
        Some er \<Rightarrow> refuse er k item e
      | None \<Rightarrow> ([Accepted Logged off item], notifyWorker (e\<lparr>e_producers := remove_nth k (e_producers e)\<rparr>)))"

text \<open>Without a log: the item goes into the channel when there is room.\<close>

definition queue_room :: "('t, 'x) Engine \<Rightarrow> bool" where
  "queue_room e \<longleftrightarrow> int (length (e_submitted e)) < do_bufferSize (e_opts e)"

definition Enqueue_send :: "nat \<Rightarrow> 't \<Rightarrow> ('t, 'x) Engine \<Rightarrow> 't dispatch_event list \<times> ('t, 'x) Engine" where
  "Enqueue_send k item e =
     ([Accepted Queued zero_Offset item],
      e\<lparr>e_submitted := e_submitted e @ [(zero_Offset, item)], e_producers := remove_nth k (e_producers e)\<rparr>)"

subsection \<open>The log\<close>

text \<open>A leader takes the accumulating batch, and its callers wait for it.\<close>

fun led :: "'t producer \<Rightarrow> 't producer" where
  "led (InCur idx item) = InWrite idx item"
| "led p = p"

definition lead_batch :: "'x walsys \<Rightarrow> ('t, 'x) Engine \<Rightarrow> ('t, 'x) Engine" where
  "lead_batch sy e =
     e\<lparr>e_log := Some (sy\<lparr>sy_cur := getAppendBatch, sy_flight := Some (sy_cur sy, 0)\<rparr>),
       e_producers := map led (e_producers e)\<rparr>"

fun with_result :: "appendBatch \<Rightarrow> 't producer \<Rightarrow> 't producer" where
  "with_result b (InWrite idx item) = (case Append_result b idx of (off, err) \<Rightarrow> Written off err item)"
| "with_result b p = p"

definition finish_batch :: "appendBatch \<Rightarrow> 'x walsys \<Rightarrow> ('t, 'x) Engine \<Rightarrow> ('t, 'x) Engine" where
  "finish_batch b sy e =
     e\<lparr>e_log := Some (sy\<lparr>sy_flight := None\<rparr>), e_producers := map (with_result b) (e_producers e)\<rparr>"

subsection \<open>Delivery\<close>

definition put_worker :: "nat \<Rightarrow> 't dworker \<Rightarrow> ('t, 'x) Engine \<Rightarrow> ('t, 'x) Engine" where
  "put_worker k wk e = e\<lparr>e_workers := (e_workers e)[k := wk]\<rparr>"

text \<open>\<^verbatim>\<open>claimBatch\<close> runs under \<^verbatim>\<open>claimMu\<close> and the lock of the log.\<close>

definition claimBatch :: "'x os \<Rightarrow> 'x walsys \<Rightarrow> ('t, 'x) Engine \<Rightarrow> (goerr + wal_record list) \<times> ('t, 'x) Engine" where
  "claimBatch os sy e =
     (case ReadPending os (do_batchSize (e_opts e)) (Some (\<lambda>off. off \<in> e_inFlight e)) (sy_wal sy) (sy_disk sy) of
        (r, w1, d1) \<Rightarrow>
          (let e1 = e\<lparr>e_log := Some (sy\<lparr>sy_wal := w1, sy_disk := d1\<rparr>)\<rparr>
           in case r of
                Inl err \<Rightarrow> (Inl err, e1)
              | Inr records \<Rightarrow> (Inr records, e1\<lparr>e_inFlight := e_inFlight e \<union> fst ` set records\<rparr>)))"

text \<open>The loop of \<^verbatim>\<open>durableWorker\<close> up to the call of \<^verbatim>\<open>storeBatch\<close>.\<close>

definition durable_claim :: "'x os \<Rightarrow> nat \<Rightarrow> 'x walsys \<Rightarrow> ('t, 'x) Engine \<Rightarrow> ('t, 'x) Engine" where
  "durable_claim os k sy e =
     (case claimBatch os sy e of
        (Inl err, e1) \<Rightarrow> put_worker k (Exited []) (e1\<lparr>e_lastError := Some err\<rparr>)
      | (Inr [], e1) \<Rightarrow> put_worker k Idle e1
      | (Inr records, e1) \<Rightarrow>
          (case decode_records (engine_codec e) records of
             Inl err \<Rightarrow> put_worker k (Exited (map fst records)) (e1\<lparr>e_lastError := Some err\<rparr>)
           | Inr items \<Rightarrow> put_worker k (Storing ToClaim items 0) e1))"

text \<open>Where a worker goes on after \<^verbatim>\<open>storeBatch\<close>: without an error, and with one.\<close>

fun resumed :: "resume \<Rightarrow> Offset list \<Rightarrow> 't dworker" where
  "resumed ToClaim offs = Exited offs"
| "resumed (ToGather draining) offs = Gather [] draining"
| "resumed ToExit offs = Exited []"

definition batch_stored :: "nat \<Rightarrow> resume \<Rightarrow> 't envelope list \<Rightarrow> ('t, 'x) Engine \<Rightarrow> ('t, 'x) Engine" where
  "batch_stored k next recs e =
     (if e_log e \<noteq> None then put_worker k (Acking (map fst recs) (map fst recs)) e
      else put_worker k (resumed next []) e)"

text \<open>The wait before the next attempt; \<open>30\<close> caps the exponent.\<close>

definition store_backoff :: "'x dispatch_env \<Rightarrow> 't dispatch_options \<Rightarrow> int \<Rightarrow> duration" where
  "store_backoff V opts attempt =
     (let backoff = Exponential \<lparr> ec_BaseDelay = do_retryBackoff opts, ec_MaxDelay = do_retryMaxBackoff opts \<rparr>
                      (dv_scaled V) (dv_jitter V) (min attempt 30)
      in if backoff \<le> 0 then DefaultRetryBackoff else backoff)"

definition store_gives_up :: "int \<Rightarrow> ('t, 'x) Engine \<Rightarrow> bool" where
  "store_gives_up attempt e \<longleftrightarrow>
     e_canceled e \<or> ((e_log e = None \<or> e_closed e) \<and> attempt \<ge> do_retryAttempts (e_opts e))"

definition batch_failed ::
  "'x dispatch_env \<Rightarrow> nat \<Rightarrow> resume \<Rightarrow> 't envelope list \<Rightarrow> int \<Rightarrow> goerr \<Rightarrow> ('t, 'x) Engine
     \<Rightarrow> 't dispatch_event list \<times> ('t, 'x) Engine" where
  "batch_failed V k next recs attempt err e =
     (if store_gives_up attempt e
      then ([GaveUp recs], put_worker k (resumed next (map fst recs)) (e\<lparr>e_lastError := Some err\<rparr>))
      else ([], put_worker k (Pausing next recs attempt (store_backoff V (e_opts e) attempt)) e))"

definition ack_record :: "'x os \<Rightarrow> Offset \<Rightarrow> 'x walsys \<Rightarrow> 'x walsys" where
  "ack_record os off sy =
     (case Ack os off (sy_wal sy) (sy_disk sy) of (w1, d1) \<Rightarrow> sy\<lparr>sy_wal := w1, sy_disk := d1\<rparr>)"

text \<open>The end of a round of \<^verbatim>\<open>durableWorker\<close>.\<close>

definition release_claims :: "nat \<Rightarrow> Offset list \<Rightarrow> ('t, 'x) Engine \<Rightarrow> ('t, 'x) Engine" where
  "release_claims k offs e = notifyWorker (put_worker k Claim (e\<lparr>e_inFlight := e_inFlight e - set offs\<rparr>))"

text \<open>\<^verbatim>\<open>worker\<close>: receiving an item, and the closure \<^verbatim>\<open>flush\<close>.\<close>

definition flush_batch :: "nat \<Rightarrow> resume \<Rightarrow> 't envelope list \<Rightarrow> ('t, 'x) Engine \<Rightarrow> ('t, 'x) Engine" where
  "flush_batch k next recs e =
     (if recs = [] then put_worker k (resumed next []) e else put_worker k (Storing next recs 0) e)"

definition receive_item :: "nat \<Rightarrow> 't envelope list \<Rightarrow> bool \<Rightarrow> ('t, 'x) Engine \<Rightarrow> ('t, 'x) Engine" where
  "receive_item k recs draining e =
     (let recs1 = recs @ [hd (e_submitted e)]; e1 = e\<lparr>e_submitted := tl (e_submitted e)\<rparr>
      in if int (length recs1) \<ge> do_batchSize (e_opts e) then flush_batch k (ToGather draining) recs1 e1
         else put_worker k (Gather recs1 draining) e1)"

subsection \<open>Shutdown\<close>

definition shutdown_begin :: "('t, 'x) Engine \<Rightarrow> ('t, 'x) Engine" where
  "shutdown_begin e = (if e_closed e then e else e\<lparr>e_closed := True, e_done := True, e_shutdown := Locking\<rparr>)"

definition backlog_error :: "int \<Rightarrow> goerr" where
  "backlog_error pending = Errorf (err_text ErrBacklog @ '': '' @ Itoa pending @ '' records'') [ErrBacklog]"

definition shutdown_count :: "goerr list \<Rightarrow> ('t, 'x) Engine \<Rightarrow> ('t, 'x) Engine" where
  "shutdown_count errs e =
     (case e_log e of
        None \<Rightarrow> e\<lparr>e_canceled := True, e_shutdown := Finishing errs\<rparr>
      | Some sy \<Rightarrow>
          (let pending = st_Pending (Stats (sy_wal sy))
           in e\<lparr>e_canceled := True,
                e_shutdown := ClosingLog (if pending > 0 then errs @ [backlog_error pending] else errs)\<rparr>))"

definition shutdown_close :: "'x os \<Rightarrow> goerr list \<Rightarrow> 'x walsys \<Rightarrow> ('t, 'x) Engine \<Rightarrow> ('t, 'x) Engine" where
  "shutdown_close os errs sy e =
     (case Close_begin os (sy_wal sy) (sy_disk sy) of
        None \<Rightarrow> e\<lparr>e_shutdown := Finishing errs\<rparr>
      | Some (w1, d1) \<Rightarrow> e\<lparr>e_log := Some (sy\<lparr>sy_wal := w1, sy_disk := d1\<rparr>), e_shutdown := ClosedLog errs\<rparr>)"

definition shutdown_closed :: "'x os \<Rightarrow> goerr list \<Rightarrow> 'x walsys \<Rightarrow> ('t, 'x) Engine \<Rightarrow> ('t, 'x) Engine" where
  "shutdown_closed os errs sy e =
     (case Close_end os (sy_wal sy) (sy_disk sy) of
        (err, w1, d1) \<Rightarrow>
          e\<lparr>e_log := Some (sy\<lparr>sy_wal := w1, sy_disk := d1\<rparr>),
            e_shutdown := Finishing (case err of None \<Rightarrow> errs | Some er \<Rightarrow> errs @ [er])\<rparr>)"

definition shutdown_result :: "goerr list \<Rightarrow> ('t, 'x) Engine \<Rightarrow> goerr option" where
  "shutdown_result errs e =
     errors_Join (map Some (case e_lastError e of None \<Rightarrow> errs | Some er \<Rightarrow> errs @ [er]))"

fun is_exited :: "'t dworker \<Rightarrow> bool" where
  "is_exited (Exited offs) = True"
| "is_exited wk = False"

subsection \<open>Steps\<close>

inductive dispatch_step ::
  "'x dispatch_env \<Rightarrow> ('t, 'x) Engine \<Rightarrow> 't dispatch_event list \<Rightarrow> ('t, 'x) Engine \<Rightarrow> bool" for V where
  d_start: "Engine_Start V e = ((err, recs), e1) \<Longrightarrow> dispatch_step V e [Recovered recs] e1"
| d_enter: "Enqueue_enter item e = (evs, e1) \<Longrightarrow> dispatch_step V e evs e1"
| d_append: "k < length (e_producers e) \<Longrightarrow> e_producers e ! k = Entered item \<Longrightarrow> e_log e = Some sy \<Longrightarrow>
    Enqueue_append k item sy e = (evs, e1) \<Longrightarrow> dispatch_step V e evs e1"
| d_lead: "e_log e = Some sy \<Longrightarrow> sy_flight sy = None \<Longrightarrow> dispatch_step V e [] (lead_batch sy e)"
| d_round: "e_log e = Some sy \<Longrightarrow> sy_flight sy = Some (b, i) \<Longrightarrow> i < batch_len b \<Longrightarrow>
    flush_round (dv_os V) b i (sy_wal sy) (sy_disk sy) = ((b1, i1), w1, d1) \<Longrightarrow>
    dispatch_step V e [Wrote (batch_results b1 i i1)]
      (e\<lparr>e_log := Some (sy\<lparr>sy_wal := w1, sy_disk := d1, sy_flight := Some (b1, i1)\<rparr>)\<rparr>)"
| d_finish: "e_log e = Some sy \<Longrightarrow> sy_flight sy = Some (b, i) \<Longrightarrow> \<not> i < batch_len b \<Longrightarrow>
    dispatch_step V e [] (finish_batch b sy e)"
| d_return: "k < length (e_producers e) \<Longrightarrow> e_producers e ! k = Written off err item \<Longrightarrow>
    Enqueue_return k off err item e = (evs, e1) \<Longrightarrow> dispatch_step V e evs e1"
| d_send: "k < length (e_producers e) \<Longrightarrow> e_producers e ! k = Entered item \<Longrightarrow> e_log e = None \<Longrightarrow>
    queue_room e \<Longrightarrow> Enqueue_send k item e = (evs, e1) \<Longrightarrow> dispatch_step V e evs e1"
| d_full: "k < length (e_producers e) \<Longrightarrow> e_producers e ! k = Entered item \<Longrightarrow> e_log e = None \<Longrightarrow>
    \<not> do_backPressure (e_opts e) \<Longrightarrow> \<not> queue_room e \<Longrightarrow> refuse ErrQueueFull k item e = (evs, e1) \<Longrightarrow> dispatch_step V e evs e1"
| d_abort: "k < length (e_producers e) \<Longrightarrow> e_producers e ! k = Entered item \<Longrightarrow> e_log e = None \<Longrightarrow>
    do_backPressure (e_opts e) \<Longrightarrow> e_done e \<Longrightarrow>
    dispatch_step V e [Refused ErrEngineClosed item] (e\<lparr>e_producers := remove_nth k (e_producers e)\<rparr>)"
| d_fsync: "e_log e = Some sy \<Longrightarrow> fsync_finish (dv_os V) f (sy_wal sy) (sy_disk sy) = (w1, d1) \<Longrightarrow>
    dispatch_step V e [] (e\<lparr>e_log := Some (sy\<lparr>sy_wal := w1, sy_disk := d1\<rparr>)\<rparr>)"
| d_claim: "k < length (e_workers e) \<Longrightarrow> e_workers e ! k = Claim \<Longrightarrow> e_log e = Some sy \<Longrightarrow>
    dispatch_step V e [] (durable_claim (dv_os V) k sy e)"
| d_wake: "k < length (e_workers e) \<Longrightarrow> e_workers e ! k = Idle \<Longrightarrow> 0 < e_wake e \<Longrightarrow>
    dispatch_step V e [] (put_worker k Claim (e\<lparr>e_wake := e_wake e - 1\<rparr>))"
| d_tick: "k < length (e_workers e) \<Longrightarrow> e_workers e ! k = Idle \<Longrightarrow> dispatch_step V e [] (put_worker k Claim e)"
| d_drained: "k < length (e_workers e) \<Longrightarrow> e_workers e ! k = Idle \<Longrightarrow> e_drainDone e \<Longrightarrow>
    dispatch_step V e [] (put_worker k (Exited []) e)"
| d_stored: "k < length (e_workers e) \<Longrightarrow> e_workers e ! k = Storing next recs attempt \<Longrightarrow>
    dispatch_step V e [Stored recs] (batch_stored k next recs e)"
| d_failed: "k < length (e_workers e) \<Longrightarrow> e_workers e ! k = Storing next recs attempt \<Longrightarrow>
    batch_failed V k next recs attempt err e = (evs, e1) \<Longrightarrow> dispatch_step V e evs e1"
| d_resume: "k < length (e_workers e) \<Longrightarrow> e_workers e ! k = Pausing next recs attempt delay \<Longrightarrow>
    dispatch_step V e [] (put_worker k (Storing next recs (attempt + 1)) e)"
| d_ack: "k < length (e_workers e) \<Longrightarrow> e_workers e ! k = Acking offs (off # rem) \<Longrightarrow> e_log e = Some sy \<Longrightarrow>
    dispatch_step V e [] (put_worker k (Acking offs rem) (e\<lparr>e_log := Some (ack_record (dv_os V) off sy)\<rparr>))"
| d_release: "k < length (e_workers e) \<Longrightarrow> e_workers e ! k = Acking offs [] \<Longrightarrow>
    dispatch_step V e [] (release_claims k offs e)"
| d_receive: "k < length (e_workers e) \<Longrightarrow> e_workers e ! k = Gather recs draining \<Longrightarrow> e_submitted e \<noteq> [] \<Longrightarrow>
    dispatch_step V e [] (receive_item k recs draining e)"
| d_flush: "k < length (e_workers e) \<Longrightarrow> e_workers e ! k = Gather recs False \<Longrightarrow>
    dispatch_step V e [] (flush_batch k (ToGather False) recs e)"
| d_drain: "k < length (e_workers e) \<Longrightarrow> e_workers e ! k = Gather recs False \<Longrightarrow> e_drainDone e \<Longrightarrow>
    dispatch_step V e [] (put_worker k (Gather recs True) e)"
| d_empty: "k < length (e_workers e) \<Longrightarrow> e_workers e ! k = Gather recs True \<Longrightarrow> e_submitted e = [] \<Longrightarrow>
    dispatch_step V e [] (flush_batch k ToExit recs e)"
| d_shutdown: "dispatch_step V e [] (shutdown_begin e)"
| d_locked: "e_shutdown e = Locking \<Longrightarrow> e_producers e = [] \<Longrightarrow>
    dispatch_step V e [] (e\<lparr>e_drainDone := True, e_shutdown := Waiting\<rparr>)"
| d_finished: "e_shutdown e = Waiting \<Longrightarrow> list_all is_exited (e_workers e) \<Longrightarrow>
    dispatch_step V e [] (e\<lparr>e_shutdown := Counting []\<rparr>)"
| d_expired: "e_shutdown e = Waiting \<Longrightarrow>
    dispatch_step V e [] (e\<lparr>e_canceled := True, e_shutdown := Counting [err]\<rparr>)"
| d_count: "e_shutdown e = Counting errs \<Longrightarrow> dispatch_step V e [] (shutdown_count errs e)"
| d_close: "e_shutdown e = ClosingLog errs \<Longrightarrow> e_log e = Some sy \<Longrightarrow>
    dispatch_step V e [] (shutdown_close (dv_os V) errs sy e)"
| d_closed: "e_shutdown e = ClosedLog errs \<Longrightarrow> e_log e = Some sy \<Longrightarrow> sy_flight sy = None \<Longrightarrow>
    dispatch_step V e [] (shutdown_closed (dv_os V) errs sy e)"
| d_result: "e_shutdown e = Finishing errs \<Longrightarrow>
    dispatch_step V e [Returned (shutdown_result errs e)] (e\<lparr>e_shutdown := Down\<rparr>)"

inductive_cases dispatch_stepE: "dispatch_step V e evs e'"

text \<open>A run from a fresh engine, with what happened.\<close>

inductive dispatch_run ::
  "'x dispatch_env \<Rightarrow> ('t, 'x) Engine \<Rightarrow> 't dispatch_event list \<Rightarrow> ('t, 'x) Engine \<Rightarrow> bool" for V where
  dispatch_init: "dispatch_run V e [] e"
| dispatch_more: "dispatch_run V e tr e1 \<Longrightarrow> dispatch_step V e1 evs e2 \<Longrightarrow> dispatch_run V e (tr @ evs) e2"

end
