(* ===== verification/DispatchInv.thy ===== *)
theory DispatchInv
  imports DispatchModel
begin

text \<open>
  The invariants of the dispatch engine: who may deliver which record of the log, which records the
  producers wait for, where the items of the channel are, and what holds while the engine shuts down.
\<close>

subsection \<open>What has happened\<close>

text \<open>
  The records written to the log or found in it, the items stored by the sink with their offsets, the
  items given up, and those accepted into the log and into the channel.
\<close>

fun ev_written :: "'t dispatch_event \<Rightarrow> wal_record list" where
  "ev_written (Recovered rs) = rs"
| "ev_written (Wrote rs) = rs"
| "ev_written ev = []"

fun ev_stored :: "'t dispatch_event \<Rightarrow> 't envelope list" where
  "ev_stored (Stored recs) = recs"
| "ev_stored ev = []"

fun ev_gave_up :: "'t dispatch_event \<Rightarrow> 't envelope list" where
  "ev_gave_up (GaveUp recs) = recs"
| "ev_gave_up ev = []"

fun ev_accepted :: "Submission \<Rightarrow> 't dispatch_event \<Rightarrow> 't envelope list" where
  "ev_accepted tier (Accepted tier' off item) = (if tier' = tier then [(off, item)] else [])"
| "ev_accepted tier ev = []"

definition written :: "'t dispatch_event list \<Rightarrow> wal_record list" where
  "written tr = concat (map ev_written tr)"

definition stored :: "'t dispatch_event list \<Rightarrow> 't envelope list" where
  "stored tr = concat (map ev_stored tr)"

definition gave_up :: "'t dispatch_event list \<Rightarrow> 't envelope list" where
  "gave_up tr = concat (map ev_gave_up tr)"

definition accepted :: "Submission \<Rightarrow> 't dispatch_event list \<Rightarrow> 't envelope list" where
  "accepted tier tr = concat (map (ev_accepted tier) tr)"

named_theorems trace_rules \<open>what an event adds to the history\<close>

lemma trace_append [simp, trace_rules]:
  "written (tr @ evs) = written tr @ written evs" "stored (tr @ evs) = stored tr @ stored evs"
  "gave_up (tr @ evs) = gave_up tr @ gave_up evs" "accepted tier (tr @ evs) = accepted tier tr @ accepted tier evs"
  by (simp_all add: written_def stored_def gave_up_def accepted_def)

lemma trace_Cons [simp, trace_rules]:
  "written (ev # evs) = ev_written ev @ written evs" "stored (ev # evs) = ev_stored ev @ stored evs"
  "gave_up (ev # evs) = ev_gave_up ev @ gave_up evs" "accepted tier (ev # evs) = ev_accepted tier ev @ accepted tier evs"
  by (simp_all add: written_def stored_def gave_up_def accepted_def)

lemma trace_Nil [simp, trace_rules]: "written [] = []" "stored [] = []" "gave_up [] = []" "accepted tier [] = []"
  by (simp_all add: written_def stored_def gave_up_def accepted_def)

lemma set_remove_nth: "set (remove_nth k xs) \<subseteq> set xs"
  by (auto simp: remove_nth_def dest: in_set_takeD in_set_dropD)

subsection \<open>Claims\<close>

text \<open>The offsets that a worker has claimed and not released, and those it has yet to acknowledge.\<close>

fun claims :: "'t dworker \<Rightarrow> Offset list" where
  "claims (Storing next recs attempt) = map fst recs"
| "claims (Pausing next recs attempt delay) = map fst recs"
| "claims (Acking offs rem) = offs"
| "claims (Exited offs) = offs"
| "claims wk = []"

fun unacked :: "'t dworker \<Rightarrow> Offset list" where
  "unacked (Acking offs rem) = rem"
| "unacked wk = []"

text \<open>
  A durable worker, when \<open>L\<close> are the pending records and \<open>S\<close> the offsets stored so far: it stores
  records that are pending and not stored, and it acknowledges records that are stored and pending.
\<close>

fun durable_ok :: "'t codec \<Rightarrow> wal_record list \<Rightarrow> Offset set \<Rightarrow> 't dworker \<Rightarrow> bool" where
  "durable_ok c L S (Gather recs draining) \<longleftrightarrow> False"
| "durable_ok c L S (Storing next recs attempt) \<longleftrightarrow>
     next = ToClaim \<and> (\<forall>(off, item) \<in> set recs. off \<notin> S \<and> (\<exists>p. (off, p) \<in> set L \<and> cd_Decode c p = Inr item))"
| "durable_ok c L S (Pausing next recs attempt delay) \<longleftrightarrow>
     next = ToClaim \<and> (\<forall>(off, item) \<in> set recs. off \<notin> S \<and> (\<exists>p. (off, p) \<in> set L \<and> cd_Decode c p = Inr item))"
| "durable_ok c L S (Acking offs rem) \<longleftrightarrow>
     set offs \<subseteq> S \<and> set rem \<subseteq> set offs \<and> distinct rem \<and> set rem \<subseteq> fst ` set L"
| "durable_ok c L S wk \<longleftrightarrow> True"

definition claims_ok :: "Offset set \<Rightarrow> 't dworker list \<Rightarrow> bool" where
  "claims_ok F ws \<longleftrightarrow> distinct (concat (map claims ws)) \<and> set (concat (map claims ws)) = F"

text \<open>
  Deliveries: \<open>P\<close> are the records written so far, \<open>L\<close> those pending, \<open>St\<close> the items stored and \<open>F\<close> the
  offsets in flight. No record is lost between the log and the sink, none is claimed twice, and a record
  that is stored is out of the log but for the acknowledgements on their way, unless the log is closed.
\<close>

definition delivery_ok ::
  "'t codec \<Rightarrow> wal_record list \<Rightarrow> wal_record list \<Rightarrow> 't envelope list \<Rightarrow> Offset set \<Rightarrow> bool \<Rightarrow> 't dworker list \<Rightarrow> bool" where
  "delivery_ok c P L St F closed ws \<longleftrightarrow>
     distinct (map fst P) \<and> set L \<subseteq> set P \<and>
     (\<forall>r \<in> set P. r \<in> set L \<or> fst r \<in> fst ` set St) \<and>
     distinct (map fst St) \<and> (\<forall>(off, item) \<in> set St. \<exists>p. (off, p) \<in> set P \<and> cd_Decode c p = Inr item) \<and>
     claims_ok F ws \<and> (\<forall>wk \<in> set ws. durable_ok c L (fst ` set St) wk) \<and>
     (\<forall>off \<in> fst ` set St. off \<notin> fst ` set L \<or> closed \<or> (\<exists>wk \<in> set ws. off \<in> set (unacked wk)))"

lemma concat_map_update:
  assumes "k < length xs"
  shows "concat (map f (xs[k := x])) = concat (map f (take k xs)) @ f x @ concat (map f (drop (Suc k) xs))"
    "concat (map f xs) = concat (map f (take k xs)) @ f (xs ! k) @ concat (map f (drop (Suc k) xs))"
  using assms by (simp_all add: upd_conv_take_nth_drop) (metis append_take_drop_id concat.simps(2) concat_append id_take_nth_drop list.simps(9) map_append)

lemma distinct_replace:
  assumes "distinct (xs @ ys @ zs)" "distinct ys'" "set ys' \<subseteq> set ys \<union> N" "N \<inter> set (xs @ ys @ zs) = {}"
  shows "distinct (xs @ ys' @ zs)" "set (xs @ ys' @ zs) = set (xs @ ys @ zs) - set ys \<union> set ys'"
proof -
  have "set xs \<inter> set ys' = {}" "set ys' \<inter> set zs = {}"
    using assms(1,3,4) unfolding distinct_append set_append by blast+
  then show "distinct (xs @ ys' @ zs)"
    using assms by auto
  show "set (xs @ ys' @ zs) = set (xs @ ys @ zs) - set ys \<union> set ys'"
    using assms by auto
qed

lemma claims_ok_update:
  assumes "claims_ok F ws" "k < length ws"
    "set (claims wk) \<subseteq> set (claims (ws ! k)) \<union> N" "N \<inter> F = {}" "distinct (claims wk)"
  shows "claims_ok (F - set (claims (ws ! k)) \<union> set (claims wk)) (ws[k := wk])"
  using assms(1,3-5) unfolding claims_ok_def concat_map_update [OF assms(2)]
  using distinct_replace [of "concat (map claims (take k ws))" "claims (ws ! k)" "concat (map claims (drop (Suc k) ws))" "claims wk" N]
  by blast

lemma claims_disjoint:
  assumes "claims_ok F ws" "i < length ws" "k < length ws" "i \<noteq> k"
  shows "set (claims (ws ! i)) \<inter> set (claims (ws ! k)) = {}"
  using assms
proof (induction i k rule: linorder_wlog)
  case (le i k)
  then have "ws = take k ws @ ws ! k # drop (Suc k) ws" "ws ! i \<in> set (take k ws)"
    by (auto simp: id_take_nth_drop [symmetric] in_set_conv_nth intro!: exI [of _ i])
  then have "concat (map claims ws) = concat (map claims (take k ws)) @ claims (ws ! k) @ concat (map claims (drop (Suc k) ws))"
    by (metis concat.simps(2) concat_append list.simps(9) map_append)
  then show ?case
    using le(2) \<open>ws ! i \<in> set (take k ws)\<close> by (auto simp: claims_ok_def)
next
  case (sym i k)
  then show ?case
    by blast
qed

lemma durable_claims_unacked: "durable_ok c L S wk \<Longrightarrow> set (unacked wk) \<subseteq> set (claims wk)"
  by (cases wk) auto

lemma set_update_cases: "wk \<in> set (ws[k := wk']) \<Longrightarrow> wk = wk' \<or> (\<exists>i < length ws. i \<noteq> k \<and> wk = ws ! i)"
  by (metis in_set_conv_nth length_list_update nth_list_update_eq nth_list_update_neq)

lemma kept_by_update: "wk \<in> set ws \<Longrightarrow> k < length ws \<Longrightarrow> wk = ws ! k \<or> wk \<in> set (ws[k := wk'])"
  by (metis in_set_conv_nth length_list_update nth_list_update_neq)

lemma delivery_okD:
  assumes "delivery_ok c P L St F closed ws"
  shows "distinct (map fst P)" "set L \<subseteq> set P" "\<And>r. r \<in> set P \<Longrightarrow> r \<in> set L \<or> fst r \<in> fst ` set St"
    "distinct (map fst St)" "\<And>off item. (off, item) \<in> set St \<Longrightarrow> \<exists>p. (off, p) \<in> set P \<and> cd_Decode c p = Inr item"
    "claims_ok F ws" "\<And>wk. wk \<in> set ws \<Longrightarrow> durable_ok c L (fst ` set St) wk"
    "\<And>off. off \<in> fst ` set St \<Longrightarrow> off \<in> fst ` set L \<Longrightarrow> \<not> closed \<Longrightarrow> \<exists>wk \<in> set ws. off \<in> set (unacked wk)"
  using assms unfolding delivery_ok_def by blast+

lemma delivery_okI:
  assumes "distinct (map fst P)" "set L \<subseteq> set P" "\<And>r. r \<in> set P \<Longrightarrow> r \<in> set L \<or> fst r \<in> fst ` set St"
    "distinct (map fst St)" "\<And>off item. (off, item) \<in> set St \<Longrightarrow> \<exists>p. (off, p) \<in> set P \<and> cd_Decode c p = Inr item"
    "claims_ok F ws" "\<And>wk. wk \<in> set ws \<Longrightarrow> durable_ok c L (fst ` set St) wk"
    "\<And>off. off \<in> fst ` set St \<Longrightarrow> off \<in> fst ` set L \<Longrightarrow> \<not> closed \<Longrightarrow> \<exists>wk \<in> set ws. off \<in> set (unacked wk)"
  shows "delivery_ok c P L St F closed ws"
  using assms unfolding delivery_ok_def by blast

text \<open>What a worker relies on are the records it has claimed.\<close>

lemma durable_ok_mono:
  assumes "durable_ok c L S wk" "\<And>off. off \<in> set (claims wk) \<Longrightarrow> off \<in> S' \<longleftrightarrow> off \<in> S"
    "\<And>r. r \<in> set L \<Longrightarrow> fst r \<in> set (claims wk) \<Longrightarrow> r \<in> set L'"
  shows "durable_ok c L' S' wk"
proof -
  have sub: "set offs \<subseteq> fst ` set L'" if "set offs \<subseteq> fst ` set L" "set offs \<subseteq> set (claims wk)" for offs
    using that assms(3) by (force simp: image_iff subset_iff)
  have rec: "\<exists>p. (off, p) \<in> set L' \<and> cd_Decode c p = Inr item"
    if "\<exists>p. (off, p) \<in> set L \<and> cd_Decode c p = Inr item" "off \<in> set (claims wk)" for off item
    using that assms(3) by force
  show ?thesis
  proof (cases wk)
    case (Storing nx recs a)
    then show ?thesis
      using assms(1,2) rec by (force simp: image_iff)
  next
    case (Pausing nx recs a dl)
    then show ?thesis
      using assms(1,2) rec by (force simp: image_iff)
  next
    case (Acking offs rem)
    then show ?thesis
      using assms(1,2) sub [of rem] by auto
  qed (use assms(1) in auto)
qed

text \<open>What the steps of the engine do to deliveries.\<close>

lemma delivery_closed:
  assumes "delivery_ok c P L St F closed ws" "closed \<longrightarrow> closed'"
  shows "delivery_ok c P L St F closed' ws"
  by (rule delivery_okI) (use delivery_okD [OF assms(1)] assms(2) in blast)+

lemma delivery_publish:
  assumes ok: "delivery_ok c P L St F closed ws" and new: "distinct (map fst rs)" "fst ` set rs \<inter> fst ` set P = {}"
  shows "delivery_ok c (P @ rs) (L @ rs) St F closed ws"
proof (rule delivery_okI)
  note D = delivery_okD [OF ok]
  have St: "fst ` set St \<subseteq> fst ` set P"
    using D(5) by force
  show "distinct (map fst (P @ rs))" "set (L @ rs) \<subseteq> set (P @ rs)" "distinct (map fst St)" "claims_ok F ws"
    using D new by auto
  show "r \<in> set (L @ rs) \<or> fst r \<in> fst ` set St" if "r \<in> set (P @ rs)" for r
    using D(3) [of r] that by auto
  show "\<exists>p. (off, p) \<in> set (P @ rs) \<and> cd_Decode c p = Inr item" if "(off, item) \<in> set St" for off item
    using D(5) [OF that] by auto
  show "durable_ok c (L @ rs) (fst ` set St) wk" if "wk \<in> set ws" for wk
    by (rule durable_ok_mono [OF D(7) [OF that]]) auto
  show "\<exists>wk \<in> set ws. off \<in> set (unacked wk)" if "off \<in> fst ` set St" "off \<in> fst ` set (L @ rs)" "\<not> closed" for off
  proof -
    have "off \<in> fst ` set L"
      using that(1,2) St new(2) unfolding set_append image_Un by blast
    then show ?thesis
      using D(8) that by blast
  qed
qed

text \<open>A step of worker \<open>k\<close>: the others stay as they are.\<close>

lemma unacked_others:
  assumes "k < length ws" "w \<in> set ws" "off \<in> set (unacked w)" "set (unacked (ws ! k)) \<subseteq> set (unacked wk)"
  shows "\<exists>w \<in> set (ws[k := wk]). off \<in> set (unacked w)"
  using kept_by_update [OF assms(2,1), of wk] assms(1,3,4) set_update_memI [OF assms(1), of wk] by blast

lemma durable_others:
  assumes "delivery_ok c P L St F closed ws" "k < length ws" "w \<in> set (ws[k := wk])" "w \<noteq> wk"
  shows "durable_ok c L (fst ` set St) w" "set (claims w) \<inter> set (claims (ws ! k)) = {}"
  using set_update_cases [OF assms(3)] assms delivery_okD(6,7) [OF assms(1)] claims_disjoint [of F ws] by auto

lemma same_claims:
  assumes "claims_ok F ws" "k < length ws" "claims wk = claims (ws ! k)"
  shows "claims_ok F (ws[k := wk])"
  using assms concat_map_update [OF assms(2), of claims] unfolding claims_ok_def by simp

lemma delivery_worker:
  assumes ok: "delivery_ok c P L St F closed ws" and k: "k < length ws"
    and wk: "claims wk = claims (ws ! k)" "unacked (ws ! k) = []" "durable_ok c L (fst ` set St) wk"
  shows "delivery_ok c P L St F closed (ws[k := wk])"
proof (rule delivery_okI)
  note D = delivery_okD [OF ok]
  show "claims_ok F (ws[k := wk])"
    using same_claims [OF D(6) k wk(1)] .
  show "durable_ok c L (fst ` set St) w" if "w \<in> set (ws[k := wk])" for w
    using durable_others(1) [OF ok k that] wk(3) by blast
  show "\<exists>w \<in> set (ws[k := wk]). off \<in> set (unacked w)"
    if "off \<in> fst ` set St" "off \<in> fst ` set L" "\<not> closed" for off
    using D(8) [OF that] unacked_others [OF k] wk(2) by auto
qed (use delivery_okD [OF ok] in blast)+

lemma delivery_claim:
  assumes ok: "delivery_ok c P L St F False ws" and k: "k < length ws" "ws ! k = Claim"
    and rs: "set rs \<subseteq> set L" "fst ` set rs \<inter> F = {}" "distinct (map fst rs)"
    and wk: "claims wk = map fst rs" "unacked wk = []"
      "fst ` set rs \<inter> fst ` set St = {} \<Longrightarrow> durable_ok c L (fst ` set St) wk"
  shows "delivery_ok c P L St (F \<union> fst ` set rs) False (ws[k := wk])"
proof (rule delivery_okI)
  note D = delivery_okD [OF ok]
  show "claims_ok (F \<union> fst ` set rs) (ws[k := wk])"
    using claims_ok_update [OF D(6) k(1), of wk "fst ` set rs"] k(2) wk(1) rs(2,3) by (simp add: Int_commute)
  have "off \<in> F" if "w \<in> set ws" "off \<in> set (unacked w)" for w off
    using D(6) durable_claims_unacked [OF D(7) [OF that(1)]] that unfolding claims_ok_def by auto
  then have "fst ` set rs \<inter> fst ` set St = {}"
    using D(8) rs(1,2) by (meson disjoint_iff image_mono subsetD)
  then show "durable_ok c L (fst ` set St) w" if "w \<in> set (ws[k := wk])" for w
    using durable_others(1) [OF ok k(1) that] wk(3) by blast
  show "\<exists>w \<in> set (ws[k := wk]). off \<in> set (unacked w)"
    if "off \<in> fst ` set St" "off \<in> fst ` set L" "\<not> False" for off
    using D(8) [OF that] unacked_others [OF k(1)] k(2) by auto
qed (use delivery_okD [OF ok] in blast)+

lemma delivery_store:
  assumes ok: "delivery_ok c P L St F closed ws" and k: "k < length ws" "ws ! k = Storing next recs attempt"
  shows "delivery_ok c P L (St @ recs) F closed (ws[k := Acking (map fst recs) (map fst recs)])" (is "delivery_ok _ _ _ _ _ _ ?ws")
proof (rule delivery_okI)
  note D = delivery_okD [OF ok]
  let ?wk = "Acking (map fst recs) (map fst recs)"
  have k_ok: "durable_ok c L (fst ` set St) (Storing next recs attempt)"
    using D(7) [OF nth_mem [OF k(1)]] k(2) by simp
  have each: "off \<notin> fst ` set St" "\<exists>p. (off, p) \<in> set L \<and> cd_Decode c p = Inr item" if "(off, item) \<in> set recs" for off item
    using k_ok that by force+
  have recs: "fst ` set recs \<inter> fst ` set St = {}" "fst ` set recs \<subseteq> fst ` set L" "distinct (map fst recs)"
    using each D(6) concat_map_update(2) [OF k(1), of claims] k(2) by (force, force, simp add: claims_ok_def)
  show "claims_ok F ?ws"
    using same_claims [OF D(6) k(1)] k(2) by simp
  show "distinct (map fst (St @ recs))"
    using D(4) recs by (auto simp: Int_commute)
  show "\<exists>p. (off, p) \<in> set P \<and> cd_Decode c p = Inr item" if "(off, item) \<in> set (St @ recs)" for off item
    using that D(5) [of off item] each(2) [of off item] D(2) by auto
  show "durable_ok c L (fst ` set (St @ recs)) w" if "w \<in> set ?ws" for w
  proof (cases "w = ?wk")
    case True
    then show ?thesis
      using recs by (auto simp: image_Un)
  next
    case False
    show ?thesis
      by (rule durable_ok_mono [OF durable_others(1) [OF ok k(1) that False]])
        (use durable_others(2) [OF ok k(1) that False] k(2) in \<open>auto simp: disjoint_iff image_Un\<close>)
  qed
  show "\<exists>w \<in> set ?ws. off \<in> set (unacked w)" if "off \<in> fst ` set (St @ recs)" "off \<in> fst ` set L" "\<not> closed" for off
  proof (cases "off \<in> fst ` set recs")
    case True
    then show ?thesis
      using set_update_memI [OF k(1), of ?wk] by force
  next
    case False
    then have "off \<in> fst ` set St"
      using that(1) unfolding set_append image_Un by blast
    then show ?thesis
      using D(8) [OF _ that(2,3)] unacked_others [OF k(1), of _ off ?wk] k(2) by auto
  qed
  show "r \<in> set L \<or> fst r \<in> fst ` set (St @ recs)" if "r \<in> set P" for r
    using D(3) [OF that] by auto
qed (use delivery_okD [OF ok] in blast)+

lemma delivery_ack:
  assumes ok: "delivery_ok c P L St F closed ws" and k: "k < length ws" "ws ! k = Acking offs (off # rem)"
    and L': "L' = (if closed then L else filter (\<lambda>r. fst r \<noteq> off) L)"
  shows "delivery_ok c P L' St F closed (ws[k := Acking offs rem])" (is "delivery_ok _ _ _ _ _ _ ?ws")
proof (rule delivery_okI)
  note D = delivery_okD [OF ok]
  have k_ok: "set offs \<subseteq> fst ` set St" "off \<in> set offs" "set rem \<subseteq> set offs" "distinct rem" "off \<notin> set rem" "set rem \<subseteq> fst ` set L"
    using D(7) [OF nth_mem [OF k(1)]] k(2) by auto
  have keep: "r \<in> set L'" if "r \<in> set L" "fst r \<noteq> off" for r
    using that L' by simp
  then have keep': "off' \<in> fst ` set L'" if "off' \<in> fst ` set L" "off' \<noteq> off" for off'
    using that by force
  show "claims_ok F ?ws"
    using same_claims [OF D(6) k(1)] k(2) by simp
  show "r \<in> set L' \<or> fst r \<in> fst ` set St" if "r \<in> set P" for r
    using D(3) [OF that] keep [of r] k_ok(1,2) by auto
  show "durable_ok c L' (fst ` set St) w" if "w \<in> set ?ws" for w
  proof (cases "w = Acking offs rem")
    case True
    then show ?thesis
      using k_ok keep' by (auto simp: subset_iff) metis
  next
    case False
    show ?thesis
      by (rule durable_ok_mono [OF durable_others(1) [OF ok k(1) that False]])
        (use durable_others(2) [OF ok k(1) that False] k(2) k_ok(2) keep in \<open>auto simp: disjoint_iff\<close>)
  qed
  show "set L' \<subseteq> set P"
    using D(2) L' by (auto split: if_splits)
  show "\<exists>w \<in> set ?ws. off' \<in> set (unacked w)" if off': "off' \<in> fst ` set St" "off' \<in> fst ` set L'" "\<not> closed" for off'
  proof -
    have "off' \<noteq> off" "off' \<in> fst ` set L"
      using off' L' by auto
    moreover from D(8) [OF off'(1) this(2) off'(3)] obtain w where "w \<in> set ws" "off' \<in> set (unacked w)"
      by blast
    ultimately show ?thesis
      using kept_by_update [of w ws k "Acking offs rem"] k set_update_memI [OF k(1), of "Acking offs rem"] by force
  qed
qed (use delivery_okD [OF ok] in blast)+

lemma delivery_release:
  assumes ok: "delivery_ok c P L St F closed ws" and k: "k < length ws" "ws ! k = Acking offs []"
  shows "delivery_ok c P L St (F - set offs) closed (ws[k := Claim])"
proof (rule delivery_okI)
  note D = delivery_okD [OF ok]
  show "claims_ok (F - set offs) (ws[k := Claim])"
    using claims_ok_update [OF D(6) k(1), of Claim "{}"] k(2) by simp
  show "durable_ok c L (fst ` set St) w" if "w \<in> set (ws[k := Claim])" for w
    using durable_others(1) [OF ok k(1) that] by (cases "w = Claim") simp_all
  show "\<exists>w \<in> set (ws[k := Claim]). off \<in> set (unacked w)"
    if "off \<in> fst ` set St" "off \<in> fst ` set L" "\<not> closed" for off
    using D(8) [OF that] unacked_others [OF k(1)] k(2) by auto
qed (use delivery_okD [OF ok] in blast)+

subsection \<open>The log\<close>

fun published :: "wal_event \<Rightarrow> wal_record list" where
  "published (Published rs) = rs"
| "published ev = []"

text \<open>The log of a running engine; \<open>P\<close> are the records written to it so far.\<close>

definition log_ok :: "'x dispatch_env \<Rightarrow> wal_options \<Rightarrow> 'x walsys \<Rightarrow> wal_record list \<Rightarrow> bool" where
  "log_ok V opts sy P \<longleftrightarrow>
     sys_inv sy \<and> w_opts (sy_wal sy) = opts \<and>
     disk_ok (wo_insecurePermissions opts) (dv_windows V) (fst (sy_disk sy)) \<and>
     (\<forall>r \<in> set P. issued (sy_wal sy) (fst r))"

lemma log_step_published: "set (log_step L ev) \<subseteq> set L \<union> set (published ev)"
  by (cases ev) auto

lemma log_ok_step:
  assumes ok: "log_ok V opts sy P" and step: "wal_step os sy ev sy'"
  shows "log_ok V opts sy' (P @ published ev)" "sys_log sy' = log_step (sys_log sy) ev"
    "w_closed (sy_wal sy) \<longrightarrow> w_closed (sy_wal sy')"
    "distinct (map fst (published ev))" "fst ` set (published ev) \<inter> fst ` set P = {}"
proof -
  note inv = wal_step_ok [OF step] and grows = wal_step_grows [OF step]
  have sys: "sys_inv sy" "w_opts (sy_wal sy) = opts" "disk_ok (wo_insecurePermissions opts) (dv_windows V) (fst (sy_disk sy))"
    and old: "\<And>r. r \<in> set P \<Longrightarrow> issued (sy_wal sy) (fst r)"
    using ok by (auto simp: log_ok_def)
  have sys': "sys_inv sy'" "w_opts (sy_wal sy') = opts"
    and evolves: "dir_evolves (wo_insecurePermissions opts) (fst (sy_disk sy)) (fst (sy_disk sy'))"
    and log: "sys_log sy' = log_step (sys_log sy) ev"
    using inv sys by (auto simp: wal_becomes_def)
  show "sys_log sy' = log_step (sys_log sy) ev" "w_closed (sy_wal sy) \<longrightarrow> w_closed (sy_wal sy')"
    using log grows by (auto simp: wal_grows_def)
  have inv': "wal_inv (sy_wal sy') (sy_disk sy')"
    using sys'(1) by (simp add: sys_inv_def)
  have "set (published ev) \<subseteq> set (sys_log sy')"
    using log by (cases ev) auto
  then have "issued (sy_wal sy') (fst r)" if "r \<in> set (published ev)" for r
    using log_issued [OF inv'] that by auto
  then show "log_ok V opts sy' (P @ published ev)"
    using sys' dir_evolves_disk_ok [OF evolves sys(3)] old wal_grows_issued [OF grows] by (auto simp: log_ok_def)
  show "distinct (map fst (published ev))"
    using wal_log_distinct [OF inv'] log by (cases ev) auto
  show "fst ` set (published ev) \<inter> fst ` set P = {}"
    using wal_step_fresh [of os sy _ sy'] step sys(1) old by (cases ev) fastforce+
qed

subsection \<open>Producers\<close>

text \<open>
  Where the record of a producer is: in the accumulating batch, in the batch that is written, or among
  the records written so far. Records of the batch that is written and have their result are written.
\<close>

fun producer_ok :: "'t codec \<Rightarrow> 'x walsys \<Rightarrow> wal_record list \<Rightarrow> 't producer \<Rightarrow> bool" where
  "producer_ok c sy P (Entered item) \<longleftrightarrow> True"
| "producer_ok c sy P (InCur idx item) \<longleftrightarrow>
     idx < batch_len (sy_cur sy) \<and> cd_Encode c item = Inr (batch_payload (sy_cur sy) idx)"
| "producer_ok c sy P (InWrite idx item) \<longleftrightarrow>
     (\<exists>b i. sy_flight sy = Some (b, i) \<and> idx < batch_len b \<and> cd_Encode c item = Inr (batch_payload b idx))"
| "producer_ok c sy P (Written off err item) \<longleftrightarrow>
     err = None \<longrightarrow> (\<exists>p. (off, p) \<in> set P \<and> cd_Encode c item = Inr p)"

definition batch_ok :: "'x walsys \<Rightarrow> wal_record list \<Rightarrow> bool" where
  "batch_ok sy P \<longleftrightarrow> (\<forall>b i k. sy_flight sy = Some (b, i) \<longrightarrow> k < i \<longrightarrow> snd (Append_result b k) = None \<longrightarrow>
     (fst (Append_result b k), batch_payload b k) \<in> set P)"

lemma append_payloads:
  assumes "Append_begin w p cur = Inr (cur1, idx)" "batch_rep cur ps" "batch_open cur 0"
  shows "batch_len cur1 = Suc (batch_len cur)" "idx = batch_len cur" "batch_payload cur1 idx = p"
    "k < batch_len cur \<Longrightarrow> batch_payload cur1 k = batch_payload cur k"
  using Append_begin_rep [OF assms] batch_payload_nth [of cur1 "ps @ [p]"] batch_payload_nth [OF assms(2)]
    batch_rep_len [OF assms(2)] batch_rep_len [of cur1 "ps @ [p]"] by (auto simp: nth_append)

lemma producers_append:
  assumes inv: "sys_inv sy" and app: "Append_begin (sy_wal sy) p (sy_cur sy) = Inr (cur, idx)"
    and ok: "producer_ok c sy P pr"
  shows "producer_ok c (sy\<lparr>sy_cur := cur\<rparr>) P pr"
    "cd_Encode c item = Inr p \<Longrightarrow> producer_ok c (sy\<lparr>sy_cur := cur\<rparr>) P (InCur idx item)"
proof -
  obtain ps where "batch_rep (sy_cur sy) ps" "batch_open (sy_cur sy) 0"
    using inv by (auto simp: sys_inv_def)
  note pay = append_payloads [OF app this]
  show "producer_ok c (sy\<lparr>sy_cur := cur\<rparr>) P pr"
    using ok pay by (cases pr) auto
  show "cd_Encode c item = Inr p \<Longrightarrow> producer_ok c (sy\<lparr>sy_cur := cur\<rparr>) P (InCur idx item)"
    using pay by simp
qed

lemma producers_lead:
  assumes "producer_ok c sy P pr" "sy_flight sy = None"
  shows "producer_ok c (sy\<lparr>sy_cur := getAppendBatch, sy_flight := Some (sy_cur sy, 0)\<rparr>) P (led pr)"
  using assms by (cases pr) auto

lemma producers_round:
  assumes inv: "sys_inv sy" and fl: "sy_flight sy = Some (b, i)" "i < batch_len b"
    and round: "flush_round os b i (sy_wal sy) (sy_disk sy) = ((b1, i1), w1, d1)" and ok: "batch_ok sy P"
    and sy1: "sy1 = sy\<lparr>sy_wal := w1, sy_disk := d1, sy_flight := Some (b1, i1)\<rparr>"
  shows "batch_ok sy1 (P @ batch_results b1 i i1)"
    "producer_ok c sy P pr \<Longrightarrow> producer_ok c sy1 (P @ batch_results b1 i i1) pr"
proof -
  obtain ps where b: "batch_rep b ps" "batch_open b i" and w: "wal_inv (sy_wal sy) (sy_disk sy)"
    using inv fl(1) by (auto simp: sys_inv_def)
  have i: "i < length ps"
    using fl(2) batch_rep_len [OF b(1)] by simp
  have r: "batch_rep b1 ps" "i1 \<le> length ps" "\<And>k. k < i \<Longrightarrow> Append_result b1 k = Append_result b k"
    using flush_round_ok [OF w b i round] by (auto simp: round_ok_def)
  have pay: "batch_payload b1 k = batch_payload b k" if "k < length ps" for k
    using batch_payload_nth [OF b(1) that] batch_payload_nth [OF r(1) that] by simp
  have len: "batch_len b1 = batch_len b"
    using batch_rep_len [OF b(1)] batch_rep_len [OF r(1)] by simp
  have "(fst (Append_result b1 k), batch_payload b1 k) \<in> set (P @ batch_results b1 i i1)"
    if "k < i1" "snd (Append_result b1 k) = None" for k
  proof (cases "k < i")
    case True
    then show ?thesis
      using ok fl(1) r(3) [OF True] that(2) pay [of k] i by (auto simp: batch_ok_def)
  next
    case False
    then show ?thesis
      using that by (auto simp: batch_results_def)
  qed
  then show "batch_ok sy1 (P @ batch_results b1 i i1)"
    by (simp add: batch_ok_def sy1)
  show "producer_ok c sy1 (P @ batch_results b1 i i1) pr" if "producer_ok c sy P pr"
    using that fl(1) len pay batch_rep_len [OF b(1)] by (cases pr) (auto simp: sy1)
qed

lemma producers_finish:
  assumes "producer_ok c sy P pr" "batch_ok sy P" "sy_flight sy = Some (b, i)" "\<not> i < batch_len b"
  shows "producer_ok c (sy\<lparr>sy_flight := None\<rparr>) P (with_result b pr)"
proof (cases pr)
  case (InWrite idx item)
  then show ?thesis
    using assms(2) [unfolded batch_ok_def, rule_format, of b i idx] assms(1,3,4) by (auto split: prod.splits)
qed (use assms in auto)

lemma producer_ok_wal [simp]:
  "producer_ok c (sy\<lparr>sy_wal := w, sy_disk := d\<rparr>) P pr = producer_ok c sy P pr"
  "batch_ok (sy\<lparr>sy_wal := w, sy_disk := d\<rparr>) P = batch_ok sy P"
  by (cases pr) (auto simp: batch_ok_def)

end
