(* ===== verification/DispatchLog.thy ===== *)
theory DispatchLog
  imports DispatchInv
begin

text \<open>
  The dispatch engine with a write-ahead log: what holds from the start of an engine to its shutdown,
  and that every step keeps it.
\<close>

subsection \<open>A running engine with a log\<close>

definition durable_inv :: "'x dispatch_env \<Rightarrow> 't dispatch_event list \<Rightarrow> ('t, 'x) Engine \<Rightarrow> 'x walsys \<Rightarrow> bool" where
  "durable_inv V tr e sy \<longleftrightarrow>
     log_ok V (do_walOpts (e_opts e)) sy (written tr) \<and>
     delivery_ok (engine_codec e) (written tr) (sys_log sy) (stored tr) (e_inFlight e) (w_closed (sy_wal sy)) (e_workers e) \<and>
     batch_ok sy (written tr) \<and> (\<forall>pr \<in> set (e_producers e). producer_ok (engine_codec e) sy (written tr) pr) \<and>
     (\<forall>(off, item) \<in> set (accepted Logged tr). \<exists>p. (off, p) \<in> set (written tr) \<and> cd_Encode (engine_codec e) item = Inr p) \<and>
     (\<forall>errs. e_shutdown e = ClosedLog errs \<longrightarrow> w_closed (sy_wal sy))"

text \<open>Steps that leave the log and the workers alone.\<close>

lemma durable_frame:
  assumes inv: "durable_inv V tr e sy" and log: "e_log e1 = Some sy" and opts: "e_opts e1 = e_opts e"
    and same: "e_workers e1 = e_workers e" "e_inFlight e1 = e_inFlight e"
      "\<And>errs. e_shutdown e1 = ClosedLog errs \<Longrightarrow> e_shutdown e = ClosedLog errs"
    and prods: "set (e_producers e1) \<subseteq> set (e_producers e) \<union> range Entered"
    and evs: "written evs = []" "stored evs = []"
      "\<And>off item. (off, item) \<in> set (accepted Logged evs) \<Longrightarrow> Written off None item \<in> set (e_producers e)"
  shows "durable_inv V (tr @ evs) e1 sy"
proof -
  have codec: "engine_codec e1 = engine_codec e"
    by (simp add: engine_codec_def opts)
  have "producer_ok (engine_codec e) sy (written tr) pr" if "pr \<in> set (e_producers e1)" for pr
    using prods that inv by (auto simp: durable_inv_def)
  moreover have "\<exists>p. (off, p) \<in> set (written tr) \<and> cd_Encode (engine_codec e) item = Inr p"
    if "(off, item) \<in> set (accepted Logged evs)" for off item
    using inv evs(3) [OF that] by (fastforce simp: durable_inv_def)
  ultimately show ?thesis
    using inv evs(1,2) same(3) by (auto simp: durable_inv_def codec opts same(1,2))
qed

text \<open>A step of a worker that leaves the log alone.\<close>

lemma durable_worker:
  assumes inv: "durable_inv V tr e sy" and k: "k < length (e_workers e)"
    and wk: "claims wk = claims (e_workers e ! k)" "unacked (e_workers e ! k) = []"
      "durable_ok (engine_codec e) (sys_log sy) (fst ` set (stored tr)) wk"
    and e1: "e_log e1 = Some sy" "e_opts e1 = e_opts e" "e_workers e1 = (e_workers e)[k := wk]"
      "e_inFlight e1 = e_inFlight e" "e_producers e1 = e_producers e" "e_shutdown e1 = e_shutdown e"
    and evs: "written evs = []" "stored evs = []" "accepted Logged evs = []"
  shows "durable_inv V (tr @ evs) e1 sy"
  using inv delivery_worker [OF _ k wk] evs by (simp add: durable_inv_def engine_codec_def e1)

text \<open>A step of the log.\<close>

lemma durable_log:
  assumes inv: "durable_inv V tr e sy" and step: "wal_step (dv_os V) sy ev sy1" and ev: "\<forall>off. ev \<noteq> Acked off"
    and e1: "e_log e1 = Some sy1" "e_opts e1 = e_opts e" "e_workers e1 = e_workers e" "e_inFlight e1 = e_inFlight e"
      "\<And>errs. e_shutdown e1 = ClosedLog errs \<Longrightarrow> e_shutdown e = ClosedLog errs \<or> w_closed (sy_wal sy1)"
    and prods: "batch_ok sy1 (written tr @ published ev)"
      "\<And>pr. pr \<in> set (e_producers e1) \<Longrightarrow> producer_ok (engine_codec e) sy1 (written tr @ published ev) pr"
    and evs: "written evs = published ev" "stored evs = []" "accepted Logged evs = []"
  shows "durable_inv V (tr @ evs) e1 sy1"
proof -
  have codec: "engine_codec e1 = engine_codec e"
    by (simp add: engine_codec_def e1)
  have log: "log_ok V (do_walOpts (e_opts e)) sy (written tr)"
    and del: "delivery_ok (engine_codec e) (written tr) (sys_log sy) (stored tr) (e_inFlight e) (w_closed (sy_wal sy)) (e_workers e)"
    using inv by (auto simp: durable_inv_def)
  note after = log_ok_step [OF log step]
  have "sys_log sy1 = sys_log sy @ published ev"
    using after(2) ev by (cases ev) auto
  then have "delivery_ok (engine_codec e) (written (tr @ evs)) (sys_log sy1) (stored (tr @ evs)) (e_inFlight e)
      (w_closed (sy_wal sy1)) (e_workers e)"
    using delivery_closed [OF delivery_publish [OF del after(4,5)] after(3)] evs by simp
  moreover have "w_closed (sy_wal sy1)" if "e_shutdown e1 = ClosedLog errs" for errs
    using e1(5) [OF that] inv after(3) by (auto simp: durable_inv_def)
  ultimately show ?thesis
    using after(1) prods evs inv by (fastforce simp: durable_inv_def codec e1(1-4))
qed

lemma decode_records_ok:
  assumes "decode_records c rs = Inr items"
  shows "map fst items = map fst rs" "\<forall>(off, item) \<in> set items. \<exists>p. (off, p) \<in> set rs \<and> cd_Decode c p = Inr item"
  using assms by (induction c rs arbitrary: items rule: decode_records.induct) (fastforce split: sum.splits)+

lemma ReadPending_closed:
  assumes "ReadPending os limit skip w d = (r, w1, d1)"
  shows "w_closed w1 = w_closed w"
  using assms by (auto simp: ReadPending_def Let_def split: if_splits option.splits prod.splits)

text \<open>The worker that \<open>durable_claim\<close> leaves when the read gives \<open>rs\<close>.\<close>

definition claiming_worker :: "'t codec \<Rightarrow> wal_record list \<Rightarrow> 't dworker" where
  "claiming_worker c rs =
     (if rs = [] then Idle
      else case decode_records c rs of Inl err \<Rightarrow> Exited (map fst rs) | Inr items \<Rightarrow> Storing ToClaim items 0)"

lemma claiming_worker_ok:
  assumes "set rs \<subseteq> set L"
  shows "claims (claiming_worker c rs) = map fst rs" "unacked (claiming_worker c rs) = []"
    "fst ` set rs \<inter> S = {} \<Longrightarrow> durable_ok c L S (claiming_worker c rs)"
  using assms decode_records_ok [of c rs]
  by (auto simp: claiming_worker_def split: sum.splits) (fastforce simp: image_iff subset_iff)+

lemma durable_claim_eq:
  assumes "ReadPending os (do_batchSize (e_opts e)) (Some (\<lambda>off. off \<in> e_inFlight e)) (sy_wal sy) (sy_disk sy) = (r, w1, d1)"
    and "e1 = durable_claim os k sy e"
  shows "e_log e1 = Some (sy\<lparr>sy_wal := w1, sy_disk := d1\<rparr>)" "e_opts e1 = e_opts e" "e_producers e1 = e_producers e"
    "e_workers e1 = (e_workers e)[k := case r of Inl err \<Rightarrow> Exited [] | Inr rs \<Rightarrow> claiming_worker (engine_codec e) rs]"
    "e_shutdown e1 = e_shutdown e" "e_inFlight e1 = e_inFlight e \<union> (case r of Inl err \<Rightarrow> {} | Inr rs \<Rightarrow> fst ` set rs)"
  by (cases r; auto simp: assms(2) durable_claim_def claimBatch_def assms(1) put_worker_def claiming_worker_def Let_def
      split: sum.splits list.splits)+

lemma durable_claim_step:
  assumes inv: "durable_inv V tr e sy" and k: "k < length (e_workers e)" "e_workers e ! k = Claim"
  shows "\<exists>sy1. e_log (durable_claim (dv_os V) k sy e) = Some sy1 \<and> durable_inv V tr (durable_claim (dv_os V) k sy e) sy1"
proof -
  obtain r w1 d1 where rd: "ReadPending (dv_os V) (do_batchSize (e_opts e)) (Some (\<lambda>off. off \<in> e_inFlight e)) (sy_wal sy) (sy_disk sy)
      = (r, w1, d1)"
    by (metis surj_pair)
  let ?sy = "sy\<lparr>sy_wal := w1, sy_disk := d1\<rparr>" and ?rs = "case r of Inl err \<Rightarrow> [] | Inr rs \<Rightarrow> rs"
  let ?e1 = "durable_claim (dv_os V) k sy e" and ?c = "engine_codec e"
  have step: "wal_step (dv_os V) sy Silent ?sy"
    using step_read [OF rd] .
  have wal: "wal_inv (sy_wal sy) (sy_disk sy)" and lok: "log_ok V (do_walOpts (e_opts e)) sy (written tr)"
    using inv by (auto simp: durable_inv_def log_ok_def sys_inv_def)
  note after = log_ok_step [OF lok step] and eq = durable_claim_eq [OF rd refl, of k]
  have rs: "set ?rs \<subseteq> set (sys_log sy)" "fst ` set ?rs \<inter> e_inFlight e = {}" "distinct (map fst ?rs)"
    using ReadPending_becomes(2) [OF wal rd] wal_log_distinct [OF wal]
    by (auto simp: wanted_def distinct_map_filter distinct_take simp flip: take_map split: sum.splits dest!: in_set_takeD)
  define wk where "wk = (case r of Inl err \<Rightarrow> Exited [] | Inr rs \<Rightarrow> claiming_worker ?c rs)"
  have wk: "claims wk = map fst ?rs" "unacked wk = []"
    "fst ` set ?rs \<inter> fst ` set (stored tr) = {} \<Longrightarrow> durable_ok ?c (sys_log sy) (fst ` set (stored tr)) wk"
    using claiming_worker_ok [OF rs(1), where c = ?c] by (auto simp: wk_def split: sum.splits)
  have del: "delivery_ok ?c (written tr) (sys_log sy) (stored tr) (e_inFlight e) (w_closed (sy_wal sy)) (e_workers e)"
    using inv by (simp add: durable_inv_def)
  have "delivery_ok ?c (written tr) (sys_log sy) (stored tr) (e_inFlight e \<union> fst ` set ?rs) (w_closed (sy_wal sy)) ((e_workers e)[k := wk])"
  proof (cases "w_closed (sy_wal sy)")
    case True
    then have "?rs = []" "wk = Exited []"
      using rd by (auto simp: ReadPending_def wk_def)
    then show ?thesis
      using delivery_worker [OF del k(1), of wk] k(2) by simp
  next
    case False
    then show ?thesis
      using delivery_claim [OF _ k rs wk] del by simp
  qed
  then have "durable_inv V tr ?e1 ?sy"
    using inv after(1,2) eq ReadPending_closed [OF rd]
    by (auto simp: durable_inv_def engine_codec_def wk_def split: sum.splits)
  then show ?thesis
    using eq(1) by blast
qed

lemma durable_ack_step:
  assumes inv: "durable_inv V tr e sy" and k: "k < length (e_workers e)" "e_workers e ! k = Acking offs (off # rem)"
  shows "durable_inv V tr (put_worker k (Acking offs rem) (e\<lparr>e_log := Some (ack_record (dv_os V) off sy)\<rparr>)) (ack_record (dv_os V) off sy)"
proof -
  obtain w1 d1 where ack: "Ack (dv_os V) off (sy_wal sy) (sy_disk sy) = (w1, d1)"
    by (metis surj_pair)
  let ?sy = "sy\<lparr>sy_wal := w1, sy_disk := d1\<rparr>" and ?ev = "if w_closed (sy_wal sy) then Silent else Acked off"
  have sy1: "ack_record (dv_os V) off sy = ?sy"
    by (simp add: ack_record_def ack)
  have del: "delivery_ok (engine_codec e) (written tr) (sys_log sy) (stored tr) (e_inFlight e) (w_closed (sy_wal sy)) (e_workers e)"
    and lok: "log_ok V (do_walOpts (e_opts e)) sy (written tr)" and wal: "wal_inv (sy_wal sy) (sy_disk sy)"
    using inv by (auto simp: durable_inv_def log_ok_def sys_inv_def)
  have "off \<in> fst ` set (sys_log sy)"
    using delivery_okD(7) [OF del nth_mem [OF k(1)]] k(2) by auto
  then have step: "wal_step (dv_os V) sy ?ev ?sy"
    using step_ack [OF log_ack_ok [OF wal] ack] by simp
  note after = log_ok_step [OF lok step]
  have "delivery_ok (engine_codec e) (written tr) (sys_log ?sy) (stored tr) (e_inFlight e) (w_closed (sy_wal ?sy))
      ((e_workers e)[k := Acking offs rem])"
    by (rule delivery_closed [OF delivery_ack [OF del k] after(3)]) (use after(2) in simp)
  then show ?thesis
    using inv after(1,3) unfolding sy1 by (auto simp: durable_inv_def engine_codec_def put_worker_def split: if_splits)
qed

lemma durable_stored_step:
  assumes inv: "durable_inv V tr e sy" and k: "k < length (e_workers e)" "e_workers e ! k = Storing next recs attempt"
    and log: "e_log e = Some sy"
  shows "durable_inv V (tr @ [Stored recs]) (batch_stored k next recs e) sy"
  using inv delivery_store [OF _ k] log
  by (simp add: durable_inv_def engine_codec_def batch_stored_def put_worker_def)

lemma durable_release_step:
  assumes inv: "durable_inv V tr e sy" and k: "k < length (e_workers e)" "e_workers e ! k = Acking offs []"
  shows "durable_inv V tr (release_claims k offs e) sy"
  using inv delivery_release [OF _ k]
  by (simp add: durable_inv_def engine_codec_def release_claims_def put_worker_def notifyWorker_def)

subsection \<open>The life of an engine\<close>

definition options_ok :: "'t dispatch_options \<Rightarrow> bool" where
  "options_ok opts \<longleftrightarrow> 0 < do_workers opts \<and> 0 < do_batchSize opts \<and> 0 < do_bufferSize opts \<and>
     0 \<le> do_retryAttempts opts \<and> 0 < do_retryMaxBackoff opts \<and>
     (do_walEnabled opts \<longrightarrow> do_walDir opts \<noteq> '''' \<and> do_codec opts \<noteq> None)"

lemma apply_option_ok: "options_ok opts \<Longrightarrow> options_ok (apply_option f opts)"
  by (cases f) (auto simp: options_ok_def)

lemma newOptions_ok: "options_ok (dispatch_newOptions wopts opts)"
proof -
  have "options_ok (foldl (\<lambda>o' f. apply_option f o') o' opts)" if "options_ok o'" for o'
    using that by (induction opts arbitrary: o') (auto simp: apply_option_ok)
  then show ?thesis
    by (simp add: dispatch_newOptions_def dispatch_defaultOptions_def options_ok_def)
qed

definition life_ok :: "('t, 'x) Engine \<Rightarrow> bool" where
  "life_ok e \<longleftrightarrow>
     options_ok (e_opts e) \<and>
     (e_log e \<noteq> None \<longrightarrow> e_started e \<and> do_walEnabled (e_opts e)) \<and>
     (e_ready e \<longrightarrow> e_started e \<and> (do_walEnabled (e_opts e) \<longrightarrow> e_log e \<noteq> None) \<and>
        length (e_workers e) = nat (do_workers (e_opts e))) \<and>
     (\<not> e_ready e \<longrightarrow> e_workers e = [] \<and> e_producers e = [] \<and> e_submitted e = []) \<and>
     (e_closed e \<longleftrightarrow> e_shutdown e \<noteq> Running) \<and>
     (e_drainDone e \<longleftrightarrow> e_shutdown e \<notin> {Running, Locking}) \<and>
     (e_drainDone e \<longrightarrow> e_producers e = []) \<and>
     int (e_wake e) \<le> do_workers (e_opts e) \<and> int (length (e_submitted e)) \<le> do_bufferSize (e_opts e)"

lemmas engine_defs = Enqueue_enter_def Enqueue_append_def Enqueue_return_def Enqueue_send_def refuse_def dropItem_def
  notifyWorker_def remove_nth_def queue_room_def lead_batch_def finish_batch_def put_worker_def batch_stored_def
  batch_failed_def release_claims_def flush_batch_def receive_item_def shutdown_begin_def shutdown_count_def
  shutdown_close_def shutdown_closed_def Let_def

lemma Engine_Start_cases:
  assumes "Engine_Start V e = ((err, recs), e1)"
  obtains "e1 = e" "recs = []" "e_closed e \<or> e_started e"
  | "\<not> e_closed e" "\<not> e_started e" "\<not> do_walEnabled (e_opts e)" "recs = []"
    "e1 = spawn_workers (Gather [] False) (e\<lparr>e_started := True\<rparr>)"
  | d1 where "\<not> e_closed e" "\<not> e_started e" "do_walEnabled (e_opts e)" "recs = []" "e1 = e\<lparr>e_started := True, e_disk := d1\<rparr>"
  | w d1 w2 d2 cerr where "\<not> e_closed e" "\<not> e_started e" "do_walEnabled (e_opts e)"
    "Open (dv_os V) (dv_windows V) (do_walDir (e_opts e)) (do_walOpts (e_opts e)) (e_disk e) = (Inr (w, recs), d1)"
    "wal_Close (dv_os V) w d1 = (cerr, w2, d2)" "e1 = e\<lparr>e_started := True, e_log := Some (new_walsys w2 d2)\<rparr>"
  | w d1 where "\<not> e_closed e" "\<not> e_started e" "do_walEnabled (e_opts e)"
    "Open (dv_os V) (dv_windows V) (do_walDir (e_opts e)) (do_walOpts (e_opts e)) (e_disk e) = (Inr (w, recs), d1)"
    "e1 = spawn_workers Claim (e\<lparr>e_started := True, e_log := Some (new_walsys w d1)\<rparr>)"
proof -
  consider "e_closed e \<or> e_started e" | "\<not> e_closed e" "\<not> e_started e" "\<not> do_walEnabled (e_opts e)"
    | "\<not> e_closed e" "\<not> e_started e" "do_walEnabled (e_opts e)"
    by blast
  then show thesis
  proof cases
    case 1
    then show thesis
      using assms that(1) by (simp add: Engine_Start_def split: if_splits)
  next
    case 2
    then show thesis
      using assms that(2) by (simp add: Engine_Start_def)
  next
    case 3
    obtain r d1 where opn: "Open (dv_os V) (dv_windows V) (do_walDir (e_opts e)) (do_walOpts (e_opts e)) (e_disk e) = (r, d1)"
      by (metis surj_pair)
    show thesis
    proof (cases r)
      case (Inl er)
      then show thesis
        using assms that(3) [of d1] 3 by (simp add: Engine_Start_def opn)
    next
      case (Inr wr)
      obtain w rs where wr: "wr = (w, rs)"
        by fastforce
      obtain cerr w2 d2 where cl: "wal_Close (dv_os V) w d1 = (cerr, w2, d2)"
        by (metis surj_pair)
      show thesis
        using assms that(4) [of w d1 cerr w2 d2] that(5) [of w d1] 3 Inr
        by (cases "decode_records (engine_codec e) rs") (simp_all add: Engine_Start_def Let_def opn wr cl)
    qed
  qed
qed

lemma durable_claim_life:
  "e_started (durable_claim os k sy e) = e_started e" "e_ready (durable_claim os k sy e) = e_ready e"
  "e_opts (durable_claim os k sy e) = e_opts e" "e_producers (durable_claim os k sy e) = e_producers e"
  "e_submitted (durable_claim os k sy e) = e_submitted e" "e_closed (durable_claim os k sy e) = e_closed e"
  "e_shutdown (durable_claim os k sy e) = e_shutdown e" "e_drainDone (durable_claim os k sy e) = e_drainDone e"
  "e_wake (durable_claim os k sy e) = e_wake e" "e_log (durable_claim os k sy e) \<noteq> None"
  "length (e_workers (durable_claim os k sy e)) = length (e_workers e)"
  by (auto simp: durable_claim_def claimBatch_def put_worker_def Let_def split: sum.splits list.splits prod.splits)

text \<open>Steps of producers, workers and the log.\<close>

lemma life_frame:
  assumes "life_ok e" "e_opts e1 = e_opts e" "(e_log e1 = None) = (e_log e = None)"
    "e_started e1 = e_started e" "e_ready e1 = e_ready e" "length (e_workers e1) = length (e_workers e)"
    "e_closed e1 = e_closed e" "e_shutdown e1 = e_shutdown e" "e_drainDone e1 = e_drainDone e"
    "e_producers e = [] \<Longrightarrow> e_producers e1 = []" "e_submitted e = [] \<Longrightarrow> e_producers e = [] \<Longrightarrow> e_submitted e1 = []"
    "int (e_wake e) \<le> do_workers (e_opts e) \<Longrightarrow> int (e_wake e1) \<le> do_workers (e_opts e)"
    "int (length (e_submitted e)) \<le> do_bufferSize (e_opts e) \<Longrightarrow> int (length (e_submitted e1)) \<le> do_bufferSize (e_opts e)"
  shows "life_ok e1 \<and> e_opts e1 = e_opts e"
proof -
  have "e_workers e1 = []" if "e_workers e = []"
    using that assms(6) by simp
  then show ?thesis
    using assms unfolding life_ok_def by (elim conjE) (intro conjI impI; simp)
qed

lemma remove_nth_Nil [simp]: "remove_nth k [] = []"
  by (simp add: remove_nth_def)

lemma life_step:
  assumes "dispatch_step V e evs e1" "life_ok e"
  shows "life_ok e1 \<and> e_opts e1 = e_opts e"
  using assms
proof (induction rule: dispatch_step.induct)
  case (d_start e err recs e1)
  from d_start(1) show ?case
    by (cases rule: Engine_Start_cases) (use d_start(2) in \<open>auto simp: life_ok_def spawn_workers_def options_ok_def\<close>)
next
  case (d_enter item e evs e1)
  then show ?case
    by (auto simp: life_ok_def Enqueue_enter_def split: if_splits)
next
  case (d_append k e item sy evs e1)
  then show ?case
    by (intro life_frame) (auto simp: engine_defs split: if_splits sum.splits)
next
  case (d_return k e off err item evs e1)
  then show ?case
    by (intro life_frame) (auto simp: engine_defs split: if_splits option.splits)
next
  case (d_claim k e sy)
  then show ?case
    by (intro life_frame) (simp_all add: durable_claim_life)
next
  case (d_shutdown e)
  then show ?case
    by (auto simp: life_ok_def shutdown_begin_def)
next
  case (d_locked e)
  then show ?case
    by (auto simp: life_ok_def)
next
  case (d_finished e)
  then show ?case
    by (auto simp: life_ok_def)
next
  case (d_expired e err)
  then show ?case
    by (auto simp: life_ok_def)
next
  case (d_count e errs)
  then show ?case
    by (auto simp: life_ok_def shutdown_count_def Let_def split: option.splits)
next
  case (d_close e errs sy)
  then show ?case
    by (auto simp: life_ok_def shutdown_close_def split: option.splits)
next
  case (d_closed e errs sy)
  then show ?case
    by (auto simp: life_ok_def shutdown_closed_def split: option.splits prod.splits)
next
  case (d_result e errs)
  then show ?case
    by (auto simp: life_ok_def)
next
  case (d_failed k e nx recs attempt err evs e1)
  then show ?case
    by (intro life_frame) (auto simp: batch_failed_def put_worker_def split: if_splits)
next
  case (d_receive k e recs draining)
  then show ?case
    by (intro life_frame) (auto simp: receive_item_def flush_batch_def put_worker_def Let_def)
qed (intro life_frame; auto simp: engine_defs split: if_splits)+

subsection \<open>Steps of an engine with a log\<close>

lemma durable_inv_nth:
  assumes "durable_inv V tr e sy" "k < length (e_workers e)"
  shows "durable_ok (engine_codec e) (sys_log sy) (fst ` set (stored tr)) (e_workers e ! k)"
  using assms delivery_okD(7) nth_mem unfolding durable_inv_def by metis

lemma durable_append_step:
  assumes inv: "durable_inv V tr e sy" and log: "e_log e = Some sy" and k: "k < length (e_producers e)"
    and eq: "Enqueue_append k item sy e = (evs, e1)"
  shows "\<exists>sy1. e_log e1 = Some sy1 \<and> durable_inv V (tr @ evs) e1 sy1"
proof (cases "\<exists>p cur idx. cd_Encode (engine_codec e) item = Inr p \<and> Append_begin (sy_wal sy) p (sy_cur sy) = Inr (cur, idx)")
  case True
  then obtain p cur idx where p: "cd_Encode (engine_codec e) item = Inr p" "Append_begin (sy_wal sy) p (sy_cur sy) = Inr (cur, idx)"
    by blast
  let ?sy = "sy\<lparr>sy_cur := cur\<rparr>"
  have out: "evs = []" "e1 = e\<lparr>e_log := Some ?sy, e_producers := (e_producers e)[k := InCur idx item]\<rparr>"
    using eq p by (simp_all add: Enqueue_append_def)
  have sys: "sys_inv sy"
    using inv by (simp add: durable_inv_def log_ok_def)
  have "durable_inv V (tr @ []) e1 ?sy"
  proof (rule durable_log [OF inv step_append [OF p(2)]])
    show "batch_ok ?sy (written tr @ published Silent)"
      using inv by (simp add: durable_inv_def batch_ok_def)
    show "producer_ok (engine_codec e) ?sy (written tr @ published Silent) pr" if "pr \<in> set (e_producers e1)" for pr
    proof -
      have "pr = InCur idx item \<or> pr \<in> set (e_producers e)"
        using that set_update_subset_insert [of "e_producers e" k "InCur idx item"] by (auto simp: out)
      then show ?thesis
        using inv producers_append(1) [OF sys p(2), of "engine_codec e" "written tr" pr]
          producers_append(2) [OF sys p(2), of "engine_codec e" "written tr" "Entered item" item] p(1)
        by (auto simp: durable_inv_def)
    qed
  qed (simp_all add: out)
  then show ?thesis
    by (auto simp: out)
next
  case False
  then obtain err where "refuse err k item e = (evs, e1)"
    using eq by (auto simp: Enqueue_append_def split: sum.splits)
  then have out: "e1 = e\<lparr>e_producers := remove_nth k (e_producers e), e_dropped := e_dropped e + 1\<rparr>"
    "written evs = []" "stored evs = []" "accepted Logged evs = []"
    by (auto simp: refuse_def dropItem_def)
  have "durable_inv V (tr @ evs) e1 sy"
    by (rule durable_frame [OF inv]) (use out log in \<open>auto dest: set_remove_nth [THEN subsetD]\<close>)
  then show ?thesis
    using out(1) log by auto
qed

lemma durable_return_step:
  assumes inv: "durable_inv V tr e sy" and log: "e_log e = Some sy"
    and k: "k < length (e_producers e)" "e_producers e ! k = Written off err item"
    and eq: "Enqueue_return k off err item e = (evs, e1)"
  shows "e_log e1 = Some sy \<and> durable_inv V (tr @ evs) e1 sy"
proof -
  have out: "e_log e1 = Some sy" "e_opts e1 = e_opts e" "e_workers e1 = e_workers e" "e_inFlight e1 = e_inFlight e"
    "e_producers e1 = remove_nth k (e_producers e)" "written evs = []" "stored evs = []" "e_shutdown e1 = e_shutdown e"
    "\<And>o' i. (o', i) \<in> set (accepted Logged evs) \<Longrightarrow> Written o' None i = e_producers e ! k"
    using eq log k(2) by (auto simp: Enqueue_return_def refuse_def dropItem_def notifyWorker_def split: option.splits if_splits)
  have "durable_inv V (tr @ evs) e1 sy"
    by (rule durable_frame [OF inv]) (use out nth_mem [OF k(1)] in \<open>auto dest: set_remove_nth [THEN subsetD]\<close>)
  then show ?thesis
    using out(1) by simp
qed

lemma durable_step:
  assumes "dispatch_step V e evs e1" "life_ok e" "e_log e = Some sy" "durable_inv V tr e sy"
  shows "\<exists>sy1. e_log e1 = Some sy1 \<and> durable_inv V (tr @ evs) e1 sy1"
  using assms
proof (induction rule: dispatch_step.induct)
  case (d_start e err recs e1)
  then have "e1 = e \<and> recs = []"
    by (auto simp: life_ok_def elim!: Engine_Start_cases)
  then show ?case
    using d_start durable_frame [OF d_start(4), of e "[Recovered []]"] by auto
next
  case (d_enter item e evs e1)
  have "durable_inv V (tr @ evs) e1 sy"
    by (rule durable_frame [OF d_enter(4)]) (use d_enter in \<open>auto simp: Enqueue_enter_def split: if_splits\<close>)
  then show ?case
    using d_enter by (auto simp: Enqueue_enter_def split: if_splits)
next
  case (d_append k e item sy' evs e1)
  then show ?case
    using durable_append_step [OF d_append(7,6,1)] by simp
next
  case (d_lead e sy')
  let ?sy = "sy\<lparr>sy_cur := getAppendBatch, sy_flight := Some (sy_cur sy, 0)\<rparr>"
  have "durable_inv V (tr @ []) (lead_batch sy e) ?sy"
  proof (rule durable_log [OF d_lead(5) step_lead])
    show "batch_ok ?sy (written tr @ published Silent)"
      by (simp add: batch_ok_def)
    show "producer_ok (engine_codec e) ?sy (written tr @ published Silent) pr" if "pr \<in> set (e_producers (lead_batch sy e))" for pr
      using that d_lead producers_lead [of _ sy] by (auto simp: lead_batch_def durable_inv_def)
  qed (use d_lead in \<open>auto simp: lead_batch_def\<close>)
  then show ?case
    using d_lead by (auto simp: lead_batch_def)
next
  case (d_round e sy' b i b1 i1 w1 d1)
  let ?sy = "sy\<lparr>sy_wal := w1, sy_disk := d1, sy_flight := Some (b1, i1)\<rparr>"
  have sy: "sy' = sy" and sys: "sys_inv sy" and bok: "batch_ok sy (written tr)"
    using d_round by (auto simp: durable_inv_def log_ok_def)
  note prods = producers_round [OF sys d_round(2-4) [unfolded sy] bok refl]
  have "durable_inv V (tr @ [Wrote (batch_results b1 i i1)]) (e\<lparr>e_log := Some ?sy\<rparr>) ?sy"
    by (rule durable_log [OF d_round(7) step_round [OF d_round(2-4) [unfolded sy]]])
      (use d_round(7) prods in \<open>auto simp: sy durable_inv_def\<close>)
  then show ?case
    using sy by auto
next
  case (d_finish e sy' b i)
  let ?sy = "sy\<lparr>sy_flight := None\<rparr>"
  have "durable_inv V (tr @ []) (finish_batch b sy e) ?sy"
  proof (rule durable_log [OF d_finish(6) step_finish])
    show "batch_ok ?sy (written tr @ published Silent)"
      by (simp add: batch_ok_def)
    show "producer_ok (engine_codec e) ?sy (written tr @ published Silent) pr" if "pr \<in> set (e_producers (finish_batch b sy e))" for pr
      using that d_finish producers_finish [OF _ _ d_finish(2,3)] by (auto simp: finish_batch_def durable_inv_def)
  qed (use d_finish in \<open>auto simp: finish_batch_def\<close>)
  then show ?case
    using d_finish by (auto simp: finish_batch_def)
next
  case (d_return k e off err item evs e1)
  then show ?case
    using durable_return_step [OF d_return(6,5,1,2,3)] by blast
next
  case (d_fsync e sy' f w1 d1)
  let ?sy = "sy\<lparr>sy_wal := w1, sy_disk := d1\<rparr>"
  have sy: "sy' = sy"
    using d_fsync by simp
  have "durable_inv V (tr @ []) (e\<lparr>e_log := Some ?sy\<rparr>) ?sy"
    by (rule durable_log [OF d_fsync(5) step_fsync [OF d_fsync(2) [unfolded sy]]])
      (use d_fsync(5) in \<open>auto simp: durable_inv_def\<close>)
  then show ?case
    using sy by auto
next
  case (d_claim k e sy')
  then show ?case
    using durable_claim_step [OF d_claim(6,1,2)] by simp
next
  case (d_stored k e nx recs attempt)
  then show ?case
    using durable_stored_step [OF d_stored(5,1,2,4)] by (auto simp: batch_stored_def put_worker_def)
next
  case (d_ack k e offs off rem sy')
  then show ?case
    using durable_ack_step [OF d_ack(6,1,2)] by (auto simp: put_worker_def)
next
  case (d_release k e offs)
  then show ?case
    using durable_release_step [OF d_release(5,1,2)] by (auto simp: release_claims_def put_worker_def notifyWorker_def)
next
  case (d_close e errs sy')
  have sy: "sy' = sy"
    using d_close by simp
  show ?case
  proof (cases "Close_begin (dv_os V) (sy_wal sy) (sy_disk sy)")
    case None
    then show ?thesis
      using d_close durable_frame [OF d_close(5), of "shutdown_close (dv_os V) errs sy e" "[]"]
      by (auto simp: shutdown_close_def)
  next
    case (Some wd)
    then obtain w1 d1 where cl: "Close_begin (dv_os V) (sy_wal sy) (sy_disk sy) = Some (w1, d1)"
      by (metis surj_pair)
    let ?sy = "sy\<lparr>sy_wal := w1, sy_disk := d1\<rparr>"
    have "durable_inv V (tr @ []) (shutdown_close (dv_os V) errs sy e) ?sy"
      by (rule durable_log [OF d_close(5) step_close [OF cl]])
        (use d_close(5) cl Close_begin_grows(2) [OF cl] in \<open>auto simp: shutdown_close_def durable_inv_def\<close>)
    then show ?thesis
      using sy cl by (auto simp: shutdown_close_def)
  qed
next
  case (d_closed e errs sy')
  obtain err w1 d1 where cl: "Close_end (dv_os V) (sy_wal sy) (sy_disk sy) = (err, w1, d1)"
    by (metis surj_pair)
  let ?sy = "sy\<lparr>sy_wal := w1, sy_disk := d1\<rparr>"
  have flag: "w_closed (sy_wal sy)"
    using d_closed by (simp add: durable_inv_def)
  have "durable_inv V (tr @ []) (shutdown_closed (dv_os V) errs sy e) ?sy"
    by (rule durable_log [OF d_closed(6) step_closed [OF _ flag cl]])
      (use d_closed cl in \<open>auto simp: shutdown_closed_def durable_inv_def\<close>)
  then show ?case
    using d_closed cl by (auto simp: shutdown_closed_def)
next
  case (d_count e errs)
  then show ?case
    using durable_frame [OF d_count(4), of "shutdown_count errs e" "[]"] by (simp add: shutdown_count_def Let_def)
next
  case (d_shutdown e)
  then show ?case
    using durable_frame [OF d_shutdown(3), of "shutdown_begin e" "[]"] by (auto simp: shutdown_begin_def)
next
  case (d_locked e)
  then show ?case
    using durable_frame [OF d_locked(5), of "e\<lparr>e_drainDone := True, e_shutdown := Waiting\<rparr>" "[]"] by auto
next
  case (d_finished e)
  then show ?case
    using durable_frame [OF d_finished(5), of "e\<lparr>e_shutdown := Counting []\<rparr>" "[]"] by auto
next
  case (d_expired e err)
  then show ?case
    using durable_frame [OF d_expired(4), of "e\<lparr>e_canceled := True, e_shutdown := Counting [err]\<rparr>" "[]"] by auto
next
  case (d_result e errs)
  then show ?case
    using durable_frame [OF d_result(4), of "e\<lparr>e_shutdown := Down\<rparr>" "[Returned (shutdown_result errs e)]"] by auto
next
  case (d_failed k e nx recs attempt err evs e1)
  have wk: "durable_ok (engine_codec e) (sys_log sy) (fst ` set (stored tr)) (Storing nx recs attempt)"
    using durable_inv_nth [OF d_failed(6,1)] d_failed(2) by simp
  then have "nx = ToClaim"
    by simp
  then have "durable_inv V (tr @ evs) e1 sy"
    using d_failed wk by (intro durable_worker [OF d_failed(6,1), of "e_workers e1 ! k"])
      (auto simp: batch_failed_def put_worker_def split: if_splits)
  then show ?case
    using d_failed by (auto simp: batch_failed_def put_worker_def split: if_splits)
next
  case (d_wake k e)
  then show ?case
    using durable_worker [OF d_wake(6,1), of Claim "put_worker k Claim (e\<lparr>e_wake := e_wake e - 1\<rparr>)" "[]"]
    by (simp add: put_worker_def)
next
  case (d_tick k e)
  then show ?case
    using durable_worker [OF d_tick(5,1), of Claim "put_worker k Claim e" "[]"] by (simp add: put_worker_def)
next
  case (d_drained k e)
  then show ?case
    using durable_worker [OF d_drained(6,1), of "Exited []" "put_worker k (Exited []) e" "[]"] by (simp add: put_worker_def)
next
  case (d_resume k e nx recs attempt delay)
  then show ?case
    using durable_worker [OF d_resume(5,1), of "Storing nx recs (attempt + 1)" "put_worker k (Storing nx recs (attempt + 1)) e" "[]"]
      durable_inv_nth [OF d_resume(5,1)] by (simp add: put_worker_def)
qed (use durable_inv_nth in fastforce)+

end
