(* ===== verification/DispatchQueue.thy ===== *)
theory DispatchQueue
  imports DispatchLog
begin

text \<open>
  Starting a dispatch engine, and the engine without a log: where the items of the channel are, and that
  every step keeps track of them.
\<close>

subsection \<open>Starting with a log\<close>

lemma written_Nil_durable:
  assumes ok: "disk_ok (wo_insecurePermissions wopts) (dv_windows V) (fst d)"
    and opn: "Open (dv_os V) (dv_windows V) dir wopts d = (Inr (w, recs), d1)"
  shows "log_ok V wopts (new_walsys w d1) recs" "sys_log (new_walsys w d1) = recs" "distinct (map fst recs)"
proof -
  have w: "wal_inv w d1" "wal_log w d1 = recs" "w_opts w = wopts" "disk_ok (wo_insecurePermissions wopts) (dv_windows V) (fst d1)"
    using Open_ok [OF opn ok] by auto
  then show "log_ok V wopts (new_walsys w d1) recs" "sys_log (new_walsys w d1) = recs"
    using log_issued [OF w(1)] by (auto simp: log_ok_def new_walsys_def sys_inv_def intro: exI [of _ "[]"])
  show "distinct (map fst recs)"
    using wal_log_distinct [OF w(1)] w(2) by simp
qed

text \<open>Closing the log of an engine that could not decode its records.\<close>

lemma wal_Close_log_ok:
  assumes ok: "log_ok V wopts (new_walsys w d) P" and cl: "wal_Close (dv_os V) w d = (cerr, w2, d2)"
  shows "log_ok V wopts (new_walsys w2 d2) P" "sys_log (new_walsys w2 d2) = sys_log (new_walsys w d)"
proof -
  have "log_ok V wopts (new_walsys w2 d2) P \<and> sys_log (new_walsys w2 d2) = sys_log (new_walsys w d)"
  proof (cases "Close_begin (dv_os V) w d")
    case None
    then show ?thesis
      using ok cl by (simp add: wal_Close_def)
  next
    case (Some wd)
    then obtain w1 d1 where b: "Close_begin (dv_os V) w d = Some (w1, d1)"
      by (metis surj_pair)
    then have en: "Close_end (dv_os V) w1 d1 = (cerr, w2, d2)"
      using cl by (simp add: wal_Close_def)
    have "wal_step (dv_os V) (new_walsys w d) Silent (new_walsys w1 d1)"
      using step_close [of "dv_os V" "new_walsys w d"] b by (simp add: new_walsys_def)
    then have one: "log_ok V wopts (new_walsys w1 d1) P" "sys_log (new_walsys w1 d1) = sys_log (new_walsys w d)"
      using log_ok_step(1,2) [OF ok] by fastforce+
    have "wal_step (dv_os V) (new_walsys w1 d1) Silent (new_walsys w2 d2)"
      using step_closed [of "new_walsys w1 d1" "dv_os V"] en Close_begin_grows(2) [OF b] by (simp add: new_walsys_def)
    then show ?thesis
      using log_ok_step(1,2) [OF one(1)] one(2) by fastforce
  qed
  then show "log_ok V wopts (new_walsys w2 d2) P" "sys_log (new_walsys w2 d2) = sys_log (new_walsys w d)"
    by auto
qed

lemma durable_start:
  assumes lok: "log_ok V (do_walOpts (e_opts e)) sy recs" "sys_log sy = recs" "distinct (map fst recs)" "sy_flight sy = None"
    and e: "e_inFlight e = {}" "e_producers e = []" "\<forall>wk \<in> set (e_workers e). wk = Claim" "e_shutdown e = Running"
    and tr: "written tr = []" "stored tr = []" "accepted Logged tr = []"
  shows "durable_inv V (tr @ [Recovered recs]) e sy"
proof -
  have "concat (map claims (e_workers e)) = []"
    using e(3) by auto
  then have "claims_ok {} (e_workers e)"
    unfolding claims_ok_def by (simp only: distinct.simps list.set)
  then have "delivery_ok (engine_codec e) recs recs [] {} (w_closed (sy_wal sy)) (e_workers e)"
    using lok(3) e(3) by (auto simp: delivery_ok_def)
  then show ?thesis
    using lok e(1,2,4) tr by (simp add: durable_inv_def batch_ok_def)
qed

subsection \<open>A running engine without a log\<close>

text \<open>The items a worker holds.\<close>

fun batch_held :: "'t dworker \<Rightarrow> 't envelope list" where
  "batch_held (Gather recs draining) = recs"
| "batch_held (Storing nx recs attempt) = recs"
| "batch_held (Pausing nx recs attempt delay) = recs"
| "batch_held wk = []"

fun resume_ok :: "bool \<Rightarrow> bool \<Rightarrow> resume \<Rightarrow> bool" where
  "resume_ok drained nothing ToClaim \<longleftrightarrow> False"
| "resume_ok drained nothing (ToGather draining) \<longleftrightarrow> draining \<longrightarrow> drained"
| "resume_ok drained nothing ToExit \<longleftrightarrow> drained \<and> nothing"

fun volatile_ok :: "bool \<Rightarrow> bool \<Rightarrow> 't dworker \<Rightarrow> bool" where
  "volatile_ok drained nothing (Gather recs draining) \<longleftrightarrow> draining \<longrightarrow> drained"
| "volatile_ok drained nothing (Storing nx recs attempt) \<longleftrightarrow> resume_ok drained nothing nx"
| "volatile_ok drained nothing (Pausing nx recs attempt delay) \<longleftrightarrow> resume_ok drained nothing nx"
| "volatile_ok drained nothing (Exited offs) \<longleftrightarrow> drained \<and> nothing"
| "volatile_ok drained nothing wk \<longleftrightarrow> False"

text \<open>
  Every item that went into the channel is there, with a worker, stored or given up; giving up leaves an
  error. Workers finish only when the channel is drained for good.
\<close>

definition volatile_inv :: "'x dispatch_env \<Rightarrow> 't dispatch_event list \<Rightarrow> ('t, 'x) Engine \<Rightarrow> bool" where
  "volatile_inv V tr e \<longleftrightarrow>
     written tr = [] \<and> accepted Logged tr = [] \<and> range Entered \<supseteq> set (e_producers e) \<and> e_inFlight e = {} \<and>
     mset (accepted Queued tr) =
       mset (e_submitted e) + mset (concat (map batch_held (e_workers e))) + mset (stored tr) + mset (gave_up tr) \<and>
     (\<forall>wk \<in> set (e_workers e). volatile_ok (e_drainDone e) (e_submitted e = []) wk) \<and>
     (gave_up tr \<noteq> [] \<longrightarrow> e_lastError e \<noteq> None) \<and>
     (\<not> e_ready e \<longrightarrow> accepted Queued tr = []) \<and>
     (\<not> e_started e \<longrightarrow>
        disk_ok (wo_insecurePermissions (do_walOpts (e_opts e))) (dv_windows V) (fst (e_disk e)))"

lemma volatile_okD:
  assumes "volatile_inv V tr e" "k < length (e_workers e)"
  shows "volatile_ok (e_drainDone e) (e_submitted e = []) (e_workers e ! k)"
  using assms nth_mem unfolding volatile_inv_def by metis

lemma resume_ok_mono: "resume_ok b c nx \<Longrightarrow> (b \<longrightarrow> b') \<Longrightarrow> (c \<longrightarrow> c') \<Longrightarrow> resume_ok b' c' nx"
  by (cases nx) auto

lemma volatile_ok_mono: "volatile_ok b c wk \<Longrightarrow> (b \<longrightarrow> b') \<Longrightarrow> (c \<longrightarrow> c') \<Longrightarrow> volatile_ok b' c' wk"
  by (cases wk) (auto intro: resume_ok_mono)

lemma volatile_ok_running: "volatile_ok False b wk \<Longrightarrow> volatile_ok False c wk"
proof -
  have "resume_ok False b nx \<Longrightarrow> resume_ok False c nx" for nx
    by (cases nx) auto
  then show "volatile_ok False b wk \<Longrightarrow> volatile_ok False c wk"
    by (cases wk) auto
qed

lemma volatile_frame:
  assumes inv: "volatile_inv V tr e" and same: "e_workers e1 = e_workers e" "e_submitted e1 = e_submitted e" "e_inFlight e1 = e_inFlight e"
      "e_ready e1 = e_ready e" "e_started e1 = e_started e" "e_disk e1 = e_disk e" "e_opts e1 = e_opts e"
      "e_lastError e1 = e_lastError e" "e_drainDone e \<longrightarrow> e_drainDone e1"
    and prods: "set (e_producers e1) \<subseteq> set (e_producers e) \<union> range Entered"
    and evs: "written evs = []" "stored evs = []" "gave_up evs = []" "accepted Logged evs = []" "accepted Queued evs = []"
  shows "volatile_inv V (tr @ evs) e1"
proof -
  have "volatile_ok (e_drainDone e1) (e_submitted e = []) wk" if "wk \<in> set (e_workers e)" for wk
    using inv that same(9) volatile_ok_mono [of "e_drainDone e" "e_submitted e = []" wk] by (auto simp: volatile_inv_def)
  moreover have "set (e_producers e1) \<subseteq> range Entered"
    using inv prods by (auto simp: volatile_inv_def)
  ultimately show ?thesis
    using inv evs unfolding volatile_inv_def same(1-8) by (elim conjE) (intro conjI; simp)
qed

text \<open>A step of a worker.\<close>

lemma held_update:
  assumes "k < length ws"
  shows "mset (concat (map batch_held (ws[k := wk]))) + mset (batch_held (ws ! k)) =
    mset (concat (map batch_held ws)) + mset (batch_held wk)"
  unfolding concat_map_update [OF assms] by simp

lemma volatile_worker:
  assumes inv: "volatile_inv V tr e" and k: "k < length (e_workers e)"
    and e1: "e_workers e1 = (e_workers e)[k := wk]" "e_inFlight e1 = e_inFlight e" "e_producers e1 = e_producers e"
      "e_ready e1 = e_ready e" "e_started e1 = e_started e" "e_disk e1 = e_disk e" "e_opts e1 = e_opts e"
      "e_drainDone e1 = e_drainDone e"
    and items: "mset (e_submitted e) + mset (batch_held (e_workers e ! k)) =
        mset (e_submitted e1) + mset (batch_held wk) + mset (stored evs) + mset (gave_up evs)"
      "e_submitted e = [] \<longrightarrow> e_submitted e1 = []"
    and err: "e_lastError e = None \<longrightarrow> e_lastError e1 = None \<longrightarrow> gave_up evs = []" "e_lastError e \<noteq> None \<longrightarrow> e_lastError e1 \<noteq> None"
    and wk: "volatile_ok (e_drainDone e) (e_submitted e1 = []) wk"
    and evs: "written evs = []" "accepted Logged evs = []" "accepted Queued evs = []"
  shows "volatile_inv V (tr @ evs) e1"
proof -
  let ?ws = "e_workers e"
  have "mset (accepted Queued tr) =
      mset (e_submitted e) + mset (concat (map batch_held ?ws)) + mset (stored tr) + mset (gave_up tr)"
    using inv by (simp add: volatile_inv_def)
  also have "\<dots> = mset (e_submitted e1) + mset (concat (map batch_held (?ws[k := wk]))) +
      mset (stored tr @ stored evs) + mset (gave_up tr @ gave_up evs)"
  proof (rule multiset_eqI)
    fix x
    show "count (mset (e_submitted e) + mset (concat (map batch_held ?ws)) + mset (stored tr) + mset (gave_up tr)) x =
      count (mset (e_submitted e1) + mset (concat (map batch_held (?ws[k := wk]))) +
        mset (stored tr @ stored evs) + mset (gave_up tr @ gave_up evs)) x"
      using arg_cong [OF held_update [OF k, of wk], of "\<lambda>M. count M x"] arg_cong [OF items(1), of "\<lambda>M. count M x"]
      by (simp add: count_mset)
  qed
  finally have ms: "mset (accepted Queued tr) = \<dots>" .
  have workers: "\<forall>w \<in> set (?ws[k := wk]). volatile_ok (e_drainDone e) (e_submitted e1 = []) w"
  proof
    fix w
    assume "w \<in> set (?ws[k := wk])"
    then have "w = wk \<or> volatile_ok (e_drainDone e) (e_submitted e = []) w"
      using inv by (auto simp: volatile_inv_def dest!: set_update_cases)
    then show "volatile_ok (e_drainDone e) (e_submitted e1 = []) w"
      using wk items(2) volatile_ok_mono [of _ "e_submitted e = []" w _ "e_submitted e1 = []"] by blast
  qed
  have "gave_up (tr @ evs) \<noteq> [] \<longrightarrow> e_lastError e1 \<noteq> None"
    using inv err by (auto simp: volatile_inv_def)
  then show ?thesis
    using inv ms workers evs unfolding volatile_inv_def e1 by (elim conjE) (intro conjI; simp)
qed

lemma volatile_start_step:
  assumes inv: "volatile_inv V tr e" and life: "life_ok e" and log: "e_log e = None"
    and start: "Engine_Start V e = ((err, recs), e1)"
  shows "case e_log e1 of None \<Rightarrow> volatile_inv V (tr @ [Recovered recs]) e1
    | Some sy \<Rightarrow> durable_inv V (tr @ [Recovered recs]) e1 sy \<and> accepted Queued tr = []"
proof -
  have fresh: "e_workers e = []" "e_producers e = []" "e_submitted e = []" "\<not> e_ready e" "e_shutdown e = Running"
    if "\<not> e_closed e" "\<not> e_started e"
    using life that by (auto simp: life_ok_def)
  have clean: "accepted Queued tr = []" "stored tr = []" "gave_up tr = []" if "\<not> e_closed e" "\<not> e_started e"
    using inv fresh [OF that] by (auto simp: volatile_inv_def)
  have base: "written tr = []" "accepted Logged tr = []" "e_inFlight e = {}"
    and disk: "\<not> e_started e \<Longrightarrow> disk_ok (wo_insecurePermissions (do_walOpts (e_opts e))) (dv_windows V) (fst (e_disk e))"
    using inv by (auto simp: volatile_inv_def)
  from start show ?thesis
  proof (cases rule: Engine_Start_cases)
    case 1
    then show ?thesis
      using volatile_frame [OF inv, of e "[Recovered []]"] log by simp
  next
    case 2
    then show ?thesis
      using base clean [OF 2(1,2)] fresh [OF 2(1,2)] log by (auto simp: volatile_inv_def spawn_workers_def)
  next
    case (3 d1)
    then show ?thesis
      using base clean [OF 3(1,2)] fresh [OF 3(1,2)] log by (auto simp: volatile_inv_def)
  next
    case (4 w d1 w2 d2 cerr)
    note lok = written_Nil_durable [OF disk [OF 4(2)] 4(4)]
    note lok2 = wal_Close_log_ok [OF lok(1) 4(5)]
    have "durable_inv V (tr @ [Recovered recs]) e1 (new_walsys w2 d2)"
      by (rule durable_start) (use lok lok2 base clean [OF 4(1,2)] fresh [OF 4(1,2)] in \<open>auto simp: 4(6) new_walsys_def\<close>)
    then show ?thesis
      using clean [OF 4(1,2)] by (simp add: 4(6))
  next
    case (5 w d1)
    note lok = written_Nil_durable [OF disk [OF 5(2)] 5(4)]
    have "durable_inv V (tr @ [Recovered recs]) e1 (new_walsys w d1)"
      by (rule durable_start)
        (use lok base clean [OF 5(1,2)] fresh [OF 5(1,2)] in \<open>auto simp: 5(5) new_walsys_def spawn_workers_def\<close>)
    then show ?thesis
      using clean [OF 5(1,2)] by (simp add: 5(5) spawn_workers_def)
  qed
qed

lemma resumed_ok:
  assumes "resume_ok b c nx"
  shows "volatile_ok b c (resumed nx offs)" "batch_held (resumed nx offs) = []"
  using assms by (cases nx; simp)+

lemma volatile_step:
  assumes "dispatch_step V e evs e1" "life_ok e" "e_log e = None" "volatile_inv V tr e"
  shows "case e_log e1 of None \<Rightarrow> volatile_inv V (tr @ evs) e1
    | Some sy \<Rightarrow> durable_inv V (tr @ evs) e1 sy \<and> accepted Queued (tr @ evs) = []"
  using assms
proof (induction rule: dispatch_step.induct)
  case (d_start e err recs e1)
  then show ?case
    using volatile_start_step [OF d_start(4,2,3,1)] by (simp split: option.splits)
next
  case (d_enter item e evs e1)
  have "volatile_inv V (tr @ evs) e1"
    by (rule volatile_frame [OF d_enter(4)]) (use d_enter in \<open>auto simp: Enqueue_enter_def split: if_splits\<close>)
  then show ?case
    using d_enter by (auto simp: Enqueue_enter_def split: if_splits)
next
  case (d_return k e off err item evs e1)
  then have "Written off err item \<in> range Entered"
    using nth_mem [OF d_return(1)] by (auto simp: volatile_inv_def)
  then show ?case
    by auto
next
  case (d_send k e item evs e1)
  have "\<not> e_drainDone e"
    using d_send by (auto simp: life_ok_def)
  moreover have "e_ready e"
    using d_send by (auto simp: life_ok_def)
  moreover have "set (remove_nth k (e_producers e)) \<subseteq> range Entered"
    using d_send(8) by (auto simp: volatile_inv_def dest: set_remove_nth [THEN subsetD])
  moreover have "volatile_ok False False wk" if "wk \<in> set (e_workers e)" for wk
    by (rule volatile_ok_running [of "e_submitted e = []"]) (use d_send(8) \<open>\<not> e_drainDone e\<close> that in \<open>simp add: volatile_inv_def\<close>)
  ultimately show ?case
    using d_send by (auto simp: Enqueue_send_def volatile_inv_def)
next
  case (d_full k e item evs e1)
  have "volatile_inv V (tr @ evs) e1"
    by (rule volatile_frame [OF d_full(9)])
      (use d_full in \<open>auto simp: refuse_def dropItem_def dest: set_remove_nth [THEN subsetD] split: if_splits\<close>)
  then show ?case
    using d_full by (auto simp: refuse_def dropItem_def split: if_splits)
next
  case (d_abort k e item)
  then show ?case
    using volatile_frame [OF d_abort(8), of "e\<lparr>e_producers := remove_nth k (e_producers e)\<rparr>" "[Refused ErrEngineClosed item]"]
    by (auto dest: set_remove_nth [THEN subsetD])
next
  case (d_stored k e nx recs attempt)
  have nx: "resume_ok (e_drainDone e) (e_submitted e = []) nx"
    using volatile_okD [OF d_stored(5,1)] d_stored(2) by simp
  have "volatile_inv V (tr @ [Stored recs]) (batch_stored k nx recs e)"
    by (rule volatile_worker [OF d_stored(5,1), of _ "resumed nx []"])
      (use d_stored resumed_ok [OF nx] in \<open>auto simp: batch_stored_def put_worker_def\<close>)
  then show ?case
    using d_stored by (simp add: batch_stored_def put_worker_def)
next
  case (d_failed k e nx recs attempt err evs e1)
  have nx: "resume_ok (e_drainDone e) (e_submitted e = []) nx"
    using volatile_okD [OF d_failed(6,1)] d_failed(2) by simp
  have "volatile_inv V (tr @ evs) e1"
    by (rule volatile_worker [OF d_failed(6,1), of _ "e_workers e1 ! k"])
      (use d_failed nx resumed_ok [OF nx] in \<open>auto simp: batch_failed_def put_worker_def split: if_splits\<close>)
  then show ?case
    using d_failed by (auto simp: batch_failed_def put_worker_def split: if_splits)
next
  case (d_resume k e nx recs attempt delay)
  have "volatile_inv V (tr @ []) (put_worker k (Storing nx recs (attempt + 1)) e)"
    by (rule volatile_worker [OF d_resume(5,1), of _ "Storing nx recs (attempt + 1)"])
      (use d_resume volatile_okD [OF d_resume(5,1)] in \<open>auto simp: put_worker_def\<close>)
  then show ?case
    using d_resume by (simp add: put_worker_def)
next
  case (d_receive k e recs draining)
  obtain x xs where sub: "e_submitted e = x # xs"
    using d_receive(3) by (cases "e_submitted e") auto
  let ?e = "receive_item k recs draining e"
  have "draining \<longrightarrow> e_drainDone e"
    using volatile_okD [OF d_receive(6,1)] d_receive(2) by simp
  then have "volatile_inv V (tr @ []) ?e"
    by (intro volatile_worker [OF d_receive(6,1), of _ "e_workers ?e ! k"])
      (use d_receive sub in \<open>auto simp: receive_item_def flush_batch_def put_worker_def Let_def\<close>)
  moreover have "e_log ?e = None"
    using d_receive(5) by (simp add: receive_item_def flush_batch_def put_worker_def Let_def)
  ultimately show ?case
    by simp
next
  case (d_flush k e recs)
  have "volatile_inv V (tr @ []) (flush_batch k (ToGather False) recs e)"
    by (rule volatile_worker [OF d_flush(5,1), of _ "e_workers (flush_batch k (ToGather False) recs e) ! k"])
      (use d_flush in \<open>auto simp: flush_batch_def put_worker_def\<close>)
  moreover have "e_log (flush_batch k (ToGather False) recs e) = None"
    using d_flush by (simp add: flush_batch_def put_worker_def)
  ultimately show ?case
    by simp
next
  case (d_drain k e recs)
  have "volatile_inv V (tr @ []) (put_worker k (Gather recs True) e)"
    by (rule volatile_worker [OF d_drain(6,1), of _ "Gather recs True"]) (use d_drain in \<open>auto simp: put_worker_def\<close>)
  then show ?case
    using d_drain by (simp add: put_worker_def)
next
  case (d_empty k e recs)
  have "e_drainDone e"
    using volatile_okD [OF d_empty(6,1)] d_empty(2) by simp
  then have "volatile_inv V (tr @ []) (flush_batch k ToExit recs e)"
    by (intro volatile_worker [OF d_empty(6,1), of _ "e_workers (flush_batch k ToExit recs e) ! k"])
      (use d_empty in \<open>auto simp: flush_batch_def put_worker_def\<close>)
  moreover have "e_log (flush_batch k ToExit recs e) = None"
    using d_empty by (simp add: flush_batch_def put_worker_def)
  ultimately show ?case
    by simp
next
  case (d_shutdown e)
  then show ?case
    using volatile_frame [OF d_shutdown(3), of "shutdown_begin e" "[]"] by (auto simp: shutdown_begin_def)
next
  case (d_locked e)
  then show ?case
    using volatile_frame [OF d_locked(5), of "e\<lparr>e_drainDone := True, e_shutdown := Waiting\<rparr>" "[]"] by auto
next
  case (d_finished e)
  then show ?case
    using volatile_frame [OF d_finished(5), of "e\<lparr>e_shutdown := Counting []\<rparr>" "[]"] by auto
next
  case (d_expired e err)
  then show ?case
    using volatile_frame [OF d_expired(4), of "e\<lparr>e_canceled := True, e_shutdown := Counting [err]\<rparr>" "[]"] by auto
next
  case (d_count e errs)
  then show ?case
    using volatile_frame [OF d_count(4), of "shutdown_count errs e" "[]"] by (simp add: shutdown_count_def)
next
  case (d_result e errs)
  then show ?case
    using volatile_frame [OF d_result(4), of "e\<lparr>e_shutdown := Down\<rparr>" "[Returned (shutdown_result errs e)]"] by auto
qed (use volatile_okD in fastforce)+

end
