(* ===== verification/Dispatch.thy ===== *)
theory Dispatch
  imports DispatchQueue Wal
begin

text \<open>
  The properties of the dispatch engine: no item that a producer was told is logged is lost, not even in
  a crash, no record is delivered twice, and a shutdown without an error has delivered everything.
\<close>

subsection \<open>Shutting down\<close>

text \<open>Once the producers are out, nothing is accepted any more, and workers that have returned stay so.\<close>

lemma late_step:
  assumes "dispatch_step V e evs e1" "life_ok e" "e_drainDone e"
  shows "accepted tier evs = [] \<and> e_drainDone e1 \<and> (list_all is_exited (e_workers e) \<longrightarrow> list_all is_exited (e_workers e1))"
  using assms
proof (induction rule: dispatch_step.induct)
  case (d_start e err recs e1)
  have "e_closed e"
    using d_start by (auto simp: life_ok_def)
  then show ?case
    using d_start by (auto elim!: Engine_Start_cases)
next
  case (d_enter item e evs e1)
  then show ?case
    by (auto simp: life_ok_def Enqueue_enter_def)
next
  case (d_claim k e sy)
  then have "\<not> list_all is_exited (e_workers e)"
    by (auto simp: list_all_length)
  then show ?case
    using d_claim by (simp add: durable_claim_life)
next
  case (d_failed k e nx recs attempt err evs e1)
  then have "\<not> list_all is_exited (e_workers e)"
    by (auto simp: list_all_length)
  then show ?case
    using d_failed by (auto simp: batch_failed_def put_worker_def split: if_splits)
next
  case (d_count e errs)
  then show ?case
    by (auto simp: shutdown_count_def Let_def split: option.splits)
next
  case (d_close e errs sy)
  then show ?case
    by (auto simp: shutdown_close_def split: option.splits)
next
  case (d_closed e errs sy)
  then show ?case
    by (auto simp: shutdown_closed_def split: prod.splits)
qed (auto simp: life_ok_def list_all_length put_worker_def batch_stored_def release_claims_def notifyWorker_def
    lead_batch_def finish_batch_def receive_item_def flush_batch_def shutdown_begin_def Let_def)

definition all_logged_stored :: "'t dispatch_event list \<Rightarrow> bool" where
  "all_logged_stored tr \<longleftrightarrow> fst ` set (accepted Logged tr) \<subseteq> fst ` set (stored tr)"

text \<open>What is known while no error has come up.\<close>

definition shutdown_inv :: "'t dispatch_event list \<Rightarrow> ('t, 'x) Engine \<Rightarrow> bool" where
  "shutdown_inv tr e \<longleftrightarrow>
     (e_shutdown e = Counting [] \<longrightarrow> list_all is_exited (e_workers e)) \<and>
     (e_shutdown e \<in> {ClosingLog [], ClosedLog []} \<longrightarrow> all_logged_stored tr) \<and>
     (e_shutdown e = Finishing [] \<longrightarrow>
        (if e_log e = None then list_all is_exited (e_workers e) else all_logged_stored tr)) \<and>
     (Returned None \<in> set tr \<longrightarrow>
        e_drainDone e \<and> all_logged_stored tr \<and> mset (accepted Queued tr) \<subseteq># mset (stored tr))"

definition engine_inv :: "'x dispatch_env \<Rightarrow> 't dispatch_event list \<Rightarrow> ('t, 'x) Engine \<Rightarrow> bool" where
  "engine_inv V tr e \<longleftrightarrow> life_ok e \<and>
     (case e_log e of None \<Rightarrow> volatile_inv V tr e | Some sy \<Rightarrow> durable_inv V tr e sy \<and> accepted Queued tr = []) \<and>
     shutdown_inv tr e"

lemma logged_written:
  assumes "durable_inv V tr e sy" "(off, item) \<in> set (accepted Logged tr)"
  obtains p where "(off, p) \<in> set (written tr)" "cd_Encode (engine_codec e) item = Inr p"
  using assms unfolding durable_inv_def by blast

lemma durable_all_stored:
  assumes inv: "durable_inv V tr e sy" and none: "\<not> st_Pending (Stats (sy_wal sy)) > 0"
  shows "all_logged_stored tr"
proof -
  have "wal_inv (sy_wal sy) (sy_disk sy)"
    using inv by (simp add: durable_inv_def log_ok_def sys_inv_def)
  then have log: "sys_log sy = []"
    using Stats_pending none by fastforce
  have "off \<in> fst ` set (stored tr)" if "(off, item) \<in> set (accepted Logged tr)" for off item
  proof -
    obtain p where "(off, p) \<in> set (written tr)"
      using logged_written [OF inv \<open>(off, item) \<in> set (accepted Logged tr)\<close>] .
    moreover have "delivery_ok (engine_codec e) (written tr) (sys_log sy) (stored tr) (e_inFlight e) (w_closed (sy_wal sy)) (e_workers e)"
      using inv by (simp add: durable_inv_def)
    ultimately show ?thesis
      using delivery_okD(3) log by fastforce
  qed
  then show ?thesis
    by (auto simp: all_logged_stored_def)
qed

lemma volatile_all_stored:
  assumes inv: "volatile_inv V tr e" and life: "life_ok e" and exited: "list_all is_exited (e_workers e)"
    and err: "e_lastError e = None"
  shows "mset (accepted Queued tr) \<subseteq># mset (stored tr)" "all_logged_stored tr"
proof -
  show "all_logged_stored tr"
    using inv by (simp add: volatile_inv_def all_logged_stored_def)
  show "mset (accepted Queued tr) \<subseteq># mset (stored tr)"
  proof (cases "e_ready e")
    case False
    then show ?thesis
      using inv by (simp add: volatile_inv_def)
  next
    case True
    then have "0 < length (e_workers e)"
      using life by (auto simp: life_ok_def options_ok_def)
    then obtain offs where "e_workers e ! 0 = Exited offs"
      using exited by (metis is_exited.elims(2) list_all_length)
    then have "e_submitted e = []"
      using volatile_okD [OF inv \<open>0 < length (e_workers e)\<close>] by simp
    moreover have "batch_held wk = []" if "wk \<in> set (e_workers e)" for wk
      using exited that by (cases wk) (auto simp: list_all_iff)
    ultimately show ?thesis
      using inv err by (auto simp: volatile_inv_def)
  qed
qed

text \<open>How the call of \<^verbatim>\<open>Shutdown\<close> moves on.\<close>

definition shutdown_same :: "('t, 'x) Engine \<Rightarrow> 't dispatch_event list \<Rightarrow> ('t, 'x) Engine \<Rightarrow> bool" where
  "shutdown_same e evs e1 \<longleftrightarrow> e_shutdown e1 = e_shutdown e \<and> (\<forall>r. Returned r \<notin> set evs) \<and>
     (e_log e = None \<and> e_closed e \<longrightarrow> e_log e1 = None) \<and> (e_log e \<noteq> None \<longrightarrow> e_log e1 \<noteq> None)"

definition shutdown_moved :: "'x dispatch_env \<Rightarrow> ('t, 'x) Engine \<Rightarrow> ('t, 'x) Engine \<Rightarrow> bool" where
  "shutdown_moved V e e1 \<longleftrightarrow>
     e_shutdown e1 \<in> {Locking, Waiting} \<or>
     e_shutdown e1 = Counting [] \<and> list_all is_exited (e_workers e1) \<or>
     (\<exists>err. e_shutdown e1 = Counting [err]) \<or>
     (\<exists>errs. e_shutdown e = Counting errs \<and> e1 = shutdown_count errs e) \<or>
     (\<exists>errs sy. e_shutdown e = ClosingLog errs \<and> e_log e = Some sy \<and> e1 = shutdown_close (dv_os V) errs sy e) \<or>
     (\<exists>errs sy. e_shutdown e = ClosedLog errs \<and> e_log e = Some sy \<and> e1 = shutdown_closed (dv_os V) errs sy e)"

lemma shutdown_moves:
  assumes "dispatch_step V e evs e1"
  shows "shutdown_same e evs e1 \<or> evs = [] \<and> shutdown_moved V e e1 \<or>
    (\<exists>errs. e_shutdown e = Finishing errs \<and> evs = [Returned (shutdown_result errs e)] \<and> e1 = e\<lparr>e_shutdown := Down\<rparr>)"
  using assms
proof (induction rule: dispatch_step.induct)
  case (d_start e err recs e1)
  then show ?case
    by (cases rule: Engine_Start_cases) (auto simp: shutdown_same_def spawn_workers_def)
next
  case (d_enter item e evs e1)
  then show ?case
    by (auto simp: shutdown_same_def Enqueue_enter_def split: if_splits)
next
  case (d_append k e item sy evs e1)
  then show ?case
    by (auto simp: shutdown_same_def Enqueue_append_def refuse_def dropItem_def split: if_splits sum.splits)
next
  case (d_return k e off err item evs e1)
  then show ?case
    by (auto simp: shutdown_same_def Enqueue_return_def refuse_def dropItem_def notifyWorker_def split: if_splits option.splits)
next
  case (d_claim k e sy)
  then show ?case
    by (simp add: shutdown_same_def durable_claim_life)
next
  case (d_failed k e nx recs attempt err evs e1)
  then show ?case
    by (auto simp: shutdown_same_def batch_failed_def put_worker_def split: if_splits)
next
  case (d_receive k e recs draining)
  then show ?case
    by (simp add: shutdown_same_def receive_item_def flush_batch_def put_worker_def Let_def)
next
  case (d_shutdown e)
  then show ?case
    by (simp add: shutdown_same_def shutdown_moved_def shutdown_begin_def)
next
  case (d_count e errs)
  then have "shutdown_moved V e (shutdown_count errs e)"
    by (simp add: shutdown_moved_def)
  then show ?case
    by blast
next
  case (d_close e errs sy)
  then have "shutdown_moved V e (shutdown_close (dv_os V) errs sy e)"
    by (simp add: shutdown_moved_def)
  then show ?case
    by blast
next
  case (d_closed e errs sy)
  then have "shutdown_moved V e (shutdown_closed (dv_os V) errs sy e)"
    by (simp add: shutdown_moved_def)
  then show ?case
    by blast
next
  case (d_result e errs)
  then show ?case
    by blast
qed (auto simp: shutdown_same_def shutdown_moved_def refuse_def dropItem_def Enqueue_send_def notifyWorker_def
    lead_batch_def finish_batch_def put_worker_def batch_stored_def release_claims_def flush_batch_def)

lemma all_logged_stored_mono: "all_logged_stored tr \<Longrightarrow> accepted Logged evs = [] \<Longrightarrow> all_logged_stored (tr @ evs)"
  by (simp add: all_logged_stored_def trace_rules image_Un) blast

lemma shutdown_result_None: "shutdown_result errs e = None \<longleftrightarrow> errs = [] \<and> e_lastError e = None"
  by (auto simp: shutdown_result_def errors_Join_None split: option.splits)

abbreviation tier_inv :: "'x dispatch_env \<Rightarrow> 't dispatch_event list \<Rightarrow> ('t, 'x) Engine \<Rightarrow> bool" where
  "tier_inv V tr e \<equiv>
     (case e_log e of None \<Rightarrow> volatile_inv V tr e | Some sy \<Rightarrow> durable_inv V tr e sy \<and> accepted Queued tr = [])"

lemma shutdown_inv_same:
  assumes step: "dispatch_step V e evs e1" and life: "life_ok e" and inv: "shutdown_inv tr e" and same: "shutdown_same e evs e1"
  shows "shutdown_inv (tr @ evs) e1"
proof (cases "e_drainDone e")
  case True
  have "e_closed e"
    using life True by (auto simp: life_ok_def)
  moreover have "accepted tier (tr @ evs) = accepted tier tr" for tier
    using late_step [OF step life True, of tier] by (simp add: accepted_def)
  moreover have "mset (stored tr) \<subseteq># mset (stored (tr @ evs))"
    by (simp add: stored_def)
  moreover have "all_logged_stored tr \<Longrightarrow> all_logged_stored (tr @ evs)"
    using late_step [OF step life True, of Logged] all_logged_stored_mono by blast
  ultimately show ?thesis
    using late_step [OF step life True] inv same unfolding shutdown_inv_def shutdown_same_def
    by (auto intro: subset_mset.order_trans)
next
  case False
  then have "e_shutdown e \<in> {Running, Locking}"
    using life by (auto simp: life_ok_def)
  then show ?thesis
    using inv same False unfolding shutdown_inv_def shutdown_same_def by auto
qed

lemma shutdown_inv_moved:
  assumes step: "dispatch_step V e [] e1" and life: "life_ok e" and inv: "shutdown_inv tr e" and moved: "shutdown_moved V e e1"
    and tier: "tier_inv V tr e"
  shows "shutdown_inv tr e1"
proof -
  have ret: "e_drainDone e1" if "e_drainDone e"
    using late_step [OF step life that] by simp
  consider "e_shutdown e1 \<in> {Locking, Waiting}" | "e_shutdown e1 = Counting []" "list_all is_exited (e_workers e1)"
    | err where "e_shutdown e1 = Counting [err]"
    | errs where "e_shutdown e = Counting errs" "e1 = shutdown_count errs e"
    | errs sy where "e_shutdown e = ClosingLog errs" "e_log e = Some sy" "e1 = shutdown_close (dv_os V) errs sy e"
    | errs sy where "e_shutdown e = ClosedLog errs" "e_log e = Some sy" "e1 = shutdown_closed (dv_os V) errs sy e"
    using moved unfolding shutdown_moved_def by blast
  then show ?thesis
  proof cases
    case (4 errs)
    then show ?thesis
      using inv tier ret by (auto simp: shutdown_inv_def shutdown_count_def Let_def durable_all_stored split: option.splits)
  next
    case (5 errs sy)
    then show ?thesis
      using inv ret by (auto simp: shutdown_inv_def shutdown_close_def split: option.splits)
  next
    case (6 errs sy)
    then show ?thesis
      using inv ret by (auto simp: shutdown_inv_def shutdown_closed_def split: option.splits prod.splits)
  qed (use inv ret in \<open>auto simp: shutdown_inv_def\<close>)
qed

lemma shutdown_inv_result:
  assumes life: "life_ok e" and inv: "shutdown_inv tr e" and tier: "tier_inv V tr e" and fin: "e_shutdown e = Finishing errs"
  shows "shutdown_inv (tr @ [Returned (shutdown_result errs e)]) (e\<lparr>e_shutdown := Down\<rparr>)"
proof -
  have "all_logged_stored tr \<and> mset (accepted Queued tr) \<subseteq># mset (stored tr)" if "shutdown_result errs e = None"
    using inv fin that tier life volatile_all_stored [of V tr e]
    by (auto simp: shutdown_inv_def shutdown_result_None split: option.splits)
  moreover have "e_drainDone e"
    using life fin by (simp add: life_ok_def)
  ultimately show ?thesis
    using inv by (auto simp: shutdown_inv_def all_logged_stored_def accepted_def stored_def)
qed

lemma durable_step_tier:
  assumes "dispatch_step V e evs e1" "e_log e \<noteq> None"
  shows "accepted Queued evs = []"
  using assms
  by (induction rule: dispatch_step.induct)
    (auto simp: trace_rules Enqueue_enter_def Enqueue_append_def Enqueue_return_def refuse_def dropItem_def batch_failed_def
      split: if_splits sum.splits option.splits prod.splits)

lemma engine_step:
  assumes step: "dispatch_step V e evs e1" and inv: "engine_inv V tr e"
  shows "engine_inv V (tr @ evs) e1" "e_opts e1 = e_opts e"
proof -
  have life: "life_ok e" and tier: "tier_inv V tr e" and shut: "shutdown_inv tr e"
    using inv by (simp_all add: engine_inv_def)
  have life1: "life_ok e1 \<and> e_opts e1 = e_opts e"
    by (rule life_step [OF step life])
  have "tier_inv V (tr @ evs) e1"
  proof (cases "e_log e")
    case None
    then show ?thesis
      using volatile_step [OF step life None] tier by simp
  next
    case (Some sy)
    then have "accepted Queued evs = []"
      using durable_step_tier [OF step] by simp
    then show ?thesis
      using durable_step [OF step life Some, of tr] tier Some by (auto simp: trace_rules)
  qed
  moreover have "shutdown_inv (tr @ evs) e1"
    using shutdown_moves [OF step] shutdown_inv_same [OF step life shut] shutdown_inv_moved [OF _ life shut _ tier]
      shutdown_inv_result [OF life shut tier] step
    by (elim disjE exE conjE) (simp_all add: shutdown_same_def)
  ultimately show "engine_inv V (tr @ evs) e1" "e_opts e1 = e_opts e"
    using life1 by (simp_all add: engine_inv_def)
qed

text \<open>A run of a new engine keeps the invariant.\<close>

lemma NewEngine_inv:
  assumes "NewEngine sink (dispatch_newOptions w0 opts) d = Inr e0"
    and "disk_ok (wo_insecurePermissions (do_walOpts (dispatch_newOptions w0 opts))) (dv_windows V) (fst d)"
  shows "engine_inv V [] e0" "e_opts e0 = dispatch_newOptions w0 opts"
  using assms newOptions_ok [of w0 opts]
  by (auto simp: NewEngine_def engine_inv_def life_ok_def volatile_inv_def shutdown_inv_def options_ok_def split: if_splits)

lemma engine_run:
  assumes "dispatch_run V e0 tr e" "engine_inv V [] e0"
  shows "engine_inv V tr e \<and> e_opts e = e_opts e0"
  using assms by (induction rule: dispatch_run.induct) (auto dest: engine_step)

lemma engine_run_tier:
  assumes run: "dispatch_run V e0 tr e" and new: "NewEngine sink (dispatch_newOptions w0 opts) d = Inr e0"
    and ok: "disk_ok (wo_insecurePermissions (do_walOpts (dispatch_newOptions w0 opts))) (dv_windows V) (fst d)"
  shows "life_ok e" "tier_inv V tr e" "shutdown_inv tr e" "e_opts e = dispatch_newOptions w0 opts"
  using engine_run [OF run NewEngine_inv(1) [OF new ok]] NewEngine_inv(2) [OF new ok]
  by (simp_all add: engine_inv_def)

subsection \<open>Sizes\<close>

fun sized :: "'t dispatch_options \<Rightarrow> bool \<Rightarrow> 't dworker \<Rightarrow> bool" where
  "sized o' logged (Gather recs draining) \<longleftrightarrow> int (length recs) < do_batchSize o'"
| "sized o' logged (Storing nx recs attempt) \<longleftrightarrow>
     recs \<noteq> [] \<and> int (length recs) \<le> do_batchSize o' \<and> (logged \<or> attempt \<le> do_retryAttempts o')"
| "sized o' logged (Pausing nx recs attempt delay) \<longleftrightarrow>
     recs \<noteq> [] \<and> int (length recs) \<le> do_batchSize o' \<and> (logged \<or> attempt < do_retryAttempts o') \<and> 0 < delay"
| "sized o' logged (Acking offs rem) \<longleftrightarrow> int (length offs) \<le> do_batchSize o'"
| "sized o' logged (Exited offs) \<longleftrightarrow> int (length offs) \<le> do_batchSize o'"
| "sized o' logged wk \<longleftrightarrow> True"

abbreviation workers_sized :: "('t, 'x) Engine \<Rightarrow> bool" where
  "workers_sized e \<equiv> (\<forall>wk \<in> set (e_workers e). sized (e_opts e) (e_log e \<noteq> None) wk)"

definition batches_sized :: "'t dispatch_options \<Rightarrow> 't dispatch_event list \<Rightarrow> bool" where
  "batches_sized o' tr \<longleftrightarrow> (\<forall>recs. Stored recs \<in> set tr \<longrightarrow> recs \<noteq> [] \<and> int (length recs) \<le> do_batchSize o')"

lemma sized_put:
  assumes "workers_sized e" "e_workers e1 = (e_workers e)[k := wk]" "e_opts e1 = e_opts e" "(e_log e1 = None) = (e_log e = None)"
    "sized (e_opts e) (e_log e \<noteq> None) wk"
  shows "workers_sized e1"
  using assms set_update_subset_insert [of "e_workers e" k wk] by auto

lemma claiming_worker_sized:
  assumes "int (length rs) \<le> do_batchSize o'"
  shows "sized o' True (claiming_worker c rs)"
proof -
  have "length items = length rs" if "decode_records c rs = Inr items" for items
    using decode_records_ok(1) [OF that] by (metis length_map)
  then show ?thesis
    using assms by (auto simp: claiming_worker_def split: sum.splits)
qed

lemma durable_claim_sized:
  assumes inv: "durable_inv V tr e sy" and opts: "options_ok (e_opts e)" and log: "e_log e = Some sy" and sz: "workers_sized e"
  shows "workers_sized (durable_claim (dv_os V) k sy e)"
proof -
  obtain r w1 d1 where rd: "ReadPending (dv_os V) (do_batchSize (e_opts e)) (Some (\<lambda>off. off \<in> e_inFlight e)) (sy_wal sy) (sy_disk sy)
      = (r, w1, d1)"
    by (metis surj_pair)
  have "wal_inv (sy_wal sy) (sy_disk sy)"
    using inv by (simp add: durable_inv_def log_ok_def sys_inv_def)
  from ReadPending_becomes(2) [OF this rd]
  have "sized (e_opts e) True (case r of Inl err \<Rightarrow> Exited [] | Inr rs \<Rightarrow> claiming_worker (engine_codec e) rs)"
    using opts by (cases r) (auto simp: options_ok_def intro!: claiming_worker_sized)
  then show ?thesis
    using sized_put [OF sz, of "durable_claim (dv_os V) k sy e" k] durable_claim_eq [OF rd refl, of k] log by simp
qed

lemma resumed_sized:
  assumes "options_ok o'" "int (length offs) \<le> do_batchSize o'"
  shows "sized o' logged (resumed nx offs)"
  using assms by (cases nx) (auto simp: options_ok_def)

lemma flush_batch_sized:
  assumes "workers_sized e" "options_ok (e_opts e)" "int (length recs) \<le> do_batchSize (e_opts e)"
  shows "workers_sized (flush_batch k nx recs e)"
  by (rule sized_put [OF assms(1), of _ k "if recs = [] then resumed nx [] else Storing nx recs 0"])
    (use assms(2,3) resumed_sized [of "e_opts e" "[]"] in \<open>auto simp: flush_batch_def put_worker_def options_ok_def\<close>)

lemma sized_nth: "workers_sized e \<Longrightarrow> k < length (e_workers e) \<Longrightarrow> sized (e_opts e) (e_log e \<noteq> None) (e_workers e ! k)"
  by auto

text \<open>What a worker does with its batch.\<close>

lemma batch_stored_sized:
  assumes sz: "workers_sized e" and opts: "options_ok (e_opts e)" and len: "int (length recs) \<le> do_batchSize (e_opts e)"
  shows "workers_sized (batch_stored k nx recs e)"
  by (rule sized_put [OF sz, of _ k "if e_log e \<noteq> None then Acking (map fst recs) (map fst recs) else resumed nx []"])
    (use opts len resumed_sized [OF opts, of "[]"] in \<open>auto simp: batch_stored_def put_worker_def options_ok_def\<close>)

lemma batch_failed_sized:
  assumes sz: "workers_sized e" and opts: "options_ok (e_opts e)" and k: "k < length (e_workers e)" "e_workers e ! k = Storing nx recs attempt"
    and eq: "batch_failed V k nx recs attempt err e = (evs, e1)"
  shows "workers_sized e1" "batches_sized (e_opts e) evs"
proof -
  have st: "sized (e_opts e) (e_log e \<noteq> None) (Storing nx recs attempt)"
    using sized_nth [OF sz k(1)] k(2) by simp
  let ?wk = "if store_gives_up attempt e then resumed nx (map fst recs)
    else Pausing nx recs attempt (store_backoff V (e_opts e) attempt)"
  have "sized (e_opts e) (e_log e \<noteq> None) ?wk"
    using st resumed_sized [OF opts, of "map fst recs"]
    by (auto simp: store_gives_up_def store_backoff_def DefaultRetryBackoff_def Let_def)
  then show "workers_sized e1"
    using sized_put [OF sz, of e1 k ?wk] eq by (auto simp: batch_failed_def put_worker_def split: if_splits)
  show "batches_sized (e_opts e) evs"
    using eq by (auto simp: batch_failed_def batches_sized_def split: if_splits)
qed

lemma receive_item_sized:
  assumes sz: "workers_sized e" and opts: "options_ok (e_opts e)" and k: "k < length (e_workers e)" "e_workers e ! k = Gather recs draining"
  shows "workers_sized (receive_item k recs draining e)"
proof -
  have len: "int (length recs) < do_batchSize (e_opts e)"
    using sized_nth [OF sz k(1)] k(2) by simp
  let ?e1 = "e\<lparr>e_submitted := tl (e_submitted e)\<rparr>" and ?recs = "recs @ [hd (e_submitted e)]"
  have "workers_sized (put_worker k (Gather ?recs draining) ?e1)" if "\<not> int (length ?recs) \<ge> do_batchSize (e_opts e)"
    by (rule sized_put [OF sz, of _ k "Gather ?recs draining"]) (use that in \<open>simp_all add: put_worker_def\<close>)
  moreover have "workers_sized (flush_batch k (ToGather draining) ?recs ?e1)"
    using flush_batch_sized [of ?e1 ?recs k "ToGather draining"] sz opts len by simp
  ultimately show ?thesis
    by (simp add: receive_item_def Let_def)
qed

lemma batches_sized_append: "batches_sized o' (tr @ evs) \<longleftrightarrow> batches_sized o' tr \<and> batches_sized o' evs"
  by (auto simp: batches_sized_def)

lemma batches_sized_Nil [simp]: "batches_sized o' []"
  by (simp add: batches_sized_def)

lemma sized_frame:
  assumes "workers_sized e" "e_workers e1 = e_workers e" "e_opts e1 = e_opts e" "(e_log e1 = None) = (e_log e = None)"
    "\<forall>recs. Stored recs \<notin> set evs"
  shows "workers_sized e1 \<and> batches_sized (e_opts e) evs"
  using assms by (simp add: batches_sized_def)

lemma sized_worker:
  assumes "workers_sized e" "sized (e_opts e) (e_log e \<noteq> None) wk" "e_workers e1 = (e_workers e)[k := wk]"
    "e_opts e1 = e_opts e" "(e_log e1 = None) = (e_log e = None)"
  shows "workers_sized e1 \<and> batches_sized (e_opts e) []"
  using sized_put [OF assms(1,3,4,5,2)] by simp

text \<open>The steps of the producers and of the log leave the workers as they are.\<close>

lemmas producer_step_defs = Enqueue_enter_def Enqueue_append_def Enqueue_return_def Enqueue_send_def refuse_def dropItem_def
  notifyWorker_def lead_batch_def finish_batch_def

lemma sized_step:
  assumes "dispatch_step V e evs e1" "life_ok e" "tier_inv V tr e" "workers_sized e"
  shows "workers_sized e1 \<and> batches_sized (e_opts e) evs"
  using assms
proof (induction rule: dispatch_step.induct)
  case (d_start e err recs e1)
  then have "workers_sized e1"
    by (cases rule: Engine_Start_cases) (auto simp: spawn_workers_def life_ok_def options_ok_def)
  then show ?case
    by (simp add: batches_sized_def)
next
  case (d_claim k e sy)
  then have "durable_inv V tr e sy" "options_ok (e_opts e)"
    by (simp_all add: life_ok_def)
  then show ?case
    using durable_claim_sized [OF _ _ d_claim(3,6)] by simp
next
  case (d_stored k e nx recs attempt)
  have "sized (e_opts e) (e_log e \<noteq> None) (Storing nx recs attempt)"
    using sized_nth [OF d_stored(5,1)] d_stored(2) by simp
  moreover have "options_ok (e_opts e)"
    using d_stored(3) by (simp add: life_ok_def)
  ultimately show ?case
    using batch_stored_sized [OF d_stored(5), of recs k nx] by (simp add: batches_sized_def)
next
  case (d_failed k e nx recs attempt err evs e1)
  then show ?case
    using batch_failed_sized [OF d_failed(6) _ d_failed(1,2,3)] by (simp add: life_ok_def)
next
  case (d_receive k e recs draining)
  then show ?case
    using receive_item_sized [OF d_receive(6) _ d_receive(1,2)] by (simp add: life_ok_def)
next
  case (d_flush k e recs)
  then have "int (length recs) \<le> do_batchSize (e_opts e)" "options_ok (e_opts e)"
    using sized_nth [OF d_flush(5,1)] by (auto simp: life_ok_def)
  then show ?case
    using flush_batch_sized [OF d_flush(5)] by simp
next
  case (d_empty k e recs)
  then have "int (length recs) \<le> do_batchSize (e_opts e)" "options_ok (e_opts e)"
    using sized_nth [OF d_empty(6,1)] by (auto simp: life_ok_def)
  then show ?case
    using flush_batch_sized [OF d_empty(6)] by simp
next
  case (d_drain k e recs)
  then have "sized (e_opts e) (e_log e \<noteq> None) (Gather recs True)"
    using sized_nth [OF d_drain(6,1)] by simp
  then show ?case
    by (rule sized_worker [OF d_drain(6)]) (use d_drain in \<open>simp_all add: put_worker_def\<close>)
next
  case (d_resume k e nx recs attempt delay)
  then have "sized (e_opts e) (e_log e \<noteq> None) (Storing nx recs (attempt + 1))"
    using sized_nth [OF d_resume(5,1)] by auto
  then show ?case
    by (rule sized_worker [OF d_resume(5)]) (use d_resume in \<open>simp_all add: put_worker_def\<close>)
next
  case (d_ack k e offs off rem sy)
  then have "sized (e_opts e) (e_log e \<noteq> None) (Acking offs rem)"
    using sized_nth [OF d_ack(6,1)] by simp
  then show ?case
    by (rule sized_worker [OF d_ack(6)]) (use d_ack in \<open>simp_all add: put_worker_def\<close>)
next
  case (d_release k e offs)
  show ?case
    by (rule sized_worker [OF d_release(5), of Claim]) (simp_all add: put_worker_def release_claims_def notifyWorker_def)
next
  case (d_wake k e)
  show ?case
    by (rule sized_worker [OF d_wake(6), of Claim]) (simp_all add: put_worker_def)
next
  case (d_tick k e)
  show ?case
    by (rule sized_worker [OF d_tick(5), of Claim]) (simp_all add: put_worker_def)
next
  case (d_drained k e)
  then have "0 < do_batchSize (e_opts e)"
    by (simp add: life_ok_def options_ok_def)
  then show ?case
    by (intro sized_worker [OF d_drained(6), of "Exited []"]) (simp_all add: put_worker_def)
qed (rule sized_frame; auto simp: producer_step_defs shutdown_begin_def shutdown_count_def shutdown_close_def shutdown_closed_def
    Let_def split: if_splits sum.splits option.splits prod.splits)+

lemma sized_run:
  assumes "dispatch_run V e0 tr e" "engine_inv V [] e0" "workers_sized e0"
  shows "workers_sized e \<and> batches_sized (e_opts e0) tr"
  using assms
proof (induction rule: dispatch_run.induct)
  case (dispatch_more e0 tr e1 evs e2)
  then have "engine_inv V tr e1" "e_opts e1 = e_opts e0"
    using engine_run by blast+
  then show ?case
    using sized_step [OF dispatch_more(2), of tr] dispatch_more by (simp add: engine_inv_def batches_sized_append)
qed simp

lemma claims_bounded:
  assumes "claims_ok F ws" "\<forall>wk \<in> set ws. sized o' logged wk" "0 < do_batchSize o'"
  shows "int (card F) \<le> int (length ws) * do_batchSize o'"
proof -
  have one: "int (length (claims wk)) \<le> do_batchSize o'" if "sized o' logged wk" for wk
    using that assms(3) by (cases wk) auto
  have "int (length (concat (map claims ws))) \<le> int (length ws) * do_batchSize o'"
    using assms(2) by (induction ws) (use one in \<open>fastforce simp: algebra_simps\<close>)+
  then show ?thesis
    using assms(1) distinct_card by (fastforce simp: claims_ok_def)
qed

subsection \<open>What the engine guarantees\<close>

text \<open>The item of a stored record is the one that was accepted, when decoding undoes encoding.\<close>

lemma logged_stored_item:
  assumes inv: "durable_inv V tr e sy" and acc: "(off, item) \<in> set (accepted Logged tr)" and st: "off \<in> fst ` set (stored tr)"
    and trip: "\<And>p. cd_Encode (engine_codec e) item = Inr p \<Longrightarrow> cd_Decode (engine_codec e) p = Inr item"
  shows "(off, item) \<in> set (stored tr)"
proof -
  have del: "delivery_ok (engine_codec e) (written tr) (sys_log sy) (stored tr) (e_inFlight e) (w_closed (sy_wal sy)) (e_workers e)"
    using inv by (simp add: durable_inv_def)
  obtain p where p: "(off, p) \<in> set (written tr)" "cd_Encode (engine_codec e) item = Inr p"
    using logged_written [OF inv acc] .
  obtain item' where item': "(off, item') \<in> set (stored tr)"
    using st by auto
  then obtain p' where "(off, p') \<in> set (written tr)" "cd_Decode (engine_codec e) p' = Inr item'"
    using delivery_okD(5) [OF del] by blast
  then show ?thesis
    using p trip item' eq_key_imp_eq_value [OF delivery_okD(1) [OF del]] by fastforce
qed

text \<open>A record that was written is delivered or still in the log.\<close>

lemma written_stored_or_pending:
  assumes "durable_inv V tr e sy" "(off, p) \<in> set (written tr)"
  shows "off \<in> fst ` set (stored tr) \<or> (off, p) \<in> set (sys_log sy)"
proof -
  have "delivery_ok (engine_codec e) (written tr) (sys_log sy) (stored tr) (e_inFlight e) (w_closed (sy_wal sy)) (e_workers e)"
    using assms(1) by (simp add: durable_inv_def)
  from delivery_okD(3) [OF this assms(2)] show ?thesis
    by auto
qed

text \<open>
  C12: A submission that \<^verbatim>\<open>Enqueue\<close> reported as logged is never lost. Stop the process at any moment, with
  any part of a write on the disk: when no system call fails, opening the log again succeeds, and every
  item accepted into the log has been stored by the sink or is among the records that come back, with a
  payload that decodes to it.
\<close>

theorem dispatch_survives_crash:
  assumes new: "NewEngine True (dispatch_newOptions w0 opts) d = Inr e0"
    and o': "o' = dispatch_newOptions w0 opts" "do_codec o' = Some c"
    and ok: "disk_ok (wo_insecurePermissions (do_walOpts o')) (dv_windows V) (fst d)"
    and run: "dispatch_run V e0 tr e" and log: "e_log e = Some sy"
    and bound: "ids_bounded (sy_disk sy)" and fine: "\<not> faulty os2"
    and trip: "\<And>item p. cd_Encode c item = Inr p \<Longrightarrow> cd_Decode c p = Inr item"
  shows "\<exists>w2 recs2 d2.
    Open os2 (dv_windows V) (do_walDir o') (do_walOpts o') (crash_disk sy k) = (Inr (w2, recs2), d2) \<and>
    (\<forall>(off, item) \<in> set (accepted Logged tr).
       (off, item) \<in> set (stored tr) \<or> (\<exists>p. (off, p) \<in> set recs2 \<and> cd_Decode c p = Inr item))"
proof -
  note inv = engine_run_tier [OF run new ok [unfolded o'(1)]]
  have dur: "durable_inv V tr e sy" and dir: "do_walDir o' \<noteq> ''''" and c: "engine_codec e = c"
    using inv log o' by (auto simp: life_ok_def options_ok_def engine_codec_def)
  then have "sys_inv sy" "disk_ok (wo_insecurePermissions (do_walOpts o')) (dv_windows V) (fst (sy_disk sy))"
    using inv(4) o'(1) by (simp_all add: durable_inv_def log_ok_def)
  from crash_reopens [OF this bound fine dir] obtain w2 recs2 d2
    where opn: "Open os2 (dv_windows V) (do_walDir o') (do_walOpts o') (crash_disk sy k) = (Inr (w2, recs2), d2)"
      and sub: "subseq (sys_log sy) recs2"
    by blast
  have sub: "set (sys_log sy) \<subseteq> set recs2"
    using sub by (auto simp: subseq_conv_nths dest: in_set_nthsD)
  have "(off, item) \<in> set (stored tr) \<or> (\<exists>p. (off, p) \<in> set recs2 \<and> cd_Decode c p = Inr item)"
    if acc: "(off, item) \<in> set (accepted Logged tr)" for off item
  proof -
    obtain p where "(off, p) \<in> set (written tr)" "cd_Encode c item = Inr p"
      using logged_written [OF dur acc] c by metis
    then show ?thesis
      using written_stored_or_pending [OF dur] logged_stored_item [OF dur acc] trip c sub by blast
  qed
  with opn show ?thesis
    by blast
qed




subsection \<open>Two runs\<close>

text \<open>An engine with a log for single bytes, and one with a queue.\<close>

definition byte_codec :: "(8 word) codec" where
  "byte_codec = \<lparr> cd_Encode = (\<lambda>b. Inr [b]), cd_Decode = (\<lambda>p. case p of [b] \<Rightarrow> Inr b | _ \<Rightarrow> Inl ErrReplayDecode) \<rparr>"

definition demo_env :: "unit dispatch_env" where
  "demo_env = \<lparr> dv_os = fine_os, dv_windows = False, dv_scaled = (\<lambda>n. None), dv_jitter = None \<rparr>"

definition log_options :: "(8 word) dispatch_option list" where
  "log_options = [WithWAL ''wal'' (Some byte_codec) small_opts, WithWorkers 1]"

definition queue_options :: "(8 word) dispatch_option list" where
  "queue_options = [WithBatchSize 1, WithWorkers 1]"

definition demo_engine :: "(8 word) dispatch_option list \<Rightarrow> (8 word, unit) Engine" where
  "demo_engine opts =
     \<lparr> e_opts = dispatch_newOptions small_opts opts, e_log = None, e_submitted = [], e_done = False, e_drainDone = False,
       e_canceled = False, e_started = False, e_ready = False, e_closed = False, e_dropped = 0, e_wake = 0, e_inFlight = {},
       e_lastError = None, e_workers = [], e_producers = [], e_shutdown = Running, e_disk = ([], ()) \<rparr>"

lemmas demo_defs = demo_engine_def demo_env_def log_options_def queue_options_def byte_codec_def dispatch_newOptions_def
  dispatch_defaultOptions_def

lemma new_demo: "NewEngine True (dispatch_newOptions small_opts log_options) ([], ()) = Inr (demo_engine log_options)"
  "NewEngine True (dispatch_newOptions small_opts queue_options) ([], ()) = Inr (demo_engine queue_options)"
  by (simp_all add: NewEngine_def demo_defs)

lemma demo_disk_ok:
  "disk_ok (wo_insecurePermissions (do_walOpts (dispatch_newOptions small_opts opts))) (dv_windows demo_env)
     (fst ([] :: (string, wal_file) gomap, ()))"
  by (simp add: disk_ok_empty)

text \<open>The byte 7 goes through the log.\<close>

definition log_trace :: "(8 word) dispatch_event list" where
  "log_trace = [Recovered [], Wrote [(first_off, [7])], Accepted Logged first_off 7]"

definition log_engine :: "(8 word, unit) Engine" where
  "log_engine = (demo_engine log_options)\<lparr>e_started := True, e_ready := True, e_workers := [Claim], e_wake := 1,
     e_log := Some \<lparr> sy_wal = one_wal, sy_disk = one_disk, sy_cur = getAppendBatch, sy_flight = None \<rparr>\<rparr>"

lemma log_run: "dispatch_run demo_env (demo_engine log_options) log_trace log_engine"
proof -
  let ?e0 = "demo_engine log_options"
  let ?b = "(batch_of [7])\<lparr>ab_offs := [first_off]\<rparr>"
  let ?s1 = "new_walsys fresh_wal fresh_disk"
  let ?s3 = "?s1\<lparr>sy_cur := batch_of [7]\<rparr>"
  let ?s4 = "?s3\<lparr>sy_cur := getAppendBatch, sy_flight := Some (batch_of [7], 0)\<rparr>"
  let ?s5 = "?s4\<lparr>sy_wal := one_wal, sy_disk := one_disk, sy_flight := Some (?b, 1)\<rparr>"
  let ?e1 = "?e0\<lparr>e_started := True, e_log := Some ?s1, e_workers := [Claim], e_ready := True\<rparr>"
  let ?e2 = "?e1\<lparr>e_producers := [Entered 7]\<rparr>"
  let ?e3 = "?e2\<lparr>e_log := Some ?s3, e_producers := [InCur 0 7]\<rparr>"
  let ?e4 = "?e3\<lparr>e_log := Some ?s4, e_producers := [InWrite 0 7]\<rparr>"
  let ?e5 = "?e4\<lparr>e_log := Some ?s5\<rparr>"
  let ?e6 = "?e5\<lparr>e_log := Some (?s5\<lparr>sy_flight := None\<rparr>), e_producers := [Written first_off None 7]\<rparr>"
  let ?e7 = "?e6\<lparr>e_producers := [], e_wake := 1\<rparr>"
  have "Engine_Start demo_env ?e0 = ((None, []), ?e1)"
    using open_fresh by (simp add: Engine_Start_def demo_defs spawn_workers_def)
  note r1 = dispatch_more [OF dispatch_init d_start [OF this]]
  have "dispatch_step demo_env ?e1 [] ?e2"
    by (rule d_enter [of 7]) (simp add: Enqueue_enter_def demo_defs)
  note r2 = dispatch_more [OF r1 this]
  have "dispatch_step demo_env ?e2 [] ?e3"
    by (rule d_append [of 0 _ 7 ?s1])
      (simp_all add: Enqueue_append_def engine_codec_def demo_defs new_walsys_def append_fresh)
  note r3 = dispatch_more [OF r2 this]
  have "dispatch_step demo_env ?e3 [] ?e4"
    using d_lead [of ?e3 ?s3 demo_env] by (simp add: lead_batch_def new_walsys_def)
  note r4 = dispatch_more [OF r3 this]
  have "dispatch_step demo_env ?e4 [Wrote [(first_off, [7])]] ?e5"
    using d_round [of ?e4 ?s4 "batch_of [7]" 0 demo_env ?b 1 one_wal one_disk] round_fresh results_fresh
    by (simp add: demo_env_def new_walsys_def witness_defs Let_def)
  note r5 = dispatch_more [OF r4 this]
  have "dispatch_step demo_env ?e5 [] ?e6"
    using d_finish [of ?e5 ?s5 ?b 1 demo_env]
    by (simp add: finish_batch_def Append_result_def witness_defs Let_def)
  note r6 = dispatch_more [OF r5 this]
  have "dispatch_step demo_env ?e6 [Accepted Logged first_off 7] ?e7"
    by (rule d_return [of 0 _ first_off None 7]) (simp_all add: Enqueue_return_def notifyWorker_def remove_nth_def demo_defs)
  note r7 = dispatch_more [OF r6 this]
  then show ?thesis
    by (simp add: log_trace_def log_engine_def new_walsys_def demo_engine_def)
qed

theorem dispatch_survives_crash_witness:
  "\<exists>w2 recs2 d2. Open fine_os False ''wal'' small_opts (crash_disk (the (e_log log_engine)) 3) = (Inr (w2, recs2), d2) \<and>
     (\<exists>p. (first_off, p) \<in> set recs2 \<and> cd_Decode byte_codec p = Inr 7)"
proof -
  have opts: "do_codec (dispatch_newOptions small_opts log_options) = Some byte_codec"
    "do_walDir (dispatch_newOptions small_opts log_options) = ''wal''" "do_walOpts (dispatch_newOptions small_opts log_options) = small_opts"
    by (simp_all add: demo_defs)
  have log: "e_log log_engine = Some (the (e_log log_engine))"
    by (simp add: log_engine_def)
  have "ids_bounded (sy_disk (the (e_log log_engine)))"
    by (auto simp: ids_bounded_def log_engine_def one_disk_def gm_get_def)
  from dispatch_survives_crash [OF new_demo(1) refl opts(1) demo_disk_ok log_run log this not_faulty_fine, of 3] show ?thesis
    by (simp add: opts demo_env_def log_trace_def byte_codec_def)
qed

text \<open>It is read back from the log and stored.\<close>

lemma log_run_inv: "durable_inv demo_env log_trace log_engine (the (e_log log_engine))"
  using engine_run_tier(2) [OF log_run new_demo(1) demo_disk_ok] by (simp add: log_engine_def)

lemma log_run_read: "\<exists>w1 d1. ReadPending fine_os 100 skip one_wal one_disk = (Inr (filter (wanted skip) [(first_off, [7])]), w1, d1)"
proof -
  let ?sy = "the (e_log log_engine)"
  have wal: "wal_inv one_wal one_disk"
    and del: "delivery_ok (engine_codec log_engine) [(first_off, [7])] (sys_log ?sy) [] (e_inFlight log_engine)
        (w_closed (sy_wal ?sy)) (e_workers log_engine)"
    using log_run_inv by (simp_all add: durable_inv_def log_ok_def sys_inv_def log_trace_def log_engine_def)
  have "set (wal_log one_wal one_disk) = {(first_off, [7])}"
    using delivery_okD(2,3) [OF del] by (fastforce simp: log_engine_def)
  moreover have "distinct (wal_log one_wal one_disk)"
    using wal_log_distinct [OF wal] by (simp add: distinct_map)
  ultimately have log: "wal_log one_wal one_disk = [(first_off, [7])]"
    by (cases "wal_log one_wal one_disk"; cases "tl (wal_log one_wal one_disk)") auto
  obtain r w1 d1 where rd: "ReadPending fine_os 100 skip one_wal one_disk = (r, w1, d1)"
    by (metis surj_pair)
  have "\<not> w_closed one_wal" "\<not> reads_fail fine_os"
    by (simp_all add: one_wal_def fresh_wal_def reads_fail_def fine_os_def)
  then have "r = Inr (filter (wanted skip) [(first_off, [7])])"
    using ReadPending_becomes(2) [OF wal rd] log by (cases r) auto
  with rd show ?thesis
    by blast
qed

lemma log_run_stored:
  "\<exists>e. dispatch_run demo_env (demo_engine log_options) (log_trace @ [Stored [(first_off, 7)]]) e \<and> e_log e \<noteq> None \<and>
     e_workers e = [Acking [first_off] [first_off]] \<and> e_inFlight e = {first_off}"
proof -
  let ?sy = "the (e_log log_engine)"
  obtain w1 d1 where "ReadPending fine_os 100 (Some (\<lambda>off. off \<in> {})) one_wal one_disk = (Inr [(first_off, [7])], w1, d1)"
    using log_run_read [of "Some (\<lambda>off. off \<in> {})"] by (auto simp: wanted_def)
  then have rd: "ReadPending (dv_os demo_env) (do_batchSize (e_opts log_engine)) (Some (\<lambda>off. off \<in> e_inFlight log_engine))
      (sy_wal ?sy) (sy_disk ?sy) = (Inr [(first_off, [7])], w1, d1)"
    by (simp add: log_engine_def demo_defs)
  let ?e8 = "durable_claim (dv_os demo_env) 0 ?sy log_engine"
  have e8: "e_log ?e8 \<noteq> None" "e_workers ?e8 = [Storing ToClaim [(first_off, 7)] 0]" "e_inFlight ?e8 = {first_off}"
    using durable_claim_eq [OF rd refl, of 0] by (simp_all add: claiming_worker_def engine_codec_def log_engine_def demo_defs)
  have "dispatch_step demo_env log_engine [] ?e8"
    by (rule d_claim) (simp_all add: log_engine_def)
  note r8 = dispatch_more [OF log_run this]
  have "dispatch_step demo_env ?e8 [Stored [(first_off, 7)]] (batch_stored 0 ToClaim [(first_off, 7)] ?e8)"
    by (rule d_stored) (simp_all add: e8)
  note r9 = dispatch_more [OF r8 this]
  then show ?thesis
    using e8 by (intro exI [of _ "batch_stored 0 ToClaim [(first_off, 7)] ?e8"]) (simp add: batch_stored_def put_worker_def)
qed



text \<open>The byte 7 goes through the queue, and the engine shuts down.\<close>

definition queue_trace :: "(8 word) dispatch_event list" where
  "queue_trace = [Recovered [], Accepted Queued zero_Offset 7, Stored [(zero_Offset, 7)], Returned None]"

definition queue_engine :: "(8 word, unit) Engine" where
  "queue_engine = (demo_engine queue_options)\<lparr>e_started := True, e_ready := True, e_workers := [Gather [] False]\<rparr>"

lemma queue_delivers:
  "dispatch_run demo_env (demo_engine queue_options)
     [Recovered [], Accepted Queued zero_Offset 7, Stored [(zero_Offset, 7)]] queue_engine"
proof -
  let ?e0 = "demo_engine queue_options" and ?it = "(zero_Offset, 7) :: Offset \<times> 8 word"
  let ?e1 = "?e0\<lparr>e_started := True, e_workers := [Gather [] False], e_ready := True\<rparr>"
  let ?e2 = "?e1\<lparr>e_producers := [Entered 7]\<rparr>"
  let ?e3 = "?e1\<lparr>e_submitted := [?it], e_producers := []\<rparr>"
  let ?e4 = "?e1\<lparr>e_submitted := [], e_producers := [], e_workers := [Storing (ToGather False) [?it] 0]\<rparr>"
  let ?e5 = "?e4\<lparr>e_workers := [Gather [] False]\<rparr>"
  have "Engine_Start demo_env ?e0 = ((None, []), ?e1)"
    by (simp add: Engine_Start_def demo_defs spawn_workers_def)
  note r1 = dispatch_more [OF dispatch_init d_start [OF this]]
  have "dispatch_step demo_env ?e1 [] ?e2"
    by (rule d_enter [of 7]) (simp add: Enqueue_enter_def demo_defs)
  note r2 = dispatch_more [OF r1 this]
  have "dispatch_step demo_env ?e2 [Accepted Queued zero_Offset 7] ?e3"
    by (rule d_send [of 0 _ 7]) (simp_all add: Enqueue_send_def queue_room_def remove_nth_def demo_defs)
  note r3 = dispatch_more [OF r2 this]
  have "dispatch_step demo_env ?e3 [] ?e4"
    using d_receive [of 0 ?e3 "[]" False demo_env] by (simp add: receive_item_def flush_batch_def put_worker_def demo_defs)
  note r4 = dispatch_more [OF r3 this]
  have "dispatch_step demo_env ?e4 [Stored [?it]] ?e5"
    using d_stored [of 0 ?e4 "ToGather False" "[?it]" 0 demo_env] by (simp add: batch_stored_def put_worker_def demo_defs)
  note r5 = dispatch_more [OF r4 this]
  then show ?thesis
    by (simp add: queue_engine_def demo_engine_def)
qed

lemma queue_run: "\<exists>e. dispatch_run demo_env (demo_engine queue_options) queue_trace e"
proof -
  let ?e5 = queue_engine
  let ?e6 = "?e5\<lparr>e_closed := True, e_done := True, e_shutdown := Locking\<rparr>"
  let ?e7 = "?e6\<lparr>e_drainDone := True, e_shutdown := Waiting\<rparr>"
  let ?e8 = "?e7\<lparr>e_workers := [Gather [] True]\<rparr>"
  let ?e9 = "?e8\<lparr>e_workers := [Exited []]\<rparr>"
  let ?e10 = "?e9\<lparr>e_shutdown := Counting []\<rparr>"
  let ?e11 = "?e10\<lparr>e_canceled := True, e_shutdown := Finishing []\<rparr>"
  have "dispatch_step demo_env ?e5 [] ?e6"
    using d_shutdown [of demo_env ?e5] by (simp add: shutdown_begin_def queue_engine_def demo_engine_def)
  note r6 = dispatch_more [OF queue_delivers this]
  have "dispatch_step demo_env ?e6 [] ?e7"
    by (rule d_locked) (simp_all add: queue_engine_def demo_engine_def)
  note r7 = dispatch_more [OF r6 this]
  have "dispatch_step demo_env ?e7 [] ?e8"
    using d_drain [of 0 ?e7 "[]" demo_env] by (simp add: put_worker_def queue_engine_def demo_engine_def)
  note r8 = dispatch_more [OF r7 this]
  have "dispatch_step demo_env ?e8 [] ?e9"
    using d_empty [of 0 ?e8 "[]" demo_env] by (simp add: flush_batch_def put_worker_def queue_engine_def demo_engine_def)
  note r9 = dispatch_more [OF r8 this]
  have "dispatch_step demo_env ?e9 [] ?e10"
    by (rule d_finished) (simp_all add: queue_engine_def demo_engine_def)
  note r10 = dispatch_more [OF r9 this]
  have "dispatch_step demo_env ?e10 [] ?e11"
    using d_count [of ?e10 "[]" demo_env] by (simp add: shutdown_count_def queue_engine_def demo_engine_def)
  note r11 = dispatch_more [OF r10 this]
  have "shutdown_result [] ?e11 = None"
    by (simp add: shutdown_result_None queue_engine_def demo_engine_def)
  with d_result [of ?e11 "[]" demo_env] have "dispatch_step demo_env ?e11 [Returned None] (?e11\<lparr>e_shutdown := Down\<rparr>)"
    by simp
  note r12 = dispatch_more [OF r11 this]
  then show ?thesis
    by (auto simp: queue_trace_def)
qed


end
