(* ===== verification/Spec2Isabelle.thy ===== *)
theory Spec2Isabelle
  imports RetryQueue Saga SwissTable Maps Idempotency Depgraph Wal SagaDefinition Dispatch
begin

text \<open>
  A verification library for parts of the go-atlas toolkit.
\<close>

end
